(* ===== verification/Impulse_Prelude.thy ===== *)
theory Impulse_Prelude
  imports Complex_Main "HOL-Library.Word" "HOL-Library.Monad_Syntax" "HOL-Library.Sublist"
begin

text \<open>
  Shared vocabulary of the development: the machine integers and clock values of the
  Rust program, saturating arithmetic, the slice and \<open>Vec\<close> operations the sources use
  (indexing, \<open>swap_remove\<close>, \<open>binary_search_by\<close>, \<open>partition_point\<close>), and the generic
  facts about them.

  Conventions.  \<open>usize\<close> is 64 bits wide, as on the supported targets.  Counters that the
  program lets wrap or saturate are words; positions in a \<open>Vec\<close> are natural numbers (a
  vector never has more than \<open>isize::MAX\<close> elements, so they cannot wrap).  An
  \<open>Instant\<close> and a \<open>Duration\<close> are nanosecond counts; every \<open>Instant::now()\<close> of the
  source is a clock argument of the definition.  \<open>f64\<close> values are exact reals: rounding
  is not modelled.  A computation that can panic returns an \<open>option\<close>, with \<open>None\<close>
  for the panic.
\<close>

section \<open>Types\<close>

type_synonym u8 = "8 word"
type_synonym u16 = "16 word"
type_synonym u32 = "32 word"
type_synonym u64 = "64 word"
type_synonym usize = "64 word"
type_synonym instant = nat
type_synonym duration = nat

named_theorems sat_simps \<open>saturating arithmetic read as natural numbers\<close>
named_theorems vec_simps \<open>vector operations that succeed\<close>

section \<open>Durations\<close>

definition from_millis :: "u64 \<Rightarrow> duration" where
  "from_millis ms = unat ms * 1000000"

definition from_secs :: "nat \<Rightarrow> duration" where
  "from_secs s = s * 1000000000"

definition as_secs_f64 :: "duration \<Rightarrow> real" where
  "as_secs_f64 d = real d / 1000000000"

definition as_millis :: "duration \<Rightarrow> nat" where
  "as_millis d = d div 1000000"

text \<open>\<open>Instant::saturating_duration_since\<close>: natural subtraction stops at zero as well.\<close>

definition saturating_duration_since :: "instant \<Rightarrow> instant \<Rightarrow> duration" where
  "saturating_duration_since now earlier = now - earlier"

lemma as_secs_f64_nonneg [simp]: "0 \<le> as_secs_f64 d"
  by (simp add: as_secs_f64_def)

section \<open>Saturating arithmetic\<close>

definition saturating_add :: "'a::len word \<Rightarrow> 'a word \<Rightarrow> 'a word" where
  "saturating_add a b = (if unat a + unat b < 2 ^ LENGTH('a) then a + b else - 1)"

definition saturating_sub :: "'a::len word \<Rightarrow> 'a word \<Rightarrow> 'a word" where
  "saturating_sub a b = (if b \<le> a then a - b else 0)"

definition saturating_mul :: "'a::len word \<Rightarrow> 'a word \<Rightarrow> 'a word" where
  "saturating_mul a b = (if unat a * unat b < 2 ^ LENGTH('a) then a * b else - 1)"

lemma unat_max_word [sat_simps]: "unat (- 1 :: 'a::len word) = 2 ^ LENGTH('a) - 1"
  by transfer (simp add: take_bit_minus_one_eq_mask mask_eq_exp_minus_1 nat_diff_distrib nat_power_eq)

lemma unat_saturating_add [sat_simps]:
  fixes a b :: "'a::len word"
  shows "unat (saturating_add a b) = min (unat a + unat b) (2 ^ LENGTH('a) - 1)"
proof (cases "unat a + unat b < 2 ^ LENGTH('a)")
  case True
  then have "unat a + unat b \<le> 2 ^ LENGTH('a) - 1" by linarith
  with True show ?thesis by (simp add: saturating_add_def unat_word_ariths)
next
  case False
  then have "2 ^ LENGTH('a) - 1 \<le> unat a + unat b" by linarith
  with False show ?thesis
    by (simp add: saturating_add_def unat_max_word min.absorb2)
qed

lemma unat_saturating_sub [sat_simps]:
  "unat (saturating_sub a b) = unat a - unat b"
  by (auto simp: saturating_sub_def unat_sub word_le_nat_alt)

lemma unat_saturating_mul [sat_simps]:
  fixes a b :: "'a::len word"
  shows "unat (saturating_mul a b) = min (unat a * unat b) (2 ^ LENGTH('a) - 1)"
proof (cases "unat a * unat b < 2 ^ LENGTH('a)")
  case True
  then have "unat a * unat b \<le> 2 ^ LENGTH('a) - 1" by linarith
  with True show ?thesis by (simp add: saturating_mul_def unat_word_ariths)
next
  case False
  then have "2 ^ LENGTH('a) - 1 \<le> unat a * unat b" by linarith
  with False show ?thesis
    by (simp add: saturating_mul_def unat_max_word min.absorb2)
qed

lemma unat_bound: "unat w < 2 ^ LENGTH('a)" for w :: "'a::len word"
  by (rule unsigned_less)

lemma unat_max: "unat (max a b) = max (unat a) (unat b)"
  by (auto simp: max_def word_le_nat_alt)

lemma unat_min: "unat (min a b) = min (unat a) (unat b)"
  by (auto simp: min_def word_le_nat_alt)

lemma unat_of_nat_small: "k < 2 ^ LENGTH('a) \<Longrightarrow> unat (of_nat k :: 'a::len word) = k"
  by (simp add: unsigned_of_nat take_bit_nat_eq_self)

lemma of_nat_word_0D: "(of_nat k :: 'a::len word) = 0 \<Longrightarrow> k < 2 ^ LENGTH('a) \<Longrightarrow> k = 0"
  using unat_of_nat_small [of k, where 'a = 'a] by simp

lemma unat_widen [sat_simps]: "unat (ucast (w :: u32) :: u64) = unat w"
  using unat_bound [of w] by (simp add: unsigned_ucast_eq take_bit_nat_eq_self)

lemma unat_incr:
  fixes a b :: "'a::len word"
  assumes "a < b"
  shows "unat (a + 1) = unat a + 1" and "a + 1 \<le> b"
proof -
  have lt: "unat a + 1 \<le> unat b" using assms by (simp add: word_less_nat_alt)
  then have "unat a + 1 < 2 ^ LENGTH('a)" using unat_bound [of b] by linarith
  then show inc: "unat (a + 1) = unat a + 1" by (simp add: unat_word_ariths)
  show "a + 1 \<le> b" using lt inc by (simp add: word_le_nat_alt)
qed

lemma unat_decr:
  fixes a :: "'a::len word"
  assumes "0 < a"
  shows "unat (a - 1) = unat a - 1" and "a - 1 \<le> a"
proof -
  show dec: "unat (a - 1) = unat a - 1" using assms by (simp add: unat_minus_one)
  show "a - 1 \<le> a" using dec by (simp add: word_le_nat_alt)
qed

lemma max_1_pos: "0 < unat (max w (1 :: 'a::len word))"
  by (simp add: unat_max)

lemma max_1_gt_0 [simp]: "0 < max w (1 :: 'a::len word)"
  using max_1_pos [of w] by (simp add: word_less_nat_alt)

section \<open>Vectors\<close>

text \<open>\<open>slice::get\<close> and indexing; indexing out of range panics.\<close>

definition vec_get :: "'a list \<Rightarrow> nat \<Rightarrow> 'a option" where
  "vec_get xs i = (if i < length xs then Some (xs ! i) else None)"

definition vec_set :: "'a list \<Rightarrow> nat \<Rightarrow> 'a \<Rightarrow> 'a list option" where
  "vec_set xs i v = (if i < length xs then Some (xs[i := v]) else None)"

text \<open>\<open>Vec::swap_remove\<close>: the removed element and the remaining vector.\<close>

definition swap_remove :: "'a list \<Rightarrow> nat \<Rightarrow> ('a \<times> 'a list) option" where
  "swap_remove xs i =
     (if i < length xs then Some (xs ! i, butlast (xs[i := last xs])) else None)"

lemma vec_get_Some [vec_simps]: "i < length xs \<Longrightarrow> vec_get xs i = Some (xs ! i)"
  by (simp add: vec_get_def)

lemma vec_set_Some [vec_simps]: "i < length xs \<Longrightarrow> vec_set xs i v = Some (xs[i := v])"
  by (simp add: vec_set_def)

lemma swap_remove_Some [vec_simps]:
  "i < length xs \<Longrightarrow> swap_remove xs i = Some (xs ! i, butlast (xs[i := last xs]))"
  by (simp add: swap_remove_def)

lemma vec_get_eq_SomeD: "vec_get xs i = Some x \<Longrightarrow> i < length xs \<and> x = xs ! i"
  by (simp add: vec_get_def split: if_splits)

lemma vec_get_eq_SomeE:
  assumes "vec_get xs i = Some x"
  obtains "i < length xs" and "x = xs ! i"
  using assms by (auto dest: vec_get_eq_SomeD)

lemma sum_list_upper:
  fixes M :: "'a::linordered_semidom"
  shows "\<forall>x \<in> set xs. x \<le> M \<Longrightarrow> sum_list xs \<le> M * of_nat (length xs)"
  by (induction xs) (auto simp: algebra_simps intro: add_mono)

lemma filter_length_update:
  "i < length xs \<Longrightarrow> length (filter P (xs[i := y])) + (if P (xs ! i) then 1 else 0) =
     length (filter P xs) + (if P y then 1 else 0)"
proof (induction xs arbitrary: i)
  case (Cons x xs)
  then show ?case by (cases i) auto
qed simp

section \<open>Debug assertions\<close>

text \<open>\<open>debug_assert!\<close> around a call: skipped without \<open>debug_assertions\<close>, a panic when the
  call returns false.\<close>

definition debug_assert :: "bool \<Rightarrow> ('s \<Rightarrow> (bool \<times> 's) option) \<Rightarrow> 's \<Rightarrow> 's option" where
  "debug_assert dbg act s =
     (if dbg then (case act s of None \<Rightarrow> None | Some (ok, s') \<Rightarrow> if ok then Some s' else None)
      else Some s)"

section \<open>Binary search\<close>

text \<open>
  \<open>slice::binary_search_by\<close> of the standard library: the loop halves the candidate range
  and keeps the last probe that is not greater than the target.  \<open>Inr\<close> is \<open>Ok\<close>,
  \<open>Inl\<close> is \<open>Err\<close>.
\<close>

datatype ordering = Less | Equal | Greater

function bs_loop :: "(nat \<Rightarrow> ordering) \<Rightarrow> nat \<Rightarrow> nat \<Rightarrow> nat" where
  "bs_loop f base sz =
     (if 1 < sz
      then bs_loop f (if f (base + sz div 2) = Greater then base else base + sz div 2)
             (sz - sz div 2)
      else base)"
  by pat_completeness auto
termination
  by (relation "measure (\<lambda>(f, base, sz). sz)") auto

declare bs_loop.simps [simp del]

definition binary_search_by :: "('a \<Rightarrow> ordering) \<Rightarrow> 'a list \<Rightarrow> nat + nat" where
  "binary_search_by cmp xs =
     (if xs = [] then Inl 0
      else let base = bs_loop (\<lambda>i. cmp (xs ! i)) 0 (length xs) in
        (case cmp (xs ! base) of
           Equal \<Rightarrow> Inr base
         | Less \<Rightarrow> Inl (base + 1)
         | Greater \<Rightarrow> Inl base))"

definition partition_point :: "('a \<Rightarrow> bool) \<Rightarrow> 'a list \<Rightarrow> nat" where
  "partition_point pred xs =
     (case binary_search_by (\<lambda>x. if pred x then Less else Greater) xs of
        Inl i \<Rightarrow> i
      | Inr i \<Rightarrow> i)"

text \<open>A slice is ordered for a comparison when no element is on the wrong side of another.\<close>

definition cmp_sorted :: "('a \<Rightarrow> ordering) \<Rightarrow> 'a list \<Rightarrow> bool" where
  "cmp_sorted cmp xs \<longleftrightarrow>
     (\<forall>j < length xs. \<forall>i < j.
        (cmp (xs ! j) = Less \<longrightarrow> cmp (xs ! i) = Less) \<and>
        (cmp (xs ! i) = Greater \<longrightarrow> cmp (xs ! j) = Greater))"

lemma bs_loop_range:
  "0 < sz \<Longrightarrow> base \<le> bs_loop f base sz \<and> bs_loop f base sz < base + sz"
proof (induction f base sz rule: bs_loop.induct)
  case (1 f base sz)
  show ?case
  proof (cases "1 < sz")
    case True
    then have "0 < sz - sz div 2" by arith
    note IH = "1.IH" [OF True this]
    let ?b = "if f (base + sz div 2) = Greater then base else base + sz div 2"
    have eq: "bs_loop f base sz = bs_loop f ?b (sz - sz div 2)"
      by (subst bs_loop.simps, subst if_P [OF True]) (rule refl)
    have "base \<le> ?b" and "?b + (sz - sz div 2) \<le> base + sz" by simp_all
    with IH show ?thesis unfolding eq by linarith
  next
    case False
    with "1.prems" show ?thesis by (simp add: bs_loop.simps [of f base sz])
  qed
qed

text \<open>Everything after the resulting position is greater, and a position other than the
  initial one was probed and found not greater.\<close>

definition greater_closed :: "(nat \<Rightarrow> ordering) \<Rightarrow> nat \<Rightarrow> bool" where
  "greater_closed f n \<longleftrightarrow> (\<forall>j < n. \<forall>i < j. f i = Greater \<longrightarrow> f j = Greater)"

lemma greater_closedD:
  "greater_closed f n \<Longrightarrow> f i = Greater \<Longrightarrow> i \<le> j \<Longrightarrow> j < n \<Longrightarrow> f j = Greater"
  unfolding greater_closed_def by (metis le_neq_implies_less)

lemma greater_closed_mono: "greater_closed f n \<Longrightarrow> m \<le> n \<Longrightarrow> greater_closed f m"
  unfolding greater_closed_def by auto

lemma cmp_sorted_closed: "cmp_sorted cmp xs \<Longrightarrow> greater_closed (\<lambda>i. cmp (xs ! i)) (length xs)"
  unfolding cmp_sorted_def greater_closed_def by blast

lemma bs_loop_split:
  assumes "0 < sz" and "greater_closed f (base + sz)"
  shows "(\<forall>i. bs_loop f base sz < i \<longrightarrow> i < base + sz \<longrightarrow> f i = Greater) \<and>
         (bs_loop f base sz \<noteq> base \<longrightarrow> f (bs_loop f base sz) \<noteq> Greater)"
  using assms
proof (induction f base sz rule: bs_loop.induct)
  case (1 f base sz)
  show ?case
  proof (cases "1 < sz")
    case True
    define half where "half = sz div 2"
    have half: "0 < half" "half < sz" "0 < sz - half" using True by (auto simp: half_def)
    show ?thesis
    proof (cases "f (base + half) = Greater")
      case g: True
      have sel: "(if f (base + sz div 2) = Greater then base else base + sz div 2) = base"
        using g by (simp add: half_def)
      have mono: "greater_closed f (base + (sz - half))"
        by (rule greater_closed_mono [OF "1.prems"(2)]) simp
      have eq: "bs_loop f base sz = bs_loop f base (sz - half)"
        using True g bs_loop.simps [of f base sz] by (simp add: half_def)
      have "(\<forall>i. bs_loop f base (sz - half) < i \<longrightarrow> i < base + (sz - half) \<longrightarrow> f i = Greater) \<and>
            (bs_loop f base (sz - half) \<noteq> base \<longrightarrow> f (bs_loop f base (sz - half)) \<noteq> Greater)"
        by (rule "1.IH" [OF True, unfolded sel, folded half_def, OF half(3) mono])
      moreover have "\<forall>i. base + (sz - half) \<le> i \<longrightarrow> i < base + sz \<longrightarrow> f i = Greater"
      proof (intro allI impI)
        fix i assume i: "base + (sz - half) \<le> i" "i < base + sz"
        have "base + half \<le> i" using i(1) by (simp add: half_def)
        then show "f i = Greater"
          by (rule greater_closedD [OF "1.prems"(2) g]) (rule i(2))
      qed
      ultimately show ?thesis unfolding eq by (meson not_le)
    next
      case ng: False
      let ?b = "base + half"
      have range: "?b + (sz - half) = base + sz" using half by simp
      have sel: "(if f (base + sz div 2) = Greater then base else base + sz div 2) = base + sz div 2"
        using ng by (simp add: half_def)
      have mono: "greater_closed f (?b + (sz - half))" unfolding range by (rule "1.prems"(2))
      have eq: "bs_loop f base sz = bs_loop f ?b (sz - half)"
        using True ng bs_loop.simps [of f base sz] by (simp add: half_def)
      have IH: "(\<forall>i. bs_loop f ?b (sz - half) < i \<longrightarrow> i < ?b + (sz - half) \<longrightarrow> f i = Greater) \<and>
            (bs_loop f ?b (sz - half) \<noteq> ?b \<longrightarrow> f (bs_loop f ?b (sz - half)) \<noteq> Greater)"
        by (rule "1.IH" [OF True, unfolded sel, folded half_def, OF half(3) mono])
      then have "f (bs_loop f ?b (sz - half)) \<noteq> Greater"
        using ng by (cases "bs_loop f ?b (sz - half) = ?b") auto
      with IH show ?thesis unfolding eq range by blast
    qed
  next
    case False
    with "1.prems"(1) have "sz = 1" by simp
    then have "bs_loop f base sz = base" using bs_loop.simps [of f base sz] by simp
    with \<open>sz = 1\<close> show ?thesis by simp
  qed
qed

lemma binary_search_by_Ok:
  "binary_search_by cmp xs = Inr i \<Longrightarrow> i < length xs \<and> cmp (xs ! i) = Equal"
  using bs_loop_range [of "length xs" 0 "\<lambda>i. cmp (xs ! i)"]
  by (auto simp: binary_search_by_def Let_def split: if_splits ordering.splits)

lemma binary_search_by_Err:
  assumes sorted: "cmp_sorted cmp xs" and err: "binary_search_by cmp xs = Inl i"
  shows "i \<le> length xs \<and> (\<forall>j < i. cmp (xs ! j) = Less) \<and>
         (\<forall>j < length xs. i \<le> j \<longrightarrow> cmp (xs ! j) = Greater)"
proof (cases "xs = []")
  case True
  with err show ?thesis by (simp add: binary_search_by_def)
next
  case False
  define b where "b = bs_loop (\<lambda>i. cmp (xs ! i)) 0 (length xs)"
  have b: "b < length xs"
    using bs_loop_range [of "length xs" 0] False by (auto simp: b_def)
  have after: "\<forall>j. b < j \<longrightarrow> j < length xs \<longrightarrow> cmp (xs ! j) = Greater"
    and probed: "b \<noteq> 0 \<longrightarrow> cmp (xs ! b) \<noteq> Greater"
    using bs_loop_split [of "length xs" "\<lambda>i. cmp (xs ! i)" 0] False
      cmp_sorted_closed [OF sorted] by (simp_all add: b_def)
  show ?thesis
  proof (cases "cmp (xs ! b)")
    case Less
    with err False have "i = b + 1" by (simp add: binary_search_by_def b_def Let_def)
    moreover have "\<forall>j < b. cmp (xs ! j) = Less" using sorted b Less unfolding cmp_sorted_def by blast
    ultimately show ?thesis using b after Less by (auto simp: less_Suc_eq)
  next
    case Equal
    with err False show ?thesis by (simp add: binary_search_by_def b_def Let_def)
  next
    case Greater
    with err False have "i = b" by (simp add: binary_search_by_def b_def Let_def)
    moreover have "b = 0" using probed Greater by blast
    moreover have "cmp (xs ! j) = Greater" if "j < length xs" for j
      using after that Greater \<open>b = 0\<close> by (cases j) simp_all
    ultimately show ?thesis by simp
  qed
qed

lemma partition_point_props:
  assumes part: "\<forall>j < length xs. \<forall>i < j. pred (xs ! j) \<longrightarrow> pred (xs ! i)"
  shows "partition_point pred xs \<le> length xs \<and> (\<forall>j < partition_point pred xs. pred (xs ! j)) \<and>
         (\<forall>j < length xs. partition_point pred xs \<le> j \<longrightarrow> \<not> pred (xs ! j))"
proof -
  let ?cmp = "\<lambda>x. if pred x then Less else Greater"
  have sorted: "cmp_sorted ?cmp xs"
    unfolding cmp_sorted_def
  proof (intro allI impI conjI)
    fix j i assume "j < length xs" "i < j"
    then have "pred (xs ! j) \<longrightarrow> pred (xs ! i)" using part by blast
    then show "?cmp (xs ! j) = Less \<Longrightarrow> ?cmp (xs ! i) = Less"
      and "?cmp (xs ! i) = Greater \<Longrightarrow> ?cmp (xs ! j) = Greater"
      by (auto split: if_splits)
  qed
  have "\<And>x. ?cmp x \<noteq> Equal" by simp
  then have "binary_search_by ?cmp xs \<noteq> Inr i" for i
    using binary_search_by_Ok [of ?cmp xs i] by blast
  then obtain i where i: "binary_search_by ?cmp xs = Inl i"
    by (cases "binary_search_by ?cmp xs") blast+
  then have pp: "partition_point pred xs = i" by (simp add: partition_point_def)
  have "i \<le> length xs \<and> (\<forall>j < i. ?cmp (xs ! j) = Less) \<and>
         (\<forall>j < length xs. i \<le> j \<longrightarrow> ?cmp (xs ! j) = Greater)"
    by (rule binary_search_by_Err [OF sorted i])
  moreover have "\<And>x. (?cmp x = Less) = pred x" and "\<And>x. (?cmp x = Greater) = (\<not> pred x)"
    by simp_all
  ultimately show ?thesis unfolding pp by metis
qed

lemma partition_point_eq:
  assumes "k \<le> length xs" and "\<And>j. j < k \<Longrightarrow> pred (xs ! j)"
    and "\<And>j. k \<le> j \<Longrightarrow> j < length xs \<Longrightarrow> \<not> pred (xs ! j)"
  shows "partition_point pred xs = k"
proof -
  have "\<forall>j < length xs. \<forall>i < j. pred (xs ! j) \<longrightarrow> pred (xs ! i)"
    using assms(2,3) by (meson le_less_trans less_imp_le not_le)
  from partition_point_props [OF this] assms show ?thesis
    by (metis le_neq_implies_less linorder_not_le nle_le order.strict_trans2)
qed

end
