(* ===== verification/Token_Bucket.thy ===== *)
theory Token_Bucket
  imports Impulse_Prelude
begin

text \<open>
  The token buckets that limit new QUIC connections (\<open>edge/src/quic_listener/token_bucket.rs\<close>): a
  global bucket and one bucket per source address.  Token counts are exact reals, so the branch for
  a refill that is not finite does not occur.  The source table is a list of entries in the
  iteration order of the hash map, which the program does not control; the results hold for every
  such list.
\<close>

section \<open>One bucket\<close>

record token_bucket =
  tb_burst :: real
  tb_rate_per_sec :: real
  tb_tokens :: real
  tb_last_refill :: instant

definition token_bucket_new :: "u32 \<Rightarrow> u32 \<Rightarrow> instant \<Rightarrow> token_bucket" where
  "token_bucket_new rate bst now =
     (let bst = real (unat (max bst 1)) in
      \<lparr>tb_burst = bst, tb_rate_per_sec = real (unat (max rate 1)), tb_tokens = bst, tb_last_refill = now\<rparr>)"

definition tb_refill :: "instant \<Rightarrow> token_bucket \<Rightarrow> token_bucket" where
  "tb_refill now b =
     (let refill = as_secs_f64 (saturating_duration_since now (tb_last_refill b)) * tb_rate_per_sec b;
          b' = b\<lparr>tb_last_refill := now\<rparr> in
      if 0 < refill then b'\<lparr>tb_tokens := min (tb_tokens b + refill) (tb_burst b)\<rparr> else b')"

definition tb_try_consume :: "instant \<Rightarrow> token_bucket \<Rightarrow> token_bucket \<times> bool" where
  "tb_try_consume now b =
     (let b' = tb_refill now b in
      if 1 \<le> tb_tokens b' then (b'\<lparr>tb_tokens := tb_tokens b' - 1\<rparr>, True) else (b', False))"

definition tb_reconfigure :: "u32 \<Rightarrow> u32 \<Rightarrow> instant \<Rightarrow> token_bucket \<Rightarrow> token_bucket" where
  "tb_reconfigure rate bst now b =
     (let bst = real (unat (max bst 1)) in
      b\<lparr>tb_burst := bst, tb_rate_per_sec := real (unat (max rate 1)), tb_tokens := min (tb_tokens b) bst,
        tb_last_refill := now\<rparr>)"

section \<open>One bucket per source\<close>

definition per_source_rate_divisor :: u32 where "per_source_rate_divisor = 10"
definition max_tracked_sources :: nat where "max_tracked_sources = 4096"
definition source_idle_ttl :: duration where "source_idle_ttl = from_secs 300"

text \<open>\<open>std::net::IpAddr\<close>.\<close>

datatype ip_addr = V4 "32 word" | V6 "128 word"

record per_source_bucket =
  ps_buckets :: "(ip_addr \<times> token_bucket \<times> instant) list"
  ps_rate_per_sec :: u32
  ps_burst :: u32

definition per_source_rate :: "u32 \<Rightarrow> u32" where
  "per_source_rate rate = max (rate div per_source_rate_divisor) 1"

definition per_source_burst :: "u32 \<Rightarrow> u32" where
  "per_source_burst bst = max (bst div per_source_rate_divisor) 1"

definition per_source_new :: "u32 \<Rightarrow> u32 \<Rightarrow> per_source_bucket" where
  "per_source_new rate bst =
     \<lparr>ps_buckets = [], ps_rate_per_sec = per_source_rate rate, ps_burst = per_source_burst bst\<rparr>"

text \<open>Each bucket reads the clock once; the entry is given the instant at which it is visited.\<close>

definition per_source_reconfigure ::
  "u32 \<Rightarrow> u32 \<Rightarrow> (ip_addr \<Rightarrow> instant) \<Rightarrow> per_source_bucket \<Rightarrow> per_source_bucket" where
  "per_source_reconfigure rate bst clock ps =
     (let r = per_source_rate rate; b = per_source_burst bst in
      ps\<lparr>ps_rate_per_sec := r, ps_burst := b,
         ps_buckets := map (\<lambda>(ip, bucket, seen). (ip, tb_reconfigure r b (clock ip) bucket, seen)) (ps_buckets ps)\<rparr>)"

text \<open>\<open>Iterator::min_by_key\<close> keeps the first of equal minima.\<close>

fun min_by_key :: "('a \<Rightarrow> nat) \<Rightarrow> 'a list \<Rightarrow> 'a option" where
  "min_by_key f [] = None"
| "min_by_key f (x # xs) =
     (case min_by_key f xs of None \<Rightarrow> Some x | Some y \<Rightarrow> if f x \<le> f y then Some x else Some y)"

definition evict_oldest :: "ip_addr \<Rightarrow> (ip_addr \<times> token_bucket \<times> instant) list \<Rightarrow> (ip_addr \<times> token_bucket \<times> instant) list" where
  "evict_oldest source es =
     (if source \<notin> set (map fst es) \<and> max_tracked_sources \<le> length es
      then case min_by_key (\<lambda>(ip, bucket, seen). seen) es of
             Some (oldest, _) \<Rightarrow> filter (\<lambda>e. fst e \<noteq> oldest) es
           | None \<Rightarrow> es
      else es)"

text \<open>The clock is read at the start, when a new bucket is built, and when the token is taken.\<close>

definition per_source_try_consume ::
  "instant \<times> instant \<times> instant \<Rightarrow> ip_addr \<Rightarrow> per_source_bucket \<Rightarrow> per_source_bucket \<times> bool" where
  "per_source_try_consume = (\<lambda>(now, now_new, now_take) source ps.
     let live = filter (\<lambda>(ip, bucket, seen). saturating_duration_since now seen < source_idle_ttl) (ps_buckets ps);
         kept = evict_oldest source live;
         entries = (if source \<in> set (map fst kept) then kept
                    else kept @ [(source, token_bucket_new (ps_rate_per_sec ps) (ps_burst ps) now_new, now)]) in
     case map_of entries source of
       None \<Rightarrow> (ps\<lparr>ps_buckets := entries\<rparr>, False)
     | Some (bucket, seen) \<Rightarrow>
         (case tb_try_consume now_take bucket of (bucket', ok) \<Rightarrow>
           (ps\<lparr>ps_buckets := map (\<lambda>(ip, e). if ip = source then (ip, bucket', now) else (ip, e)) entries\<rparr>, ok)))"

section \<open>The rate bound\<close>

definition tb_ok :: "token_bucket \<Rightarrow> bool" where
  "tb_ok b \<longleftrightarrow> 0 \<le> tb_tokens b \<and> tb_tokens b \<le> tb_burst b \<and> 1 \<le> tb_burst b \<and> 1 \<le> tb_rate_per_sec b"

fun tb_grants :: "instant list \<Rightarrow> token_bucket \<Rightarrow> bool list" where
  "tb_grants [] b = []"
| "tb_grants (t # ts) b = (case tb_try_consume t b of (b', ok) \<Rightarrow> ok # tb_grants ts b')"

lemma max_1_real: "1 \<le> real (unat (max w (1 :: u32)))"
  using max_1_pos [of w] by linarith

lemma token_bucket_new_ok: "tb_ok (token_bucket_new r b now)"
  using max_1_real [of b] max_1_real [of r] by (simp add: tb_ok_def token_bucket_new_def Let_def)

lemma tb_reconfigure_ok: "tb_ok b \<Longrightarrow> tb_ok (tb_reconfigure r bst now b)"
  using max_1_real [of bst] max_1_real [of r] by (simp add: tb_ok_def tb_reconfigure_def Let_def)

text \<open>What one refill adds.\<close>

lemma tb_refill_ok:
  assumes "tb_ok b"
  shows "tb_ok (tb_refill now b)" "tb_burst (tb_refill now b) = tb_burst b"
    "tb_rate_per_sec (tb_refill now b) = tb_rate_per_sec b" "tb_last_refill (tb_refill now b) = now"
    "tb_tokens (tb_refill now b) =
       min (tb_tokens b + as_secs_f64 (now - tb_last_refill b) * tb_rate_per_sec b) (tb_burst b)"
proof -
  let ?r = "as_secs_f64 (now - tb_last_refill b) * tb_rate_per_sec b"
  have "0 \<le> ?r" using assms by (simp add: tb_ok_def)
  then show tok: "tb_tokens (tb_refill now b) = min (tb_tokens b + ?r) (tb_burst b)"
  proof (cases "0 < ?r")
    case True
    then show ?thesis by (simp add: tb_refill_def Let_def saturating_duration_since_def)
  next
    case False
    then have "?r = 0" using \<open>0 \<le> ?r\<close> by linarith
    then show ?thesis
      using assms False by (simp add: tb_refill_def Let_def saturating_duration_since_def tb_ok_def del: mult_eq_0_iff)
  qed
  show same: "tb_burst (tb_refill now b) = tb_burst b" "tb_rate_per_sec (tb_refill now b) = tb_rate_per_sec b"
    "tb_last_refill (tb_refill now b) = now"
    by (simp_all add: tb_refill_def Let_def)
  show "tb_ok (tb_refill now b)" using assms \<open>0 \<le> ?r\<close> by (simp add: tb_ok_def tok same)
qed

lemma tb_try_consume_ok:
  assumes "tb_ok b" and "tb_try_consume now b = (b', ok)"
  shows "tb_ok b'" "tb_burst b' = tb_burst b" "tb_rate_per_sec b' = tb_rate_per_sec b" "tb_last_refill b' = now"
    "tb_tokens b' + (if ok then 1 else 0) =
       min (tb_tokens b + as_secs_f64 (now - tb_last_refill b) * tb_rate_per_sec b) (tb_burst b)"
  using tb_refill_ok [OF assms(1), of now] assms(2)
  by (auto simp: tb_try_consume_def Let_def tb_ok_def split: if_splits)

lemma as_secs_f64_add: "as_secs_f64 a + as_secs_f64 b = as_secs_f64 (a + b)"
  by (simp add: as_secs_f64_def field_simps)

lemma grants_bound:
  assumes "tb_ok b" and "sorted (tb_last_refill b # ts)"
  shows "real (length (filter (\<lambda>ok. ok) (tb_grants ts b))) \<le>
     tb_tokens b + as_secs_f64 (last (tb_last_refill b # ts) - tb_last_refill b) * tb_rate_per_sec b"
  using assms
proof (induction ts arbitrary: b)
  case Nil
  then show ?case by (simp add: tb_ok_def as_secs_f64_def)
next
  case (Cons t ts)
  obtain b' ok where st: "tb_try_consume t b = (b', ok)" by fastforce
  note b' = tb_try_consume_ok [OF Cons.prems(1) st]
  let ?fin = "last (t # ts)"
  have ord: "tb_last_refill b \<le> t" "t \<le> ?fin" using Cons.prems(2) by (auto simp: last_conv_nth)
  have IH: "real (length (filter (\<lambda>ok. ok) (tb_grants ts b'))) \<le> tb_tokens b' + as_secs_f64 (?fin - t) * tb_rate_per_sec b"
  proof -
    have "sorted (tb_last_refill b' # ts)" using Cons.prems(2) b'(4) by simp
    from Cons.IH [OF b'(1) this, unfolded b'(3,4)] show ?thesis .
  qed
  have "as_secs_f64 (t - tb_last_refill b) + as_secs_f64 (?fin - t) = as_secs_f64 (?fin - tb_last_refill b)"
    using ord by (simp add: as_secs_f64_add)
  then have "as_secs_f64 (t - tb_last_refill b) * tb_rate_per_sec b + as_secs_f64 (?fin - t) * tb_rate_per_sec b =
      as_secs_f64 (?fin - tb_last_refill b) * tb_rate_per_sec b"
    by (metis distrib_right)
  then show ?case using IH b'(5) st by (auto split: if_splits)
qed

text \<open>
  C29. A token bucket never grants more than its burst plus what its rate refills: from any state of
  a bucket, any sequence of attempts at non-decreasing instants takes at most the burst plus the
  rate times the elapsed seconds, however the attempts are spaced.
\<close>

theorem token_bucket_rate_bound:
  assumes "tb_ok b" and "sorted (tb_last_refill b # ts)"
  shows "real (length (filter (\<lambda>ok. ok) (tb_grants ts b))) \<le>
     tb_burst b + tb_rate_per_sec b * as_secs_f64 (last (tb_last_refill b # ts) - tb_last_refill b)"
  using grants_bound [OF assms] assms(1) by (simp add: tb_ok_def mult.commute)

theorem token_bucket_rate_bound_witness:
  "real (length (filter (\<lambda>ok. ok) (tb_grants [5, 6, 7] (token_bucket_new 1 2 5)))) \<le> 2 + 2 / 1000000000"
  using token_bucket_rate_bound [OF token_bucket_new_ok [of 1 2 5], of "[5, 6, 7]"]
  by (simp add: token_bucket_new_def Let_def as_secs_f64_def)

section \<open>The source table\<close>

definition ps_ok :: "per_source_bucket \<Rightarrow> bool" where
  "ps_ok ps \<longleftrightarrow> distinct (map fst (ps_buckets ps)) \<and> length (ps_buckets ps) \<le> max_tracked_sources \<and>
     list_all (\<lambda>(ip, bucket, seen). tb_ok bucket) (ps_buckets ps)"

datatype source_event =
    Reconfigure u32 u32 "ip_addr \<Rightarrow> instant"
  | TryConsume "instant \<times> instant \<times> instant" ip_addr

fun source_step :: "source_event \<Rightarrow> per_source_bucket \<Rightarrow> per_source_bucket" where
  "source_step (Reconfigure r b clock) ps = per_source_reconfigure r b clock ps"
| "source_step (TryConsume clk source) ps = fst (per_source_try_consume clk source ps)"

lemma min_by_key_mem: "min_by_key f xs = Some y \<Longrightarrow> y \<in> set xs \<and> (\<forall>x \<in> set xs. f y \<le> f x)"
proof (induction xs arbitrary: y)
  case (Cons x xs)
  show ?case
  proof (cases "min_by_key f xs")
    case None
    then show ?thesis using Cons.prems by (cases xs) (auto split: option.splits if_splits)
  next
    case (Some z)
    then show ?thesis using Cons.IH [OF Some] Cons.prems by (force split: if_splits)
  qed
qed simp

lemma min_by_key_None: "min_by_key f xs = None \<longleftrightarrow> xs = []"
  by (cases xs) (auto split: option.splits)

text \<open>Eviction makes room for a new source and drops only a least recently seen one.\<close>

lemma evict_oldest_room:
  assumes "distinct (map fst es)" and "length es \<le> max_tracked_sources" and "source \<notin> set (map fst es)"
  shows "length (evict_oldest source es) < max_tracked_sources"
proof (cases "max_tracked_sources \<le> length es")
  case True
  then have "es \<noteq> []" by (auto simp: max_tracked_sources_def)
  then obtain ip e where m: "min_by_key (\<lambda>(ip, bucket, seen). seen) es = Some (ip, e)"
    by (metis min_by_key_None not_None_eq prod.exhaust)
  then have "(ip, e) \<in> set es" using min_by_key_mem by fastforce
  then have "length (filter (\<lambda>x. fst x \<noteq> ip) es) < length es"
    by (intro length_filter_less [where x = "(ip, e)"]) simp_all
  then show ?thesis using True assms(2,3) m by (simp add: evict_oldest_def)
next
  case False
  then show ?thesis by (simp add: evict_oldest_def)
qed

lemma evict_oldest_subset: "set (evict_oldest source es) \<subseteq> set es"
  by (auto simp: evict_oldest_def split: option.splits)

lemma evict_oldest_distinct: "distinct (map fst es) \<Longrightarrow> distinct (map fst (evict_oldest source es))"
  by (auto simp: evict_oldest_def distinct_map_filter split: option.splits)

lemma evict_oldest_length: "length (evict_oldest source es) \<le> length es"
  by (auto simp: evict_oldest_def length_filter_le split: option.splits)

lemma evict_oldest_known: "source \<in> set (map fst es) \<Longrightarrow> evict_oldest source es = es"
  by (auto simp: evict_oldest_def)

text \<open>The table in which the token is taken.\<close>

definition consume_entries :: "instant \<times> instant \<times> instant \<Rightarrow> ip_addr \<Rightarrow> per_source_bucket \<Rightarrow> (ip_addr \<times> token_bucket \<times> instant) list" where
  "consume_entries = (\<lambda>(now, now_new, now_take) source ps.
     let live = filter (\<lambda>(ip, bucket, seen). saturating_duration_since now seen < source_idle_ttl) (ps_buckets ps);
         kept = evict_oldest source live in
     if source \<in> set (map fst kept) then kept
     else kept @ [(source, token_bucket_new (ps_rate_per_sec ps) (ps_burst ps) now_new, now)])"

lemma consume_entries_ok:
  assumes "ps_ok ps"
  shows "ps_ok (ps\<lparr>ps_buckets := consume_entries clk source ps\<rparr>) \<and> source \<in> set (map fst (consume_entries clk source ps))"
proof -
  obtain now now_new now_take where clk: "clk = (now, now_new, now_take)" by (cases clk) auto
  let ?live = "filter (\<lambda>(ip, bucket, seen). saturating_duration_since now seen < source_idle_ttl) (ps_buckets ps)"
  let ?kept = "evict_oldest source ?live"
  have live: "distinct (map fst ?live)" "length ?live \<le> max_tracked_sources" "set ?live \<subseteq> set (ps_buckets ps)"
    using assms by (auto simp: ps_ok_def distinct_map_filter intro: order_trans [OF length_filter_le])
  have kept: "distinct (map fst ?kept)" "length ?kept \<le> max_tracked_sources" "set ?kept \<subseteq> set (ps_buckets ps)"
    using evict_oldest_distinct [OF live(1)] evict_oldest_length [of source ?live] evict_oldest_subset [of source ?live] live
    by auto
  have room: "length ?kept < max_tracked_sources" if "source \<notin> set (map fst ?kept)"
    using that evict_oldest_known [of source ?live] evict_oldest_room [OF live(1,2)] by metis
  have "list_all (\<lambda>(ip, bucket, seen). tb_ok bucket) ?kept"
    using assms kept(3) by (auto simp: ps_ok_def list_all_iff)
  then show ?thesis
    using kept(1,2) room by (auto simp: clk consume_entries_def Let_def ps_ok_def token_bucket_new_ok)
qed

lemma try_consume_entries:
  assumes "ps_ok ps"
  obtains bucket seen bucket' ok where "map_of (consume_entries clk source ps) source = Some (bucket, seen)"
    "tb_try_consume (snd (snd clk)) bucket = (bucket', ok)" "tb_ok bucket"
    "per_source_try_consume clk source ps =
       (ps\<lparr>ps_buckets := map (\<lambda>(ip, e). if ip = source then (ip, bucket', fst clk) else (ip, e)) (consume_entries clk source ps)\<rparr>, ok)"
proof -
  have "source \<in> set (map fst (consume_entries clk source ps))" and okE: "ps_ok (ps\<lparr>ps_buckets := consume_entries clk source ps\<rparr>)"
    using consume_entries_ok [OF assms, of clk source] by auto
  then obtain e where "map_of (consume_entries clk source ps) source = Some e" by (metis map_of_eq_None_iff not_None_eq set_map)
  then obtain bucket seen where m: "map_of (consume_entries clk source ps) source = Some (bucket, seen)" by (cases e) auto
  obtain bucket' ok where st: "tb_try_consume (snd (snd clk)) bucket = (bucket', ok)" by fastforce
  have "tb_ok bucket" using okE map_of_SomeD [OF m] by (auto simp: ps_ok_def list_all_iff)
  moreover have "per_source_try_consume clk source ps =
       (ps\<lparr>ps_buckets := map (\<lambda>(ip, e). if ip = source then (ip, bucket', fst clk) else (ip, e)) (consume_entries clk source ps)\<rparr>, ok)"
    using m st by (simp add: per_source_try_consume_def consume_entries_def Let_def split_beta)
  ultimately show thesis using that m st by blast
qed

lemma source_step_ok:
  assumes "ps_ok ps"
  shows "ps_ok (source_step ev ps)"
proof (cases ev)
  case (Reconfigure r b clock)
  have "fst \<circ> (\<lambda>(ip, bucket, seen). (ip, tb_reconfigure r' b' (clock ip) bucket, seen :: instant)) = fst" for r' b'
    by (auto simp: fun_eq_iff)
  then show ?thesis
    using assms Reconfigure tb_reconfigure_ok
    by (auto simp: ps_ok_def per_source_reconfigure_def Let_def list_all_iff)
next
  case (TryConsume clk source)
  obtain bucket seen bucket' ok where "map_of (consume_entries clk source ps) source = Some (bucket, seen)"
    and st: "tb_try_consume (snd (snd clk)) bucket = (bucket', ok)" "tb_ok bucket"
    and res: "per_source_try_consume clk source ps =
       (ps\<lparr>ps_buckets := map (\<lambda>(ip, e). if ip = source then (ip, bucket', fst clk) else (ip, e)) (consume_entries clk source ps)\<rparr>, ok)"
    by (rule try_consume_entries [OF assms])
  have "ps_ok (ps\<lparr>ps_buckets := consume_entries clk source ps\<rparr>)" using consume_entries_ok [OF assms] by blast
  moreover have "fst \<circ> (\<lambda>(ip, e). if ip = source then (ip, bucket', fst clk) else (ip, e)) = fst"
    by (auto simp: fun_eq_iff)
  ultimately show ?thesis
    using TryConsume res tb_try_consume_ok(1) [OF st(2,1)]
    by (auto simp: ps_ok_def list_all_iff split: if_splits)
qed

lemma source_run_ok: "ps_ok ps \<Longrightarrow> ps_ok (fold source_step evs ps)"
  by (induction evs arbitrary: ps) (auto simp: source_step_ok)

lemma per_source_new_ok: "ps_ok (per_source_new r b)"
  by (simp add: ps_ok_def per_source_new_def)

text \<open>The entry of an address that is not idle, and the addresses that have one.\<close>

definition live_entry :: "instant \<Rightarrow> per_source_bucket \<Rightarrow> ip_addr \<Rightarrow> (token_bucket \<times> instant) option" where
  "live_entry now ps ip = (case map_of (ps_buckets ps) ip of
       Some (bucket, seen) \<Rightarrow> if now - seen < source_idle_ttl then Some (bucket, seen) else None
     | None \<Rightarrow> None)"

definition live_sources :: "instant \<Rightarrow> per_source_bucket \<Rightarrow> ip_addr set" where
  "live_sources now ps = {ip. live_entry now ps ip \<noteq> None}"

text \<open>What an attempt of a source may evict: nothing, or a least recently seen live address when the
  source is not live and the table is full of live ones.\<close>

definition evictable :: "instant \<Rightarrow> ip_addr \<Rightarrow> per_source_bucket \<Rightarrow> ip_addr set \<Rightarrow> bool" where
  "evictable now source ps E \<longleftrightarrow>
     (if source \<notin> live_sources now ps \<and> 4096 \<le> card (live_sources now ps)
      then \<exists>oldest bucket seen. E = {oldest} \<and> live_entry now ps oldest = Some (bucket, seen) \<and>
        (\<forall>ip b s. live_entry now ps ip = Some (b, s) \<longrightarrow> seen \<le> s)
      else E = {})"

lemma map_of_filter_distinct:
  "distinct (map fst xs) \<Longrightarrow> map_of (filter P xs) k = (case map_of xs k of Some v \<Rightarrow> if P (k, v) then Some v else None | None \<Rightarrow> None)"
  by (induction xs) (auto simp: map_of_eq_None_iff image_iff split: option.splits)

definition live_table :: "instant \<Rightarrow> per_source_bucket \<Rightarrow> (ip_addr \<times> token_bucket \<times> instant) list" where
  "live_table now ps = filter (\<lambda>(ip, bucket, seen). saturating_duration_since now seen < source_idle_ttl) (ps_buckets ps)"

lemma live_table_entry:
  assumes "ps_ok ps"
  shows "map_of (live_table now ps) ip = live_entry now ps ip" and "distinct (map fst (live_table now ps))"
    and "set (map fst (live_table now ps)) = live_sources now ps" and "card (live_sources now ps) = length (live_table now ps)"
proof -
  have d: "distinct (map fst (ps_buckets ps))" using assms by (simp add: ps_ok_def)
  show m: "map_of (live_table now ps) ip = live_entry now ps ip" for ip
    unfolding live_table_def live_entry_def map_of_filter_distinct [OF d]
    by (auto simp: saturating_duration_since_def split: option.splits)
  show dl: "distinct (map fst (live_table now ps))" using d by (simp add: live_table_def distinct_map_filter)
  show s: "set (map fst (live_table now ps)) = live_sources now ps"
    using m map_of_eq_None_iff [of "live_table now ps"] by (auto simp: live_sources_def)
  show "card (live_sources now ps) = length (live_table now ps)"
    unfolding s [symmetric] using distinct_card [OF dl] by simp
qed

lemma evict_oldest_entry:
  assumes "ps_ok ps"
  obtains E where "evictable now source ps E"
    and "\<And>ip. map_of (evict_oldest source (live_table now ps)) ip = (if ip \<in> E then None else live_entry now ps ip)"
proof (cases "source \<notin> live_sources now ps \<and> 4096 \<le> card (live_sources now ps)")
  case True
  note live = live_table_entry [OF assms, of now]
  have "live_table now ps \<noteq> []" using True live(4) by auto
  then obtain oldest bucket seen where m: "min_by_key (\<lambda>(ip, bucket, seen). seen) (live_table now ps) = Some (oldest, bucket, seen)"
    by (metis min_by_key_None not_None_eq prod.exhaust)
  have mem: "(oldest, bucket, seen) \<in> set (live_table now ps)"
    and least: "\<forall>x \<in> set (live_table now ps). seen \<le> snd (snd x)"
    using min_by_key_mem [OF m] by (auto simp: split_beta)
  have "live_entry now ps oldest = Some (bucket, seen)"
    using map_of_is_SomeI [OF live(2) mem] by (simp add: live(1))
  moreover have "seen \<le> s" if "live_entry now ps ip = Some (b, s)" for ip b s
    using least map_of_SomeD [of "live_table now ps" ip "(b, s)"] that by (auto simp: live(1))
  ultimately have "evictable now source ps {oldest}" using True by (auto simp: evictable_def)
  moreover have "evict_oldest source (live_table now ps) = filter (\<lambda>e. fst e \<noteq> oldest) (live_table now ps)"
    using True m unfolding evict_oldest_def live(3) live(4) max_tracked_sources_def by simp
  then have "map_of (evict_oldest source (live_table now ps)) ip = (if ip \<in> {oldest} then None else live_entry now ps ip)" for ip
    using map_of_filter_distinct [OF live(2), of "\<lambda>e. fst e \<noteq> oldest" ip] by (simp add: live(1) split: option.splits)
  ultimately show ?thesis by (rule that)
next
  case False
  note live = live_table_entry [OF assms, of now]
  have "evict_oldest source (live_table now ps) = live_table now ps"
    using False unfolding evict_oldest_def live(3) live(4) max_tracked_sources_def by auto
  then show ?thesis using that [of "{}"] False live(1) by (auto simp: evictable_def)
qed

text \<open>
  C30. However many addresses send packets and however the limits are reconfigured, an attempt of a
  source acts exactly on the bucket of that source: it takes the token from the bucket stored for the
  source if that entry is not idle, and from a new full bucket otherwise, and stores what is left.
  Every other address keeps its entry unchanged, except that idle entries are dropped and that, when
  the source is not live and 4,096 other addresses are, one least recently seen address is dropped.
  The table never has more than 4,096 entries.
\<close>

theorem per_source_table_bounded:
  assumes "ps = fold source_step evs (per_source_new rate bst)"
    and "per_source_try_consume (now, now_new, now_take) source ps = (ps', ok)"
  shows "length (ps_buckets ps') \<le> 4096 \<and> distinct (map fst (ps_buckets ps')) \<and>
     (\<exists>bucket'. tb_try_consume now_take (case live_entry now ps source of Some (bucket, seen) \<Rightarrow> bucket
            | None \<Rightarrow> token_bucket_new (ps_rate_per_sec ps) (ps_burst ps) now_new) = (bucket', ok) \<and>
        map_of (ps_buckets ps') source = Some (bucket', now)) \<and>
     (\<exists>E. evictable now source ps E \<and>
        (\<forall>ip. ip \<noteq> source \<longrightarrow> map_of (ps_buckets ps') ip = (if ip \<in> E then None else live_entry now ps ip)))"
proof -
  have ok: "ps_ok ps" using assms(1) source_run_ok [OF per_source_new_ok] by simp
  let ?clk = "(now, now_new, now_take)"
  let ?es = "consume_entries ?clk source ps" and ?kept = "evict_oldest source (live_table now ps)"
  let ?new = "(token_bucket_new (ps_rate_per_sec ps) (ps_burst ps) now_new, now)"
  obtain bucket seen bucket' ok' where m: "map_of ?es source = Some (bucket, seen)"
    and st': "tb_try_consume (snd (snd ?clk)) bucket = (bucket', ok')" "tb_ok bucket"
    and res: "per_source_try_consume ?clk source ps =
      (ps\<lparr>ps_buckets := map (\<lambda>(ip, e). if ip = source then (ip, bucket', fst ?clk) else (ip, e)) ?es\<rparr>, ok')"
    by (rule try_consume_entries [OF ok])
  have st: "tb_try_consume now_take bucket = (bucket', ok)"
    and ps': "ps' = ps\<lparr>ps_buckets := map (\<lambda>(ip, e). if ip = source then (ip, bucket', now) else (ip, e)) ?es\<rparr>"
    using st'(1) res [unfolded fst_conv] assms(2) by simp_all
  have ok': "ps_ok ps'" using source_step_ok [OF ok, of "TryConsume ?clk source"] assms(2) by simp
  obtain E where E: "evictable now source ps E"
    "\<And>ip. map_of ?kept ip = (if ip \<in> E then None else live_entry now ps ip)"
    using evict_oldest_entry [OF ok] by blast
  have "source \<notin> E" using E(1) by (auto simp: evictable_def live_sources_def split: if_splits)
  then have kept: "source \<in> set (map fst ?kept) \<longleftrightarrow> live_entry now ps source \<noteq> None"
    using E(2) [of source] map_of_eq_None_iff [of ?kept source] by auto
  have es: "map_of ?es ip = (if ip = source then Some (case live_entry now ps source of Some e \<Rightarrow> e | None \<Rightarrow> ?new)
      else if ip \<in> E then None else live_entry now ps ip)" for ip
    using E(2) \<open>source \<notin> E\<close> kept
    by (auto simp: consume_entries_def live_table_def [symmetric] Let_def map_add_def split: option.splits)
  have "map_of (map (\<lambda>(ip, e). if ip = source then (ip, bucket', now) else (ip, e)) xs) ip =
      (if ip = source then map_option (\<lambda>_. (bucket', now)) (map_of xs ip) else map_of xs ip)" for xs ip
    by (induction xs) auto
  then have upd: "map_of (ps_buckets ps') ip = (if ip = source then Some (bucket', now)
      else if ip \<in> E then None else live_entry now ps ip)" for ip
    by (simp add: ps' es)
  have "bucket = (case live_entry now ps source of Some (bucket, seen) \<Rightarrow> bucket
      | None \<Rightarrow> token_bucket_new (ps_rate_per_sec ps) (ps_burst ps) now_new)"
    using m es [of source] by (auto split: option.splits)
  then show ?thesis using ok' st E(1) upd by (auto simp: ps_ok_def max_tracked_sources_def)
qed

text \<open>Two attempts of one address on a table with room for one token each, and one of another address.\<close>

definition demo_sources :: per_source_bucket where
  "demo_sources = fold source_step [TryConsume (1, 2, 3) (V4 1)] (per_source_new 10 2)"

lemma demo_sources_table:
  "live_entry 7 demo_sources (V4 1) = Some (\<lparr>tb_burst = 1, tb_rate_per_sec = 1, tb_tokens = 0, tb_last_refill = 3\<rparr>, 1)"
  "live_entry 7 demo_sources (V4 2) = None" "live_sources 7 demo_sources = {V4 1}"
  "ps_rate_per_sec demo_sources = 1" "ps_burst demo_sources = 1"
proof -
  have b: "ps_buckets demo_sources = [(V4 1, \<lparr>tb_burst = 1, tb_rate_per_sec = 1, tb_tokens = 0, tb_last_refill = 3\<rparr>, 1)]"
    and c: "ps_rate_per_sec demo_sources = 1" "ps_burst demo_sources = 1"
    by (simp_all add: demo_sources_def per_source_new_def per_source_rate_def per_source_burst_def per_source_rate_divisor_def
        per_source_try_consume_def evict_oldest_def max_tracked_sources_def token_bucket_new_def tb_try_consume_def
        tb_refill_def as_secs_f64_def saturating_duration_since_def Let_def)
  then show "live_entry 7 demo_sources (V4 1) = Some (\<lparr>tb_burst = 1, tb_rate_per_sec = 1, tb_tokens = 0, tb_last_refill = 3\<rparr>, 1)"
    "live_entry 7 demo_sources (V4 2) = None" "live_sources 7 demo_sources = {V4 1}"
    "ps_rate_per_sec demo_sources = 1" "ps_burst demo_sources = 1"
    by (auto simp: live_sources_def live_entry_def source_idle_ttl_def from_secs_def)
qed

theorem per_source_table_bounded_witness:
  "\<not> snd (per_source_try_consume (7, 8, 9) (V4 1) demo_sources) \<and> snd (per_source_try_consume (7, 8, 9) (V4 2) demo_sources) \<and>
   map_of (ps_buckets (fst (per_source_try_consume (7, 8, 9) (V4 2) demo_sources))) (V4 1) = live_entry 7 demo_sources (V4 1)"
proof -
  note use = per_source_table_bounded [OF demo_sources_def prod.collapse [symmetric]]
  have "\<not> snd (per_source_try_consume (7, 8, 9) (V4 1) demo_sources)"
    using use [where now = 7 and now_new = 8 and now_take = 9 and source = "V4 1"]
    by (auto simp: demo_sources_table tb_try_consume_def tb_refill_def as_secs_f64_def saturating_duration_since_def Let_def)
  moreover have "snd (per_source_try_consume (7, 8, 9) (V4 2) demo_sources)"
    using use [where now = 7 and now_new = 8 and now_take = 9 and source = "V4 2"]
    by (auto simp: demo_sources_table token_bucket_new_def tb_try_consume_def tb_refill_def as_secs_f64_def
        saturating_duration_since_def Let_def)
  moreover have "map_of (ps_buckets (fst (per_source_try_consume (7, 8, 9) (V4 2) demo_sources))) (V4 1) = live_entry 7 demo_sources (V4 1)"
    using use [where now = 7 and now_new = 8 and now_take = 9 and source = "V4 2"]
    by (auto simp: demo_sources_table evictable_def)
  ultimately show ?thesis by simp
qed

end
