(* ===== verification/Cid_Radix.thy ===== *)
theory Cid_Radix
  imports Impulse_Prelude "HOL-Library.AList"
begin

text \<open>
  The trie of source connection ids (\<open>edge/src/cid_radix.rs\<close>), by which short packets find their
  connection.  A node's children are an association list, as the map of the program is.  The locale
  \<open>finite_index\<close> states what an index of keys promises; the trie is an instance of it, and the
  lookup is proved against the set of ids it stands for.
\<close>

section \<open>The trie\<close>

type_synonym cid = "u8 list"

datatype cid_node = CidNode (scid: "cid option") (children: "(u8 \<times> cid_node) list")

definition cid_empty :: cid_node where
  "cid_empty = CidNode None []"

text \<open>\<open>insert\<close> walks the bytes of the id and creates the missing nodes.\<close>

fun insert_at :: "cid \<Rightarrow> cid \<Rightarrow> cid_node \<Rightarrow> cid_node" where
  "insert_at [] full (CidNode v cs) = CidNode (Some full) cs"
| "insert_at (b # bs) full (CidNode v cs) =
     CidNode v (AList.update b
       (insert_at bs full (case map_of cs b of Some c \<Rightarrow> c | None \<Rightarrow> cid_empty)) cs)"

definition cid_insert :: "cid \<Rightarrow> cid_node \<Rightarrow> cid_node" where
  "cid_insert s t = insert_at s s t"

fun lpm_loop :: "cid_node \<Rightarrow> cid \<Rightarrow> cid option \<Rightarrow> cid option" where
  "lpm_loop (CidNode v cs) [] best = (case v of Some s \<Rightarrow> Some s | None \<Rightarrow> best)"
| "lpm_loop (CidNode v cs) (b # bs) best =
     (let best' = (case v of Some s \<Rightarrow> Some s | None \<Rightarrow> best) in
      case map_of cs b of Some n \<Rightarrow> lpm_loop n bs best' | None \<Rightarrow> best')"

definition longest_prefix_match :: "cid_node \<Rightarrow> cid \<Rightarrow> cid option" where
  "longest_prefix_match t dcid = (if dcid = [] then None else lpm_loop t dcid None)"

text \<open>The node after the removal, and whether it is left without value and children.\<close>

fun prune_remove :: "cid_node \<Rightarrow> cid \<Rightarrow> cid_node \<times> bool" where
  "prune_remove (CidNode v cs) [] = (CidNode None cs, cs = [])"
| "prune_remove (CidNode v cs) (b # bs) =
     (let cs' = (case map_of cs b of
                   None \<Rightarrow> cs
                 | Some c \<Rightarrow>
                     (case prune_remove c bs of
                        (c', True) \<Rightarrow> AList.delete b cs
                      | (c', False) \<Rightarrow> AList.update b c' cs)) in
      (CidNode v cs', v = None \<and> cs' = []))"

definition cid_remove :: "cid \<Rightarrow> cid_node \<Rightarrow> cid_node" where
  "cid_remove s t = fst (prune_remove t s)"

definition cid_clear :: "cid_node \<Rightarrow> cid_node" where
  "cid_clear t = cid_empty"

fun count_scids :: "cid_node \<Rightarrow> nat" where
  "count_scids (CidNode v cs) = (if v = None then 0 else 1) + sum_list (map (\<lambda>(b, c). count_scids c) cs)"

definition cid_is_empty :: "cid_node \<Rightarrow> bool" where
  "cid_is_empty t \<longleftrightarrow> count_scids t = 0"

section \<open>What the trie stores\<close>

fun value_at :: "cid_node \<Rightarrow> cid \<Rightarrow> cid option" where
  "value_at (CidNode v cs) [] = v"
| "value_at (CidNode v cs) (b # bs) = (case map_of cs b of Some c \<Rightarrow> value_at c bs | None \<Rightarrow> None)"

definition cids :: "cid_node \<Rightarrow> cid set" where
  "cids t = {s. value_at t s \<noteq> None}"

text \<open>
  Well-formedness below a path: the id stored at a node is the path to it, the children are keyed
  by distinct bytes, and every child holds a value or has children of its own.
\<close>

fun cid_wf :: "cid \<Rightarrow> cid_node \<Rightarrow> bool" where
  "cid_wf path (CidNode v cs) \<longleftrightarrow>
     v \<in> {None, Some path} \<and> distinct (map fst cs) \<and>
     list_all (\<lambda>(b, c). cid_wf (path @ [b]) c \<and> c \<noteq> cid_empty) cs"

lemma value_at_empty [simp]: "value_at cid_empty s = None"
  by (cases s) (simp_all add: cid_empty_def)

lemma value_at_insert:
  "value_at (insert_at s full n) p = (if p = s then Some full else value_at n p)"
proof (induction s full n arbitrary: p rule: insert_at.induct)
  case (1 full v cs)
  then show ?case by (cases p) auto
next
  case (2 b bs full v cs)
  then show ?case by (cases p) (auto simp: update_conv' split: option.splits)
qed

lemma value_at_prune: "value_at (fst (prune_remove n s)) p = (if p = s then None else value_at n p) \<and>
    (snd (prune_remove n s) \<longleftrightarrow> fst (prune_remove n s) = cid_empty)"
proof (induction n s arbitrary: p rule: prune_remove.induct)
  case (1 v cs)
  then show ?case by (cases p) (auto simp: cid_empty_def)
next
  case (2 v cs b bs)
  show ?case
  proof (cases "map_of cs b")
    case None
    then show ?thesis by (cases p) (auto simp: cid_empty_def Let_def)
  next
    case (Some c)
    obtain c' e where pr: "prune_remove c bs = (c', e)" by fastforce
    have IH: "value_at c' q = (if q = bs then None else value_at c q)" "e \<longleftrightarrow> c' = cid_empty" for q
      using "2.IH" [OF Some, of q] pr by simp_all
    have gone: "value_at c q = None" if "e" "q \<noteq> bs" for q using IH(1) [of q] IH(2) that by simp
    show ?thesis
      using Some pr IH(1) gone
      by (cases p; cases e) (auto simp: cid_empty_def Let_def update_conv' delete_conv' split: option.splits)
  qed
qed

section \<open>Longest prefix\<close>

text \<open>The specification: the longest prefix of the destination id that is in the set.\<close>

definition longest_stored_prefix :: "cid set \<Rightarrow> cid \<Rightarrow> cid option" where
  "longest_stored_prefix S dcid = find (\<lambda>p. p \<in> S) (rev (prefixes dcid))"

lemma find_append: "find P (xs @ ys) = (case find P xs of Some x \<Rightarrow> Some x | None \<Rightarrow> find P ys)"
  by (induction xs) auto

lemma find_map: "find P (map f xs) = map_option f (find (P \<circ> f) xs)"
  by (induction xs) auto

lemma lpm_loop_find:
  "lpm_loop n d best =
     (case find (\<lambda>p. value_at n p \<noteq> None) (rev (prefixes d)) of Some p \<Rightarrow> value_at n p | None \<Rightarrow> best)"
proof (induction n d best rule: lpm_loop.induct)
  case (1 v cs best)
  then show ?case by (auto split: option.splits)
next
  case (2 v cs b bs best)
  show ?case
  proof (cases "map_of cs b")
    case None
    then have "find (\<lambda>p. value_at (CidNode v cs) p \<noteq> None) (map ((#) b) xs) = None" for xs
      by (auto simp: find_None_iff)
    then show ?thesis using None by (auto simp: rev_map find_append Let_def split: option.splits)
  next
    case (Some c)
    then have "(\<lambda>p. value_at (CidNode v cs) p \<noteq> None) \<circ> (#) b = (\<lambda>p. value_at c p \<noteq> None)"
      by (auto simp: fun_eq_iff)
    then have "find (\<lambda>p. value_at (CidNode v cs) p \<noteq> None) (map ((#) b) xs) =
        map_option ((#) b) (find (\<lambda>p. value_at c p \<noteq> None) xs)" for xs
      by (simp add: find_map)
    then show ?thesis
      using "2.IH" [OF refl Some] Some by (auto simp: rev_map find_append Let_def split: option.splits)
  qed
qed

lemma cid_wf_value: "cid_wf path n \<Longrightarrow> value_at n s = Some x \<Longrightarrow> x = path @ s"
proof (induction n s arbitrary: path rule: value_at.induct)
  case (2 v cs b bs)
  then obtain c where c: "map_of cs b = Some c" "value_at c bs = Some x" by (auto split: option.splits)
  then have "cid_wf (path @ [b]) c" using "2.prems"(1) map_of_SomeD [OF c(1)] by (auto simp: list_all_iff)
  from "2.IH" [OF c(1) this c(2)] show ?case by simp
qed auto

lemma longest_prefix_match_spec:
  assumes "cid_wf [] t" and "dcid \<noteq> []"
  shows "longest_prefix_match t dcid = longest_stored_prefix (cids t) dcid"
proof -
  have "find (\<lambda>p. value_at t p \<noteq> None) (rev (prefixes dcid)) = longest_stored_prefix (cids t) dcid"
    by (simp add: longest_stored_prefix_def cids_def)
  moreover have "value_at t p = Some p" if "longest_stored_prefix (cids t) dcid = Some p" for p
    using that cid_wf_value [OF assms(1), of p] by (auto simp: longest_stored_prefix_def find_Some_iff cids_def)
  ultimately show ?thesis
    using assms(2) lpm_loop_find [of t dcid None]
    by (auto simp: longest_prefix_match_def split: option.splits)
qed

section \<open>Well-formedness is kept\<close>

lemma update_set:
  assumes "distinct (map fst al)"
  shows "(b, c) \<in> set (AList.update k v al) \<longleftrightarrow> (if b = k then c = v else (b, c) \<in> set al)"
proof -
  have d: "distinct (map fst (AList.update k v al))" using assms by (rule distinct_update)
  have "(b, c) \<in> set (AList.update k v al) \<longleftrightarrow> map_of (AList.update k v al) b = Some c"
    using d by (meson map_of_SomeD map_of_is_SomeI)
  also have "\<dots> \<longleftrightarrow> (if b = k then c = v else map_of al b = Some c)" by (auto simp: update_conv')
  also have "\<dots> \<longleftrightarrow> (if b = k then c = v else (b, c) \<in> set al)"
    using assms by (auto intro: map_of_SomeD map_of_is_SomeI)
  finally show ?thesis .
qed

lemma insert_at_not_empty: "insert_at s full n \<noteq> cid_empty"
  using value_at_insert [of s full n s] by auto

lemma cid_wf_child: "cid_wf path (CidNode v cs) \<Longrightarrow> map_of cs b = Some c \<Longrightarrow> cid_wf (path @ [b]) c"
  by (auto simp: list_all_iff dest: map_of_SomeD)

lemma cid_wf_update:
  assumes "cid_wf path (CidNode v cs)" and "cid_wf (path @ [b]) c" and "c \<noteq> cid_empty"
  shows "cid_wf path (CidNode v (AList.update b c cs))"
  using assms update_set [of cs] by (auto simp: list_all_iff distinct_update split: if_splits)

lemma cid_wf_empty [simp]: "cid_wf path cid_empty"
  by (simp add: cid_empty_def)

lemma cid_wf_insert: "cid_wf path n \<Longrightarrow> full = path @ s \<Longrightarrow> cid_wf path (insert_at s full n)"
proof (induction s full n arbitrary: path rule: insert_at.induct)
  case (2 b bs full v cs)
  let ?c = "case map_of cs b of Some c \<Rightarrow> c | None \<Rightarrow> cid_empty"
  have "cid_wf (path @ [b]) ?c" using cid_wf_child [OF "2.prems"(1)] by (auto split: option.splits)
  from "2.IH" [OF this] "2.prems"(2) have "cid_wf (path @ [b]) (insert_at bs full ?c)" by simp
  from cid_wf_update [OF "2.prems"(1) this insert_at_not_empty] show ?case by simp
qed simp

lemma cid_wf_prune: "cid_wf path n \<Longrightarrow> cid_wf path (fst (prune_remove n s))"
proof (induction n s arbitrary: path rule: prune_remove.induct)
  case (2 v cs b bs)
  show ?case
  proof (cases "map_of cs b")
    case None
    then show ?thesis using "2.prems" by (simp add: Let_def)
  next
    case (Some c)
    obtain c' e where pr: "prune_remove c bs = (c', e)" by fastforce
    have wf: "cid_wf (path @ [b]) c'" using "2.IH" [OF Some cid_wf_child [OF "2.prems" Some]] pr by simp
    have e: "e \<longleftrightarrow> c' = cid_empty" using value_at_prune [of c bs] pr by simp
    show ?thesis
    proof (cases e)
      case True
      have "cid_wf path (CidNode v (AList.delete b cs))"
        using "2.prems" by (auto simp: list_all_iff AList.delete_eq distinct_map_filter)
      then show ?thesis using Some pr True by (simp add: Let_def)
    next
      case False
      then show ?thesis using Some pr e cid_wf_update [OF "2.prems" wf] by (simp add: Let_def)
    qed
  qed
qed simp

section \<open>Counting\<close>

lemma cids_node:
  assumes "distinct (map fst cs)"
  shows "cids (CidNode v cs) = (if v = None then {} else {[]}) \<union> (\<Union>(b, c) \<in> set cs. (#) b ` cids c)"
proof -
  have "s \<in> cids (CidNode v cs) \<longleftrightarrow> s \<in> (if v = None then {} else {[]}) \<union> (\<Union>(b, c) \<in> set cs. (#) b ` cids c)" for s
  proof (cases s)
    case (Cons b bs)
    have "s \<in> cids (CidNode v cs) \<longleftrightarrow> (\<exists>c. map_of cs b = Some c \<and> bs \<in> cids c)"
      by (auto simp: cids_def Cons split: option.splits)
    also have "\<dots> \<longleftrightarrow> (\<exists>c. (b, c) \<in> set cs \<and> bs \<in> cids c)"
      using assms by (auto intro: map_of_SomeD map_of_is_SomeI)
    finally show ?thesis by (auto simp: Cons)
  qed (auto simp: cids_def)
  then show ?thesis by blast
qed

lemma card_children:
  assumes "distinct (map fst cs)" and "\<And>b c. (b, c) \<in> set cs \<Longrightarrow> finite (cids c) \<and> card (cids c) = f c"
  shows "finite (\<Union>(b, c) \<in> set cs. (#) b ` cids c) \<and>
         card (\<Union>(b, c) \<in> set cs. (#) b ` cids c) = sum_list (map (\<lambda>(b, c). f c) cs)"
  using assms
proof (induction cs)
  case (Cons e cs)
  obtain b c where e: "e = (b, c)" by fastforce
  let ?rest = "\<Union>(b, c) \<in> set cs. (#) b ` cids c"
  have IH: "finite ?rest \<and> card ?rest = sum_list (map (\<lambda>(b, c). f c) cs)"
  proof (rule Cons.IH)
    show "distinct (map fst cs)" using Cons.prems(1) by simp
    show "finite (cids c) \<and> card (cids c) = f c" if "(b, c) \<in> set cs" for b c
      by (rule Cons.prems(2) [of b]) (simp add: that)
  qed
  have c: "finite (cids c)" "card ((#) b ` cids c) = f c"
    using Cons.prems(2) [of b c] e by (simp_all add: card_image)
  have "(#) b ` cids c \<inter> ?rest = {}" using Cons.prems(1) e by force
  then show ?case using IH c by (simp add: e card_Un_disjoint)
qed simp

lemma count_scids_card: "cid_wf path n \<Longrightarrow> finite (cids n) \<and> card (cids n) = count_scids n"
proof (induction n arbitrary: path rule: count_scids.induct)
  case (1 v cs)
  have d: "distinct (map fst cs)" using "1.prems" by simp
  let ?rest = "\<Union>(b, c) \<in> set cs. (#) b ` cids c"
  have "finite (cids c) \<and> card (cids c) = count_scids c" if "(b, c) \<in> set cs" for b c
    using "1.IH" [OF that refl] "1.prems" that by (auto simp: list_all_iff)
  then have "finite ?rest \<and> card ?rest = sum_list (map (\<lambda>(b, c). count_scids c) cs)"
    by (rule card_children [OF d])
  moreover have "[] \<notin> ?rest" by auto
  ultimately show ?case by (simp add: cids_node [OF d])
qed

section \<open>The index contract\<close>

datatype 'k index_op = IndexInsert 'k | IndexRemove 'k | IndexClear

fun index_apply :: "('k \<Rightarrow> 't \<Rightarrow> 't) \<Rightarrow> ('k \<Rightarrow> 't \<Rightarrow> 't) \<Rightarrow> ('t \<Rightarrow> 't) \<Rightarrow> 'k index_op \<Rightarrow> 't \<Rightarrow> 't" where
  "index_apply ins del clr (IndexInsert k) t = ins k t"
| "index_apply ins del clr (IndexRemove k) t = del k t"
| "index_apply ins del clr IndexClear t = clr t"

definition set_apply :: "'k index_op \<Rightarrow> 'k set \<Rightarrow> 'k set" where
  "set_apply = index_apply insert (\<lambda>k S. S - {k}) (\<lambda>S. {})"

text \<open>An index of keys, and the set of keys it stands for.\<close>

locale finite_index =
  fixes init :: 't
    and ins :: "'k \<Rightarrow> 't \<Rightarrow> 't"
    and del :: "'k \<Rightarrow> 't \<Rightarrow> 't"
    and clr :: "'t \<Rightarrow> 't"
    and abs :: "'t \<Rightarrow> 'k set"
    and inv :: "'t \<Rightarrow> bool"
  assumes init_ok: "inv init" "abs init = {}"
    and ins_ok: "inv t \<Longrightarrow> inv (ins k t)" "inv t \<Longrightarrow> abs (ins k t) = insert k (abs t)"
    and del_ok: "inv t \<Longrightarrow> inv (del k t)" "inv t \<Longrightarrow> abs (del k t) = abs t - {k}"
    and clr_ok: "inv (clr t)" "abs (clr t) = {}"
begin

lemma apply_ok:
  "inv t \<Longrightarrow> inv (index_apply ins del clr op t) \<and> abs (index_apply ins del clr op t) = set_apply op (abs t)"
  by (cases op) (simp_all add: set_apply_def ins_ok del_ok clr_ok)

lemma run_ok:
  "inv t \<Longrightarrow> inv (fold (index_apply ins del clr) ops t) \<and>
     abs (fold (index_apply ins del clr) ops t) = fold set_apply ops (abs t)"
  by (induction ops arbitrary: t) (simp_all add: apply_ok)

lemma run_from_init:
  "inv (fold (index_apply ins del clr) ops init) \<and> abs (fold (index_apply ins del clr) ops init) = fold set_apply ops {}"
  using run_ok [OF init_ok(1)] by (simp add: init_ok(2))

end

definition cid_run :: "cid index_op list \<Rightarrow> cid_node" where
  "cid_run ops = fold (index_apply cid_insert cid_remove cid_clear) ops cid_empty"

interpretation cix: finite_index cid_empty cid_insert cid_remove cid_clear cids "cid_wf []"
proof
  show "cids cid_empty = {}" and "\<And>t. cids (cid_clear t) = {}" by (simp_all add: cids_def cid_clear_def)
  show "cids (cid_insert k t) = insert k (cids t)" for k t
    by (auto simp: cids_def cid_insert_def value_at_insert)
  show "cids (cid_remove k t) = cids t - {k}" for k t
    using value_at_prune [of t k] by (auto simp: cids_def cid_remove_def split: if_splits)
qed (simp_all add: cid_insert_def cid_remove_def cid_clear_def cid_wf_insert cid_wf_prune)

text \<open>
  C33. After any sequence of insertions, removals and clears the trie answers a non-empty destination
  id with the longest of its prefixes among the ids that are then registered, and with nothing if no
  prefix is registered; an empty destination id is never matched.
\<close>

theorem cid_longest_prefix_refines:
  "longest_prefix_match (cid_run ops) dcid =
     (if dcid = [] then None else longest_stored_prefix (fold set_apply ops {}) dcid)"
  using cix.run_from_init [of ops] longest_prefix_match_spec [of "cid_run ops" dcid]
  by (auto simp: cid_run_def longest_prefix_match_def)

text \<open>
  C34. Removal leaves no dead nodes: after any sequence of operations every node below the root
  carries a value or has children, every stored id is the path to its node, \<open>count_scids\<close> is the number
  of registered ids, and a trie without registered ids is the empty trie.
\<close>

theorem cid_trie_pruned:
  "cid_wf [] (cid_run ops) \<and> count_scids (cid_run ops) = card (fold set_apply ops {}) \<and>
   (cid_is_empty (cid_run ops) \<longleftrightarrow> cid_run ops = cid_empty)"
proof -
  have wf: "cid_wf [] (cid_run ops)" and abs: "cids (cid_run ops) = fold set_apply ops {}"
    using cix.run_from_init [of ops] by (simp_all add: cid_run_def)
  have cnt: "finite (cids (cid_run ops)) \<and> card (cids (cid_run ops)) = count_scids (cid_run ops)"
    by (rule count_scids_card [OF wf])
  have "n = cid_empty" if "cid_wf path n" "cids n = {}" for path n
    using that
  proof (induction n arbitrary: path rule: count_scids.induct)
    case (1 v cs)
    have d: "distinct (map fst cs)" using "1.prems"(1) by simp
    have none: "v = None" "\<And>b c. (b, c) \<in> set cs \<Longrightarrow> cids c = {}"
      using "1.prems"(2) unfolding cids_node [OF d] by (auto split: if_splits)
    have "cs = []"
    proof (rule ccontr)
      assume "cs \<noteq> []"
      then obtain b c where bc: "(b, c) \<in> set cs" by (cases cs) auto
      then have "cid_wf (path @ [b]) c" "c \<noteq> cid_empty" using "1.prems"(1) by (auto simp: list_all_iff)
      with "1.IH" [OF bc refl _ none(2) [OF bc]] show False by blast
    qed
    with none(1) show ?case by (simp add: cid_empty_def)
  qed
  then have "cids (cid_run ops) = {} \<longleftrightarrow> cid_run ops = cid_empty" using wf by (auto simp: cids_def)
  then show ?thesis using wf abs cnt by (auto simp: cid_is_empty_def)
qed

end
