(* ===== verification/Rust_Strings.thy ===== *)
theory Rust_Strings
  imports Impulse_Prelude
begin

text \<open>
  The operations of \<open>str\<close> that the sources use.  A string is the list of its bytes.  \<open>trim\<close> and the
  case conversions are those of ASCII: a Unicode letter or space outside ASCII is left alone,
  which is what the \<open>_ascii_\<close> operations of Rust do for every string and what \<open>trim\<close> and
  \<open>to_lowercase\<close> do for ASCII strings.
\<close>

section \<open>Characters\<close>

definition char_code :: "char \<Rightarrow> nat" where
  "char_code c = of_char c"

definition is_whitespace :: "char \<Rightarrow> bool" where
  "is_whitespace c \<longleftrightarrow> char_code c = 32 \<or> (9 \<le> char_code c \<and> char_code c \<le> 13)"

definition ascii_lower :: "char \<Rightarrow> char" where
  "ascii_lower c = (if 65 \<le> char_code c \<and> char_code c \<le> 90 then char_of (char_code c + 32) else c)"

definition ascii_upper :: "char \<Rightarrow> char" where
  "ascii_upper c = (if 97 \<le> char_code c \<and> char_code c \<le> 122 then char_of (char_code c - 32) else c)"

lemma char_code_of [simp]: "n < 256 \<Longrightarrow> char_code (char_of n) = n"
  by (simp add: char_code_def)

lemma char_code_inj: "char_code c = char_code d \<Longrightarrow> c = d"
  by (simp add: char_code_def)

lemma ascii_lower_code:
  "char_code (ascii_lower c) =
     (if 65 \<le> char_code c \<and> char_code c \<le> 90 then char_code c + 32 else char_code c)"
  by (simp add: ascii_lower_def)

lemma ascii_upper_code:
  "char_code (ascii_upper c) =
     (if 97 \<le> char_code c \<and> char_code c \<le> 122 then char_code c - 32 else char_code c)"
  by (auto simp: ascii_upper_def intro!: char_code_of)

lemma ascii_lower_idem [simp]: "ascii_lower (ascii_lower c) = ascii_lower c"
  by (rule char_code_inj) (simp add: ascii_lower_code)

lemma ascii_lower_upper [simp]: "ascii_lower (ascii_upper c) = ascii_lower c"
  by (rule char_code_inj) (auto simp: ascii_lower_code ascii_upper_code)

lemma ascii_upper_lower [simp]: "ascii_upper (ascii_lower c) = ascii_upper c"
  by (rule char_code_inj) (auto simp: ascii_lower_code ascii_upper_code)

lemma ascii_lower_dot [simp]: "ascii_lower c = CHR ''.'' \<longleftrightarrow> c = CHR ''.''"
proof -
  have "char_code (ascii_lower c) = 46 \<longleftrightarrow> char_code c = 46" by (auto simp: ascii_lower_code)
  moreover have "char_code CHR ''.'' = 46" by (simp add: char_code_def)
  ultimately show ?thesis by (metis char_code_inj)
qed

lemma ascii_lower_fixed:
  assumes "\<not> (65 \<le> char_code d \<and> char_code d \<le> 90)" and "\<not> (97 \<le> char_code d \<and> char_code d \<le> 122)"
  shows "ascii_lower c = d \<longleftrightarrow> c = d"
proof -
  have "char_code (ascii_lower c) = char_code d \<longleftrightarrow> char_code c = char_code d"
    using assms by (auto simp: ascii_lower_code)
  then show ?thesis by (metis char_code_inj)
qed

lemma ascii_lower_punct [simp]:
  "ascii_lower c = CHR ''['' \<longleftrightarrow> c = CHR ''[''" "ascii_lower c = CHR '']'' \<longleftrightarrow> c = CHR '']''"
  "ascii_lower c = CHR '':'' \<longleftrightarrow> c = CHR '':''"
  by (rule ascii_lower_fixed; simp add: char_code_def)+

lemma ascii_lower_whitespace [simp]: "is_whitespace (ascii_lower c) \<longleftrightarrow> is_whitespace c"
  by (auto simp: is_whitespace_def ascii_lower_code)

section \<open>Strings\<close>

definition trim_start :: "string \<Rightarrow> string" where
  "trim_start s = dropWhile is_whitespace s"

definition trim :: "string \<Rightarrow> string" where
  "trim s = rev (trim_start (rev (trim_start s)))"

definition to_ascii_lowercase :: "string \<Rightarrow> string" where
  "to_ascii_lowercase s = map ascii_lower s"

definition to_ascii_uppercase :: "string \<Rightarrow> string" where
  "to_ascii_uppercase s = map ascii_upper s"

definition eq_ignore_ascii_case :: "string \<Rightarrow> string \<Rightarrow> bool" where
  "eq_ignore_ascii_case s t \<longleftrightarrow> to_ascii_lowercase s = to_ascii_lowercase t"

text \<open>\<open>split_once\<close> at a character, and the position of the first and of the last occurrence.\<close>

fun find_char :: "char \<Rightarrow> string \<Rightarrow> nat option" where
  "find_char c [] = None"
| "find_char c (d # ds) = (if d = c then Some 0 else map_option Suc (find_char c ds))"

definition split_once :: "char \<Rightarrow> string \<Rightarrow> (string \<times> string) option" where
  "split_once c s = map_option (\<lambda>i. (take i s, drop (Suc i) s)) (find_char c s)"

definition strip_prefix :: "string \<Rightarrow> string \<Rightarrow> string option" where
  "strip_prefix p s = (if prefix p s then Some (drop (length p) s) else None)"

text \<open>\<open>normalize_optional_string\<close> of \<open>config/src/runtime/policies/mod.rs\<close>, shared by the policies:
  a blank string counts as absent.\<close>

definition normalize_optional_string :: "string option \<Rightarrow> string option" where
  "normalize_optional_string v =
     (case v of None \<Rightarrow> None | Some s \<Rightarrow> if trim s = [] then None else Some (trim s))"

text \<open>The rules that evaluate these operations on literals.\<close>

named_theorems str_eval \<open>evaluation of string operations on literals\<close>

lemmas [str_eval] = char_code_def is_whitespace_def ascii_lower_def ascii_upper_def trim_start_def trim_def
  to_ascii_lowercase_def to_ascii_uppercase_def eq_ignore_ascii_case_def split_once_def strip_prefix_def

lemma to_ascii_lowercase_idem [simp]: "to_ascii_lowercase (to_ascii_lowercase s) = to_ascii_lowercase s"
  by (simp add: to_ascii_lowercase_def)

lemma eq_ignore_ascii_case_refl [simp]: "eq_ignore_ascii_case s s"
  by (simp add: eq_ignore_ascii_case_def)

lemma eq_ignore_ascii_case_upper [simp]:
  "eq_ignore_ascii_case (to_ascii_uppercase s) t = eq_ignore_ascii_case s t"
  by (simp add: eq_ignore_ascii_case_def to_ascii_lowercase_def to_ascii_uppercase_def o_def)

lemma find_char_Some:
  "find_char c s = Some i \<Longrightarrow> i < length s \<and> s ! i = c \<and> (\<forall>j < i. s ! j \<noteq> c)"
proof (induction s arbitrary: i)
  case (Cons d ds)
  show ?case
  proof (cases "d = c")
    case True
    then show ?thesis using Cons.prems by simp
  next
    case False
    then obtain k where k: "find_char c ds = Some k" "i = Suc k" using Cons.prems by auto
    have "\<forall>j < i. (d # ds) ! j \<noteq> c"
      using Cons.IH [OF k(1)] False k(2) by (auto simp: nth_Cons split: nat.splits)
    then show ?thesis using Cons.IH [OF k(1)] k(2) by simp
  qed
qed simp

lemma find_char_None: "find_char c s = None \<longleftrightarrow> c \<notin> set s"
  by (induction s) auto

lemma find_char_split:
  assumes "find_char c s = Some i"
  shows "s = take i s @ c # drop (Suc i) s" and "c \<notin> set (take i s)"
  using find_char_Some [OF assms] by (auto simp: id_take_nth_drop in_set_conv_nth)

section \<open>Splitting from the end\<close>

definition rsplit_once :: "char \<Rightarrow> string \<Rightarrow> (string \<times> string) option" where
  "rsplit_once c s = map_option (\<lambda>i. (rev (drop (Suc i) (rev s)), rev (take i (rev s)))) (find_char c (rev s))"

definition trim_end_matches :: "char \<Rightarrow> string \<Rightarrow> string" where
  "trim_end_matches c s = rev (dropWhile (\<lambda>d. d = c) (rev s))"

definition starts_with :: "string \<Rightarrow> string \<Rightarrow> bool" where
  "starts_with p s \<longleftrightarrow> prefix p s"

lemma rsplit_once_Some:
  assumes "rsplit_once c s = Some (a, b)"
  shows "s = a @ c # b" and "c \<notin> set b"
proof -
  obtain i where i: "find_char c (rev s) = Some i" and ab: "a = rev (drop (Suc i) (rev s))" "b = rev (take i (rev s))"
    using assms by (auto simp: rsplit_once_def)
  have "rev s = rev b @ c # rev a" using find_char_split(1) [OF i] ab by simp
  then have "rev (rev s) = rev (rev b @ c # rev a)" by (rule arg_cong)
  then show "s = a @ c # b" by simp
  show "c \<notin> set b" using find_char_split(2) [OF i] ab(2) by simp
qed

lemma find_char_first: "c \<notin> set a \<Longrightarrow> find_char c (a @ c # b) = Some (length a)"
  by (induction a) auto

lemma rsplit_once_last: "c \<notin> set b \<Longrightarrow> rsplit_once c (a @ c # b) = Some (a, b)"
  using find_char_first [of c "rev b" "rev a"] by (simp add: rsplit_once_def)

lemma trim_end_matches_set: "set (trim_end_matches c s) \<subseteq> set s"
  unfolding trim_end_matches_def by (auto dest: set_dropWhileD)

lemma dropWhile_twice [simp]: "dropWhile P (dropWhile P xs) = dropWhile P xs"
  by (induction xs) auto

lemma trim_end_matches_idem: "trim_end_matches c (trim_end_matches c s) = trim_end_matches c s"
  by (simp add: trim_end_matches_def)

lemma trim_idle:
  assumes "\<forall>c \<in> set s. \<not> is_whitespace c"
  shows "trim s = s"
proof -
  have "dropWhile is_whitespace t = t" if "set t \<subseteq> set s" for t
    using that assms by (cases t) auto
  then show ?thesis by (simp add: trim_def trim_start_def)
qed

lemma trim_end_matches_prefix: "prefix (trim_end_matches c s) s"
  unfolding trim_end_matches_def
  by (metis prefixI rev_append rev_rev_ident takeWhile_dropWhile_id)

lemma set_lowercase_iff:
  assumes "\<And>d. ascii_lower d = c \<longleftrightarrow> d = c"
  shows "c \<in> set (to_ascii_lowercase s) \<longleftrightarrow> c \<in> set s"
proof -
  have "c \<in> ascii_lower ` set s \<longleftrightarrow> (\<exists>d \<in> set s. ascii_lower d = c)" by blast
  then show ?thesis using assms by (simp add: to_ascii_lowercase_def)
qed

lemma set_trim: "set (trim s) \<subseteq> set s"
  unfolding trim_def trim_start_def by (auto dest!: set_dropWhileD)

lemma dropWhile_prefix: "prefix v (dropWhile P s) \<Longrightarrow> dropWhile P v = v"
  by (cases v) (auto simp: prefix_def dropWhile_eq_Cons_conv)

lemma trim_idem [simp]: "trim (trim s) = trim s"
proof -
  let ?u = "dropWhile is_whitespace s"
  let ?v = "rev (dropWhile is_whitespace (rev ?u))"
  have "prefix ?v ?u" by (metis prefixI rev_append rev_rev_ident takeWhile_dropWhile_id)
  then have "dropWhile is_whitespace ?v = ?v" by (rule dropWhile_prefix)
  then show ?thesis by (simp add: trim_def trim_start_def)
qed

section \<open>Decimal numbers\<close>

definition digit_char :: "nat \<Rightarrow> char" where
  "digit_char d = char_of (48 + d)"

definition is_digit :: "char \<Rightarrow> bool" where
  "is_digit c \<longleftrightarrow> 48 \<le> char_code c \<and> char_code c \<le> 57"

text \<open>\<open>Display\<close> of an unsigned integer.\<close>

fun dec_string :: "nat \<Rightarrow> string" where
  "dec_string n = (if n < 10 then [digit_char n] else dec_string (n div 10) @ [digit_char (n mod 10)])"

declare dec_string.simps [simp del]

definition dec_value :: "string \<Rightarrow> nat" where
  "dec_value = foldl (\<lambda>acc c. 10 * acc + (char_code c - 48)) 0"

text \<open>\<open>str::parse\<close> at an unsigned type with values below \<open>bound\<close>: an optional plus sign, then at
  least one digit and nothing else.\<close>

definition parse_unsigned :: "nat \<Rightarrow> string \<Rightarrow> nat option" where
  "parse_unsigned bound s =
     (let ds = (case s of c # cs \<Rightarrow> if c = CHR ''+'' then cs else s | [] \<Rightarrow> []) in
      if ds \<noteq> [] \<and> list_all is_digit ds \<and> dec_value ds < bound then Some (dec_value ds) else None)"

lemma digit_char_code: "d < 10 \<Longrightarrow> char_code (digit_char d) = 48 + d"
  by (simp add: digit_char_def)

lemma dec_value_snoc: "dec_value (ds @ [c]) = 10 * dec_value ds + (char_code c - 48)"
  by (simp add: dec_value_def)

lemma dec_string_digits: "list_all is_digit (dec_string n) \<and> dec_string n \<noteq> [] \<and> dec_value (dec_string n) = n"
proof (induction n rule: dec_string.induct)
  case (1 n)
  show ?case
  proof (cases "n < 10")
    case True
    then show ?thesis
      by (simp add: dec_string.simps [of n] is_digit_def digit_char_code dec_value_def)
  next
    case False
    then have "n = 10 * (n div 10) + n mod 10" by simp
    then show ?thesis
      using False 1 by (simp add: dec_string.simps [of n] is_digit_def digit_char_code dec_value_snoc)
  qed
qed

lemma not_digit_plus [simp]: "\<not> is_digit CHR ''+''"
  by (simp add: is_digit_def char_code_def)

lemma parse_dec_string: "n < bound \<Longrightarrow> parse_unsigned bound (dec_string n) = Some n"
  using dec_string_digits [of n]
  by (auto simp: parse_unsigned_def Let_def split: list.splits)

lemma parse_unsigned_bound: "parse_unsigned bound s = Some n \<Longrightarrow> n < bound"
  by (auto simp: parse_unsigned_def Let_def split: if_splits)

lemma digit_plain: "is_digit c \<Longrightarrow> \<not> is_whitespace c \<and> c \<noteq> CHR '':'' \<and> c \<noteq> CHR '']''"
  by (auto simp: is_digit_def is_whitespace_def char_code_def)

lemma dec_string_no_colon: "CHR '':'' \<notin> set (dec_string p)"
  using dec_string_digits [of p] digit_plain by (auto simp: list_all_iff)

lemma dec_string_no_space: "\<forall>c \<in> set (dec_string p). \<not> is_whitespace c"
  using dec_string_digits [of p] digit_plain by (auto simp: list_all_iff)

end
