(* ===== verification/Resilience_Config.thy ===== *)
theory Resilience_Config
  imports Rust_Strings
begin

text \<open>
  The resilience section of the configuration and its normalisation into runtime policies
  (\<open>config/src/config/resilience.rs\<close>, \<open>config/src/runtime/policies/admission.rs\<close>,
  \<open>policies/resilience.rs\<close>, \<open>policies/watchdog.rs\<close>, \<open>policy_helpers.rs\<close>).  A Rust \<open>HashMap\<close> of the
  configuration is an association list.  Normalisation is a sequence of checks, of which the first
  that fails gives the error, and then the policy; \<open>first_error\<close> runs such a sequence.
\<close>

section \<open>The configuration\<close>

record adaptive_admission_config =
  aac_enabled :: bool
  aac_min_limit :: usize
  aac_max_limit :: "usize option"
  aac_decrease_step :: usize
  aac_increase_step :: usize
  aac_high_latency_ms :: u64

record route_queue_config =
  rqc_default_cap :: usize
  rqc_global_cap :: usize
  rqc_shed_retry_after_seconds :: u32
  rqc_caps :: "(string \<times> usize) list"

datatype scoped_rate_limit_scope = ScopeRoute | ScopeClient | ScopeTenant | ScopeToken

record scoped_rate_limit_config =
  srl_name :: string
  srl_scope :: scoped_rate_limit_scope
  srl_requests_per_sec :: u32
  srl_burst :: u32
  srl_key :: "string option"
  srl_route_allowlist :: "string list"
  srl_idle_ttl_secs :: u64

record protocol_policy =
  allow_0rtt :: bool
  allow_connect :: bool
  early_data_safe_methods :: "string list"
  max_headers_count :: usize
  max_headers_bytes :: usize
  enforce_authority_host_match :: bool
  allowed_methods :: "string list"
  denied_path_prefixes :: "string list"
  connect_allowed_ports :: "u16 list"
  connect_allowed_authorities :: "string list"

record circuit_breaker_config =
  cbc_enabled :: bool
  cbc_failure_threshold :: u32
  cbc_open_ms :: u64
  cbc_half_open_max_probes :: u32

record hedging_config =
  hgc_enabled :: bool
  hgc_delay_ms :: u64
  hgc_safe_methods :: "string list"
  hgc_route_allowlist :: "string list"

record retry_budget_config =
  rbc_enabled :: bool
  rbc_ratio_percent :: u8
  rbc_per_route_ratio_percent :: "(string \<times> u8) list"

record brownout_config =
  boc_enabled :: bool
  boc_trigger_inflight_percent :: u8
  boc_recover_inflight_percent :: u8
  boc_core_routes :: "string list"

record watchdog_config =
  wdc_enabled :: bool
  wdc_check_interval_ms :: u64
  wdc_poll_stall_timeout_ms :: u64
  wdc_timeout_error_rate_percent :: u8
  wdc_min_requests_per_window :: u64
  wdc_overload_inflight_percent :: u8
  wdc_unhealthy_consecutive_windows :: u32
  wdc_drain_grace_ms :: u64
  wdc_restart_cooldown_ms :: u64
  wdc_restart_command :: "string list"
  wdc_restart_hook :: "string option"

text \<open>The quota section is not part of this model.\<close>

record resilience_config =
  rc_adaptive_admission :: adaptive_admission_config
  rc_route_queue :: route_queue_config
  rc_scoped_rate_limits :: "scoped_rate_limit_config list"
  rc_protocol :: protocol_policy
  rc_circuit_breaker :: circuit_breaker_config
  rc_hedging :: hedging_config
  rc_retry_budget :: retry_budget_config
  rc_brownout :: brownout_config
  rc_watchdog :: watchdog_config

text \<open>The \<open>Default\<close> implementations.\<close>

definition adaptive_admission_default :: adaptive_admission_config where
  "adaptive_admission_default = \<lparr>aac_enabled = True, aac_min_limit = 64, aac_max_limit = None,
     aac_decrease_step = 16, aac_increase_step = 16, aac_high_latency_ms = 500\<rparr>"

definition route_queue_default :: route_queue_config where
  "route_queue_default = \<lparr>rqc_default_cap = 512, rqc_global_cap = 2048, rqc_shed_retry_after_seconds = 1,
     rqc_caps = []\<rparr>"

definition protocol_policy_default :: protocol_policy where
  "protocol_policy_default = \<lparr>allow_0rtt = False, allow_connect = False,
     early_data_safe_methods = [''GET'', ''HEAD''], max_headers_count = 128, max_headers_bytes = 16384,
     enforce_authority_host_match = True, allowed_methods = [], denied_path_prefixes = [],
     connect_allowed_ports = [], connect_allowed_authorities = []\<rparr>"

definition circuit_breaker_default :: circuit_breaker_config where
  "circuit_breaker_default = \<lparr>cbc_enabled = True, cbc_failure_threshold = 3, cbc_open_ms = 30000,
     cbc_half_open_max_probes = 1\<rparr>"

definition hedging_default :: hedging_config where
  "hedging_default = \<lparr>hgc_enabled = False, hgc_delay_ms = 100, hgc_safe_methods = [''GET'', ''HEAD''],
     hgc_route_allowlist = []\<rparr>"

definition retry_budget_default :: retry_budget_config where
  "retry_budget_default = \<lparr>rbc_enabled = True, rbc_ratio_percent = 10, rbc_per_route_ratio_percent = []\<rparr>"

definition brownout_default :: brownout_config where
  "brownout_default = \<lparr>boc_enabled = True, boc_trigger_inflight_percent = 90,
     boc_recover_inflight_percent = 60, boc_core_routes = []\<rparr>"

definition watchdog_default :: watchdog_config where
  "watchdog_default = \<lparr>wdc_enabled = False, wdc_check_interval_ms = 1000, wdc_poll_stall_timeout_ms = 5000,
     wdc_timeout_error_rate_percent = 60, wdc_min_requests_per_window = 20, wdc_overload_inflight_percent = 95,
     wdc_unhealthy_consecutive_windows = 3, wdc_drain_grace_ms = 8000, wdc_restart_cooldown_ms = 120000,
     wdc_restart_command = [], wdc_restart_hook = None\<rparr>"

definition resilience_default :: resilience_config where
  "resilience_default = \<lparr>rc_adaptive_admission = adaptive_admission_default, rc_route_queue = route_queue_default,
     rc_scoped_rate_limits = [], rc_protocol = protocol_policy_default, rc_circuit_breaker = circuit_breaker_default,
     rc_hedging = hedging_default, rc_retry_budget = retry_budget_default, rc_brownout = brownout_default,
     rc_watchdog = watchdog_default\<rparr>"

section \<open>Errors and checks\<close>

datatype runtime_config_error =
    ConfigInvalid string
  | TlsMaterialInvalid string
  | SecretResolutionFailed string
  | BackendAddressInvalid (bai_upstream: string) (bai_backend: string) (bai_address: string) (bai_reason: string)
  | DuplicateRouteAmbiguity (dra_upstream: string) (dra_existing_upstream: string) (dra_host: "string option")
      (dra_path_prefix: "string option") (dra_method: "string option")
  | ListenerBindConflict (lbc_current: string) (lbc_existing: string) (lbc_address: string) (lbc_port: u16)
  | UnsupportedPolicyCombination string

definition first_error :: "(bool \<times> 'e) list \<Rightarrow> 'e option" where
  "first_error cs = map_option snd (find fst cs)"

definition require_nonzero :: "string \<Rightarrow> 'a::len word \<Rightarrow> bool \<times> runtime_config_error" where
  "require_nonzero name v = (v = 0, ConfigInvalid (name @ '' must be greater than 0''))"

definition normalize_string_vec :: "string list \<Rightarrow> string list" where
  "normalize_string_vec vs = filter (\<lambda>v. v \<noteq> []) (map trim vs)"

text \<open>\<open>normalize_nonempty_string_vec\<close> fails when trimming and dropping blanks shortens the list.\<close>

definition nonempty_strings :: "string \<Rightarrow> string list \<Rightarrow> bool \<times> runtime_config_error" where
  "nonempty_strings name vs =
     (length (normalize_string_vec vs) \<noteq> length vs, ConfigInvalid (name @ '' must not contain empty values''))"

lemma first_error_None: "first_error cs = None \<longleftrightarrow> list_all (\<lambda>c. \<not> fst c) cs"
  by (auto simp: first_error_def find_None_iff list_all_iff)

definition is_valid_http_token :: "string \<Rightarrow> bool" where
  "is_valid_http_token v \<longleftrightarrow> v \<noteq> [] \<and>
     list_all (\<lambda>c. let b = char_code c in
       (48 \<le> b \<and> b \<le> 57) \<or> (97 \<le> b \<and> b \<le> 122) \<or> (65 \<le> b \<and> b \<le> 90) \<or>
       c \<in> set (''!#$%&'' @ [char_of (39 :: nat)] @ ''*+-.^_'' @ [char_of (96 :: nat)] @ ''|~'')) v"

definition early_data_methods_are_safe :: "string list \<Rightarrow> bool" where
  "early_data_methods_are_safe ms \<longleftrightarrow>
     ms \<noteq> [] \<and> list_all (\<lambda>m. to_ascii_uppercase (trim m) = ''GET'' \<or> to_ascii_uppercase (trim m) = ''HEAD'') ms"

text \<open>The check of \<open>policies/admission.rs\<close>, and the one of the validator.\<close>

definition port_ok :: "string \<Rightarrow> bool" where
  "port_ok s = (case parse_unsigned 65536 s of Some p \<Rightarrow> 0 < p | None \<Rightarrow> False)"

definition policy_connect_authority_ok :: "string \<Rightarrow> bool" where
  "policy_connect_authority_ok authority =
     (case rsplit_once CHR '':'' authority of
        None \<Rightarrow> False
      | Some (host, port) \<Rightarrow> trim host \<noteq> [] \<and> port_ok port)"

definition validator_connect_authority_ok :: "string \<Rightarrow> bool" where
  "validator_connect_authority_ok v =
     (let t = trim v in
      if t = [] \<or> list_ex is_whitespace t then False
      else case strip_prefix ''['' t of
        Some rest \<Rightarrow>
          (case find_char CHR '']'' rest of
             None \<Rightarrow> False
           | Some e \<Rightarrow>
               let host = take e rest; suffix = drop (Suc e) rest in
               if host = [] then False
               else if \<not> starts_with '':'' suffix \<or> length suffix \<le> 1 then False
               else port_ok (drop 1 suffix))
      | None \<Rightarrow>
          (case rsplit_once CHR '':'' t of
             None \<Rightarrow> False
           | Some (host, port) \<Rightarrow>
               if host = [] \<or> CHR '':'' \<in> set host then False else port_ok port))"

section \<open>Scoped rate limits\<close>

definition is_valid_request_key_spec :: "string \<Rightarrow> bool" where
  "is_valid_request_key_spec raw =
     (let spec = to_ascii_lowercase (trim raw) in
      spec \<in> set [''path'', ''authority'', ''method'', ''cid'', ''sticky-cid'', ''peer_ip'', ''client_ip'', ''bearer_token''] \<or>
      (case split_once CHR '':'' spec of
         None \<Rightarrow> False
       | Some (source, key_name) \<Rightarrow>
           trim key_name \<noteq> [] \<and> trim source \<in> set [''header'', ''cookie'', ''query'']))"

record scoped_rate_limit_policy =
  srp_name :: string
  srp_scope :: scoped_rate_limit_scope
  srp_requests_per_sec :: u32
  srp_burst :: u32
  srp_key :: "string option"
  srp_route_allowlist :: "string list"
  srp_idle_ttl :: duration

definition scoped_error :: "string \<Rightarrow> string \<Rightarrow> runtime_config_error" where
  "scoped_error name msg =
     ConfigInvalid (''resilience.scoped_rate_limits['' @ [char_of (39 :: nat)] @ name @ [char_of (39 :: nat)] @ '']'' @ msg)"

definition scoped_rate_limit_normalize ::
  "scoped_rate_limit_config \<Rightarrow> runtime_config_error + scoped_rate_limit_policy" where
  "scoped_rate_limit_normalize rule =
     (let name = trim (srl_name rule);
          routes = normalize_string_vec (srl_route_allowlist rule);
          key = normalize_optional_string (srl_key rule);
          bad_key = (case key of None \<Rightarrow> False | Some k \<Rightarrow> \<not> is_valid_request_key_spec k);
          unsupported = scoped_error name ''.key must be a supported request key spec''
      in case first_error
        ([(name = [], ConfigInvalid ''resilience.scoped_rate_limits[].name must be non-empty''),
          (srl_requests_per_sec rule = 0, scoped_error name ''.requests_per_sec must be greater than 0''),
          (srl_burst rule = 0, scoped_error name ''.burst must be greater than 0''),
          (srl_idle_ttl_secs rule = 0, scoped_error name ''.idle_ttl_secs must be greater than 0''),
          (length routes \<noteq> length (srl_route_allowlist rule),
             scoped_error name ''.route_allowlist must not contain empty values'')] @
         (case srl_scope rule of
            ScopeRoute \<Rightarrow> [(key \<noteq> None, scoped_error name ''.key is invalid for scope=route'')]
          | ScopeTenant \<Rightarrow> [(key = None, scoped_error name ''.key is required for scope=tenant''), (bad_key, unsupported)]
          | ScopeClient \<Rightarrow> [(bad_key, unsupported)]
          | ScopeToken \<Rightarrow> [(bad_key, unsupported)])) of
        Some e \<Rightarrow> Inl e
      | None \<Rightarrow> Inr \<lparr>srp_name = srl_name rule, srp_scope = srl_scope rule,
          srp_requests_per_sec = srl_requests_per_sec rule, srp_burst = srl_burst rule, srp_key = key,
          srp_route_allowlist = routes, srp_idle_ttl = from_secs (unat (srl_idle_ttl_secs rule))\<rparr>)"

text \<open>The loop over the rules, with the names seen so far.\<close>

fun scoped_limits_normalize ::
  "string set \<Rightarrow> scoped_rate_limit_config list \<Rightarrow> runtime_config_error + scoped_rate_limit_policy list" where
  "scoped_limits_normalize seen [] = Inr []"
| "scoped_limits_normalize seen (rule # rules) =
     (case scoped_rate_limit_normalize rule of
        Inl e \<Rightarrow> Inl e
      | Inr pol \<Rightarrow>
          if srp_name pol \<in> seen
          then Inl (ConfigInvalid (''resilience.scoped_rate_limits contains duplicate rule name '' @
                 [char_of (39 :: nat)] @ srp_name pol @ [char_of (39 :: nat)]))
          else case scoped_limits_normalize (insert (srp_name pol) seen) rules of
            Inl e \<Rightarrow> Inl e
          | Inr ps \<Rightarrow> Inr (pol # ps))"

section \<open>Admission policies\<close>

record adaptive_admission_policy =
  aap_enabled :: bool
  aap_min_limit :: usize
  aap_max_limit :: usize
  aap_decrease_step :: usize
  aap_increase_step :: usize
  aap_high_latency :: duration

record route_queue_policy =
  rqp_default_cap :: usize
  rqp_global_cap :: usize
  rqp_shed_retry_after_seconds :: u32
  rqp_caps :: "(string \<times> usize) list"

record circuit_breaker_policy =
  cbp_enabled :: bool
  cbp_failure_threshold :: u32
  cbp_open :: duration
  cbp_half_open_max_probes :: u32

record hedging_policy =
  hgp_enabled :: bool
  hgp_delay :: duration
  hgp_safe_methods :: "string list"
  hgp_route_allowlist :: "string list"

record retry_budget_policy =
  rbp_enabled :: bool
  rbp_ratio_percent :: u8
  rbp_per_route_ratio_percent :: "(string \<times> u8) list"

record brownout_policy =
  bop_enabled :: bool
  bop_trigger_inflight_percent :: u8
  bop_recover_inflight_percent :: u8
  bop_core_routes :: "string list"

record watchdog_policy =
  wdp_enabled :: bool
  wdp_check_interval :: duration
  wdp_poll_stall_timeout :: duration
  wdp_timeout_error_rate_percent :: u8
  wdp_min_requests_per_window :: u64
  wdp_overload_inflight_percent :: u8
  wdp_unhealthy_consecutive_windows :: u32
  wdp_drain_grace :: duration
  wdp_restart_cooldown :: duration
  wdp_restart_command :: "string list"

record admission_policy =
  ap_adaptive_admission :: adaptive_admission_policy
  ap_route_queue :: route_queue_policy
  ap_circuit_breaker :: circuit_breaker_policy
  ap_hedging :: hedging_policy
  ap_retry_budget :: retry_budget_policy
  ap_brownout :: brownout_policy
  ap_watchdog :: watchdog_policy
  ap_protocol :: protocol_policy

definition normalize_circuit_breaker_policy :: "resilience_config \<Rightarrow> runtime_config_error + circuit_breaker_policy" where
  "normalize_circuit_breaker_policy r =
     (let c = rc_circuit_breaker r in
      case first_error
        [require_nonzero ''resilience.circuit_breaker.failure_threshold'' (cbc_failure_threshold c),
         require_nonzero ''resilience.circuit_breaker.open_ms'' (cbc_open_ms c),
         require_nonzero ''resilience.circuit_breaker.half_open_max_probes'' (cbc_half_open_max_probes c)] of
        Some e \<Rightarrow> Inl e
      | None \<Rightarrow> Inr \<lparr>cbp_enabled = cbc_enabled c, cbp_failure_threshold = cbc_failure_threshold c,
          cbp_open = from_millis (max (cbc_open_ms c) 1), cbp_half_open_max_probes = cbc_half_open_max_probes c\<rparr>)"

definition normalize_hedging_policy ::
  "resilience_config \<Rightarrow> string list \<Rightarrow> string list \<Rightarrow> runtime_config_error + hedging_policy" where
  "normalize_hedging_policy r safe routes =
     (let h = rc_hedging r in
      if hgc_enabled h \<and> hgc_delay_ms h = 0
      then Inl (ConfigInvalid ''resilience.hedging: delay_ms must be > 0 when hedging is enabled'')
      else Inr \<lparr>hgp_enabled = hgc_enabled h, hgp_delay = from_millis (hgc_delay_ms h),
                hgp_safe_methods = safe, hgp_route_allowlist = routes\<rparr>)"

definition normalize_retry_budget_policy :: "resilience_config \<Rightarrow> runtime_config_error + retry_budget_policy" where
  "normalize_retry_budget_policy r =
     (let b = rc_retry_budget r in
      case first_error
        [(100 < rbc_ratio_percent b, ConfigInvalid ''resilience.retry_budget.ratio_percent must be <= 100''),
         (list_ex (\<lambda>(k, q). 100 < q) (rbc_per_route_ratio_percent b),
            ConfigInvalid ''resilience.retry_budget.per_route_ratio_percent values must be <= 100'')] of
        Some e \<Rightarrow> Inl e
      | None \<Rightarrow> Inr \<lparr>rbp_enabled = rbc_enabled b, rbp_ratio_percent = rbc_ratio_percent b,
          rbp_per_route_ratio_percent = rbc_per_route_ratio_percent b\<rparr>)"

text \<open>\<open>Path::is_absolute\<close> of a Unix path.\<close>

definition normalize_watchdog_policy :: "resilience_config \<Rightarrow> runtime_config_error + watchdog_policy" where
  "normalize_watchdog_policy r =
     (let w = rc_watchdog r; cmd = wdc_restart_command w in
      case first_error
        [require_nonzero ''resilience.watchdog.check_interval_ms'' (wdc_check_interval_ms w),
         require_nonzero ''resilience.watchdog.poll_stall_timeout_ms'' (wdc_poll_stall_timeout_ms w),
         (100 < wdc_timeout_error_rate_percent w,
            ConfigInvalid ''resilience.watchdog.timeout_error_rate_percent must be <= 100''),
         require_nonzero ''resilience.watchdog.min_requests_per_window'' (wdc_min_requests_per_window w),
         (100 < wdc_overload_inflight_percent w,
            ConfigInvalid ''resilience.watchdog.overload_inflight_percent must be <= 100''),
         require_nonzero ''resilience.watchdog.unhealthy_consecutive_windows'' (wdc_unhealthy_consecutive_windows w),
         require_nonzero ''resilience.watchdog.drain_grace_ms'' (wdc_drain_grace_ms w),
         require_nonzero ''resilience.watchdog.restart_cooldown_ms'' (wdc_restart_cooldown_ms w),
         (cmd \<noteq> [] \<and> trim (hd cmd) = [],
            ConfigInvalid ''resilience.watchdog.restart_command[0] must be a non-empty executable path''),
         (cmd \<noteq> [] \<and> \<not> starts_with ''/'' (trim (hd cmd)),
            ConfigInvalid ''resilience.watchdog.restart_command[0] must be an absolute executable path''),
         (wdc_restart_hook w \<noteq> None,
            UnsupportedPolicyCombination ''resilience.watchdog.restart_hook is deprecated and unsupported; use restart_command instead'')] of
        Some e \<Rightarrow> Inl e
      | None \<Rightarrow> Inr \<lparr>wdp_enabled = wdc_enabled w, wdp_check_interval = from_millis (wdc_check_interval_ms w),
          wdp_poll_stall_timeout = from_millis (wdc_poll_stall_timeout_ms w),
          wdp_timeout_error_rate_percent = wdc_timeout_error_rate_percent w,
          wdp_min_requests_per_window = wdc_min_requests_per_window w,
          wdp_overload_inflight_percent = wdc_overload_inflight_percent w,
          wdp_unhealthy_consecutive_windows = wdc_unhealthy_consecutive_windows w,
          wdp_drain_grace = from_millis (wdc_drain_grace_ms w),
          wdp_restart_cooldown = from_millis (wdc_restart_cooldown_ms w),
          wdp_restart_command = (case cmd of [] \<Rightarrow> [] | c # cs \<Rightarrow> trim c # cs)\<rparr>)"

text \<open>The checks of \<open>RuntimeAdmissionPolicy::normalize\<close>, in the order of the source.\<close>

definition adaptive_checks :: "adaptive_admission_config \<Rightarrow> usize \<Rightarrow> (bool \<times> runtime_config_error) list" where
  "adaptive_checks a global_limit =
     [require_nonzero ''resilience.adaptive_admission.min_limit'' (aac_min_limit a)] @
     (case aac_max_limit a of
        None \<Rightarrow> []
      | Some m \<Rightarrow>
         [require_nonzero ''resilience.adaptive_admission.max_limit'' m,
          (m < aac_min_limit a, ConfigInvalid (''resilience.adaptive_admission.max_limit ('' @ dec_string (unat m) @
             '') must be >= min_limit ('' @ dec_string (unat (aac_min_limit a)) @ '')'')),
          (global_limit < m, ConfigInvalid (''resilience.adaptive_admission.max_limit ('' @ dec_string (unat m) @
             '') must be <= performance.global_inflight_limit ('' @ dec_string (unat global_limit) @ '')''))]) @
     [require_nonzero ''resilience.adaptive_admission.decrease_step'' (aac_decrease_step a),
      require_nonzero ''resilience.adaptive_admission.increase_step'' (aac_increase_step a)]"

definition route_queue_checks :: "route_queue_config \<Rightarrow> (bool \<times> runtime_config_error) list" where
  "route_queue_checks q =
     [require_nonzero ''resilience.route_queue.default_cap'' (rqc_default_cap q),
      require_nonzero ''resilience.route_queue.global_cap'' (rqc_global_cap q),
      require_nonzero ''resilience.route_queue.shed_retry_after_seconds'' (rqc_shed_retry_after_seconds q),
      (list_ex (\<lambda>(k, c). c = 0) (rqc_caps q),
         ConfigInvalid ''resilience.route_queue.caps values must be greater than 0'')]"

definition protocol_checks :: "protocol_policy \<Rightarrow> (bool \<times> runtime_config_error) list" where
  "protocol_checks p =
     (let early = normalize_string_vec (early_data_safe_methods p);
          methods = normalize_string_vec (allowed_methods p);
          denied = normalize_string_vec (denied_path_prefixes p) in
     [nonempty_strings ''resilience.protocol.early_data_safe_methods'' (early_data_safe_methods p),
      (list_ex (\<lambda>m. \<not> is_valid_http_token m) early,
         ConfigInvalid ''resilience.protocol.early_data_safe_methods must contain valid HTTP method tokens''),
      nonempty_strings ''resilience.protocol.allowed_methods'' (allowed_methods p),
      (list_ex (\<lambda>m. \<not> is_valid_http_token m) methods,
         ConfigInvalid ''resilience.protocol.allowed_methods must contain valid HTTP method tokens''),
      nonempty_strings ''resilience.protocol.denied_path_prefixes'' (denied_path_prefixes p),
      (list_ex (\<lambda>d. \<not> starts_with ''/'' d) denied,
         ConfigInvalid (''resilience.protocol.denied_path_prefixes must contain '' @
           [char_of (39 :: nat)] @ ''/'' @ [char_of (39 :: nat)] @ ''-prefixed paths'')),
      require_nonzero ''resilience.protocol.max_headers_count'' (max_headers_count p),
      require_nonzero ''resilience.protocol.max_headers_bytes'' (max_headers_bytes p),
      (\<not> allow_connect p \<and> (connect_allowed_ports p \<noteq> [] \<or> connect_allowed_authorities p \<noteq> []),
         ConfigInvalid ''resilience.protocol.connect_allowed_ports/connect_allowed_authorities require allow_connect=true''),
      (0 \<in> set (connect_allowed_ports p),
         ConfigInvalid ''resilience.protocol.connect_allowed_ports must contain ports in range 1-65535''),
      (list_ex (\<lambda>a. \<not> policy_connect_authority_ok a) (connect_allowed_authorities p),
         ConfigInvalid ''resilience.protocol.connect_allowed_authorities must contain authority-form host:port targets''),
      (allow_0rtt p \<and> early = [],
         ConfigInvalid ''resilience.protocol.early_data_safe_methods must be non-empty when allow_0rtt=true''),
      (allow_0rtt p \<and> \<not> early_data_methods_are_safe early,
         ConfigInvalid ''resilience.protocol.early_data_safe_methods may contain only GET or HEAD when allow_0rtt=true'')])"

definition brownout_checks :: "brownout_config \<Rightarrow> (bool \<times> runtime_config_error) list" where
  "brownout_checks b =
     [(100 < boc_trigger_inflight_percent b \<or> 100 < boc_recover_inflight_percent b,
         ConfigInvalid ''resilience.brownout inflight percentages must be <= 100''),
      (boc_trigger_inflight_percent b \<le> boc_recover_inflight_percent b,
         ConfigInvalid ''resilience.brownout.recover_inflight_percent must be < trigger_inflight_percent'')]"

definition adaptive_policy :: "adaptive_admission_config \<Rightarrow> usize \<Rightarrow> adaptive_admission_policy" where
  "adaptive_policy a global_limit =
     \<lparr>aap_enabled = aac_enabled a, aap_min_limit = aac_min_limit a,
      aap_max_limit = max (case aac_max_limit a of Some m \<Rightarrow> m | None \<Rightarrow> global_limit) (aac_min_limit a),
      aap_decrease_step = aac_decrease_step a, aap_increase_step = aac_increase_step a,
      aap_high_latency = from_millis (aac_high_latency_ms a)\<rparr>"

definition route_queue_policy_of :: "route_queue_config \<Rightarrow> route_queue_policy" where
  "route_queue_policy_of q =
     \<lparr>rqp_default_cap = rqc_default_cap q, rqp_global_cap = rqc_global_cap q,
      rqp_shed_retry_after_seconds = max (rqc_shed_retry_after_seconds q) 1, rqp_caps = rqc_caps q\<rparr>"

definition brownout_policy_of :: "brownout_config \<Rightarrow> brownout_policy" where
  "brownout_policy_of b =
     \<lparr>bop_enabled = boc_enabled b, bop_trigger_inflight_percent = boc_trigger_inflight_percent b,
      bop_recover_inflight_percent = boc_recover_inflight_percent b,
      bop_core_routes = normalize_string_vec (boc_core_routes b)\<rparr>"

definition protocol_policy_of :: "protocol_policy \<Rightarrow> protocol_policy" where
  "protocol_policy_of p = p\<lparr>early_data_safe_methods := normalize_string_vec (early_data_safe_methods p),
     allowed_methods := normalize_string_vec (allowed_methods p),
     denied_path_prefixes := normalize_string_vec (denied_path_prefixes p)\<rparr>"

definition admission_policy_normalize :: "resilience_config \<Rightarrow> usize \<Rightarrow> runtime_config_error + admission_policy" where
  "admission_policy_normalize r global_limit =
     (case first_error (adaptive_checks (rc_adaptive_admission r) global_limit @ route_queue_checks (rc_route_queue r) @
         protocol_checks (rc_protocol r) @ brownout_checks (rc_brownout r)) of
        Some e \<Rightarrow> Inl e
      | None \<Rightarrow>
     (case normalize_circuit_breaker_policy r of
        Inl e \<Rightarrow> Inl e
      | Inr cb \<Rightarrow>
     (case normalize_hedging_policy r (normalize_string_vec (hgc_safe_methods (rc_hedging r)))
             (normalize_string_vec (hgc_route_allowlist (rc_hedging r))) of
        Inl e \<Rightarrow> Inl e
      | Inr hg \<Rightarrow>
     (case normalize_retry_budget_policy r of
        Inl e \<Rightarrow> Inl e
      | Inr rb \<Rightarrow>
     (case normalize_watchdog_policy r of
        Inl e \<Rightarrow> Inl e
      | Inr wd \<Rightarrow>
          Inr \<lparr>ap_adaptive_admission = adaptive_policy (rc_adaptive_admission r) global_limit,
               ap_route_queue = route_queue_policy_of (rc_route_queue r), ap_circuit_breaker = cb, ap_hedging = hg,
               ap_retry_budget = rb, ap_brownout = brownout_policy_of (rc_brownout r), ap_watchdog = wd,
               ap_protocol = protocol_policy_of (rc_protocol r)\<rparr>)))))"

definition route_queue_clamped :: "route_queue_policy \<Rightarrow> usize \<Rightarrow> usize \<Rightarrow> route_queue_policy" where
  "route_queue_clamped q default_limit global_limit =
     q\<lparr>rqp_default_cap := max (min (rqp_default_cap q) default_limit) 1,
       rqp_global_cap := max (min (rqp_global_cap q) global_limit) 1,
       rqp_caps := map (\<lambda>(k, c). (k, max (min c default_limit) 1)) (rqp_caps q)\<rparr>"

definition with_runtime_overrides :: "admission_policy \<Rightarrow> usize \<Rightarrow> usize \<Rightarrow> duration \<Rightarrow> admission_policy" where
  "with_runtime_overrides ap default_limit global_limit latency_limit =
     (let ap' = ap\<lparr>ap_route_queue := route_queue_clamped (ap_route_queue ap) default_limit global_limit\<rparr> in
      if latency_limit < aap_high_latency (ap_adaptive_admission ap')
      then ap'\<lparr>ap_adaptive_admission := (ap_adaptive_admission ap')\<lparr>aap_high_latency := latency_limit\<rparr>\<rparr>
      else ap')"

section \<open>What an accepted configuration guarantees\<close>

lemma first_error_append:
  "first_error (xs @ ys) = (case first_error xs of Some e \<Rightarrow> Some e | None \<Rightarrow> first_error ys)"
  by (induction xs) (auto simp: first_error_def)

lemma admission_normalizeD:
  assumes "admission_policy_normalize r g = Inr ap"
  shows "list_all (\<lambda>c. \<not> fst c) (adaptive_checks (rc_adaptive_admission r) g)"
    and "list_all (\<lambda>c. \<not> fst c) (route_queue_checks (rc_route_queue r))"
    and "list_all (\<lambda>c. \<not> fst c) (protocol_checks (rc_protocol r))"
    and "list_all (\<lambda>c. \<not> fst c) (brownout_checks (rc_brownout r))"
    and "ap_adaptive_admission ap = adaptive_policy (rc_adaptive_admission r) g"
    and "ap_route_queue ap = route_queue_policy_of (rc_route_queue r)"
    and "ap_brownout ap = brownout_policy_of (rc_brownout r)"
    and "ap_protocol ap = protocol_policy_of (rc_protocol r)"
    and "normalize_circuit_breaker_policy r = Inr (ap_circuit_breaker ap)"
    and "normalize_retry_budget_policy r = Inr (ap_retry_budget ap)"
    and "normalize_watchdog_policy r = Inr (ap_watchdog ap)"
  using assms
  by (auto simp: admission_policy_normalize_def first_error_append first_error_None
      split: option.splits sum.splits)

end
