(* ===== verification/Routing_Host.thy ===== *)
theory Routing_Host
  imports Rust_Strings Resilience_Config
begin

text \<open>
  Hosts and paths of the router (\<open>edge/src/routing/host.rs\<close>, \<open>routing/util.rs\<close>) and the
  normalisation of a configured route (\<open>config/src/runtime/policies/mod.rs\<close>).
\<close>

section \<open>Hosts\<close>

definition is_ascii_digit :: "char \<Rightarrow> bool" where
  "is_ascii_digit c \<longleftrightarrow> is_digit c"

definition parsed_host_for_routing :: "string \<Rightarrow> string option" where
  "parsed_host_for_routing raw =
     (let t = trim raw in
      if t = [] then None
      else do {
        host \<leftarrow> (case strip_prefix ''['' t of
            Some rest \<Rightarrow> map_option (\<lambda>e. take e rest) (find_char CHR '']'' rest)
          | None \<Rightarrow>
              (case rsplit_once CHR '':'' t of
                 Some (h, port) \<Rightarrow>
                   Some (if CHR '':'' \<notin> set h \<and> list_all is_ascii_digit port then h else t)
               | None \<Rightarrow> Some t));
        let host = trim_end_matches CHR ''.'' host;
        if host = [] then None else Some host
      })"

definition is_ascii_uppercase :: "char \<Rightarrow> bool" where
  "is_ascii_uppercase c \<longleftrightarrow> 65 \<le> char_code c \<and> char_code c \<le> 90"

definition host_has_uppercase_ascii :: "string \<Rightarrow> bool" where
  "host_has_uppercase_ascii h = list_ex is_ascii_uppercase h"

definition normalize_host_for_routing :: "string \<Rightarrow> string option" where
  "normalize_host_for_routing raw = do {
     host \<leftarrow> parsed_host_for_routing raw;
     Some (if host_has_uppercase_ascii host then to_ascii_lowercase host else host)
   }"

datatype host_pattern = ExactHost string | WildcardSuffix string

definition parse_configured_host_pattern :: "string \<Rightarrow> host_pattern option" where
  "parse_configured_host_pattern raw = do {
     normalized \<leftarrow> normalize_host_for_routing raw;
     Some (case strip_prefix ''*.'' normalized of
             None \<Rightarrow> ExactHost normalized
           | Some sfx \<Rightarrow> if sfx = [] \<or> CHR ''*'' \<in> set sfx then ExactHost normalized else WildcardSuffix sfx)
   }"

definition parse_configured_host_pattern_ref :: "string \<Rightarrow> host_pattern option" where
  "parse_configured_host_pattern_ref raw = do {
     host \<leftarrow> parsed_host_for_routing raw;
     Some (case strip_prefix ''*.'' host of
             None \<Rightarrow> ExactHost host
           | Some sfx \<Rightarrow> if sfx = [] \<or> CHR ''*'' \<in> set sfx then ExactHost host else WildcardSuffix sfx)
   }"

text \<open>Skipping the copy when there is nothing to lower makes no difference.\<close>

lemma lower_when_upper: "(if host_has_uppercase_ascii h then to_ascii_lowercase h else h) = to_ascii_lowercase h"
proof -
  have "ascii_lower c = c" if "\<not> is_ascii_uppercase c" for c
    using that by (auto simp: ascii_lower_def is_ascii_uppercase_def)
  then have "to_ascii_lowercase h = h" if "\<not> host_has_uppercase_ascii h"
    using that by (auto simp: host_has_uppercase_ascii_def list_ex_iff to_ascii_lowercase_def intro: map_idI)
  then show ?thesis by simp
qed

lemma normalize_host_lower: "normalize_host_for_routing raw = map_option to_ascii_lowercase (parsed_host_for_routing raw)"
  by (simp add: normalize_host_for_routing_def lower_when_upper map_option_case split: option.splits bind_splits)

section \<open>Paths\<close>

definition prefix_boundary_matches :: "string \<Rightarrow> nat \<Rightarrow> bool" where
  "prefix_boundary_matches path n \<longleftrightarrow>
     (if n \<le> 1 then True else if length path = n then True else vec_get path n = Some CHR ''/'')"

definition hex_digit :: "char \<Rightarrow> nat option" where
  "hex_digit c =
     (let b = char_code c in
      if 48 \<le> b \<and> b \<le> 57 then Some (b - 48)
      else if 97 \<le> b \<and> b \<le> 102 then Some (b - 97 + 10)
      else if 65 \<le> b \<and> b \<le> 70 then Some (b - 65 + 10)
      else None)"

text \<open>The decoding loop; \<open>None\<close> stands for the early \<open>return true\<close> on a malformed escape.\<close>

fun percent_decode :: "string \<Rightarrow> string option" where
  "percent_decode [] = Some []"
| "percent_decode (c # cs) =
     (if c = CHR ''%'' then
        (case cs of
           hi # lo # rest \<Rightarrow> do {
             h \<leftarrow> hex_digit hi;
             l \<leftarrow> hex_digit lo;
             ds \<leftarrow> percent_decode rest;
             Some (char_of (16 * h + l) # ds)
           }
         | _ \<Rightarrow> None)
      else map_option (\<lambda>ds. c # ds) (percent_decode cs))"

text \<open>\<open>std::str::from_utf8\<close> accepts exactly the well-formed UTF-8 sequences: no overlong forms, no
  surrogates, nothing above U+10FFFF.\<close>

definition continuation :: "nat \<Rightarrow> bool" where
  "continuation b \<longleftrightarrow> 128 \<le> b \<and> b \<le> 191"

fun valid_utf8 :: "nat list \<Rightarrow> bool" where
  "valid_utf8 [] = True"
| "valid_utf8 (a # bs) =
     (if a < 128 then valid_utf8 bs
      else (case bs of
        [] \<Rightarrow> False
      | b # cs \<Rightarrow>
          if 194 \<le> a \<and> a \<le> 223 then continuation b \<and> valid_utf8 cs
          else (case cs of
            [] \<Rightarrow> False
          | c # ds \<Rightarrow>
              if 224 \<le> a \<and> a \<le> 239 then
                continuation b \<and> continuation c \<and> (a = 224 \<longrightarrow> 160 \<le> b) \<and> (a = 237 \<longrightarrow> b \<le> 159) \<and> valid_utf8 ds
              else (case ds of
                [] \<Rightarrow> False
              | d # es \<Rightarrow>
                  240 \<le> a \<and> a \<le> 244 \<and> continuation b \<and> continuation c \<and> continuation d \<and>
                  (a = 240 \<longrightarrow> 144 \<le> b) \<and> (a = 244 \<longrightarrow> b \<le> 143) \<and> valid_utf8 es))))"

text \<open>\<open>str::split\<close> at a character.\<close>

fun split_char :: "char \<Rightarrow> string \<Rightarrow> string list" where
  "split_char d [] = [[]]"
| "split_char d (c # cs) =
     (if c = d then [] # split_char d cs
      else case split_char d cs of seg # segs \<Rightarrow> (c # seg) # segs | [] \<Rightarrow> [[c]])"

definition contains_str :: "string \<Rightarrow> string \<Rightarrow> bool" where
  "contains_str pat s \<longleftrightarrow> sublist pat s"

definition backslash :: char where
  "backslash = char_of (92 :: nat)"

definition request_path_is_ambiguous :: "string \<Rightarrow> bool" where
  "request_path_is_ambiguous path_and_query =
     (let path = (case split_once CHR ''?'' path_and_query of Some (p, q) \<Rightarrow> p | None \<Rightarrow> path_and_query) in
      if contains_str ''//'' path \<or> backslash \<in> set path then True
      else case percent_decode path of
        None \<Rightarrow> True
      | Some decoded \<Rightarrow>
          if \<not> valid_utf8 (map char_code decoded) then True
          else list_ex (\<lambda>seg. seg = ''.'' \<or> seg = ''..'') (split_char CHR ''/'' decoded) \<or>
               contains_str ''//'' decoded \<or> backslash \<in> set decoded)"

section \<open>Configured routes\<close>

record route_match =
  rm_host :: "string option"
  rm_path_prefix :: "string option"
  rm_method :: "string option"

record route_match_policy =
  rmp_host :: "string option"
  rmp_host_pattern :: "host_pattern option"
  rmp_path_prefix :: "string option"
  rmp_method :: "string option"
  rmp_path_len :: nat
  rmp_host_specific :: bool
  rmp_method_specific :: bool

definition normalize_route_host :: "string \<Rightarrow> string" where
  "normalize_route_host raw =
     (let t = trim raw;
          host = (case strip_prefix ''['' t of
              Some rest \<Rightarrow> (case find_char CHR '']'' rest of Some e \<Rightarrow> take e rest | None \<Rightarrow> t)
            | None \<Rightarrow>
                (case rsplit_once CHR '':'' t of
                   Some (h, port) \<Rightarrow> if CHR '':'' \<notin> set h \<and> list_all is_ascii_digit port then h else t
                 | None \<Rightarrow> t)) in
      to_ascii_lowercase (trim_end_matches CHR ''.'' host))"

definition normalized_route_method :: "string option \<Rightarrow> string option" where
  "normalized_route_method m = map_option to_ascii_uppercase (normalize_optional_string m)"

definition parse_runtime_route_host_pattern :: "string \<Rightarrow> host_pattern" where
  "parse_runtime_route_host_pattern raw =
     (let normalized = normalize_route_host raw in
      case strip_prefix ''*.'' normalized of
        None \<Rightarrow> ExactHost normalized
      | Some sfx \<Rightarrow> if sfx = [] \<or> CHR ''*'' \<in> set sfx then ExactHost normalized else WildcardSuffix sfx)"

definition valid_runtime_route_host_pattern :: "string \<Rightarrow> bool" where
  "valid_runtime_route_host_pattern n \<longleftrightarrow>
     (if n = [] \<or> CHR ''['' \<in> set n \<or> CHR '']'' \<in> set n \<or> CHR ''/'' \<in> set n \<or> CHR ''?'' \<in> set n \<or>
         CHR ''#'' \<in> set n \<or> list_ex is_whitespace n then False
      else case strip_prefix ''*.'' n of
        Some sfx \<Rightarrow> sfx \<noteq> [] \<and> CHR ''*'' \<notin> set sfx
      | None \<Rightarrow> CHR ''*'' \<notin> set n)"

definition quoted :: "string \<Rightarrow> string" where
  "quoted s = [char_of (39 :: nat)] @ s @ [char_of (39 :: nat)]"

definition route_match_normalize :: "string \<Rightarrow> route_match \<Rightarrow> runtime_config_error + route_match_policy" where
  "route_match_normalize upstream r =
     (let path_prefix = normalize_optional_string (rm_path_prefix r);
          host = map_option normalize_route_host (normalize_optional_string (rm_host r));
          meth = normalized_route_method (rm_method r) in
      case first_error
        [(case path_prefix of Some p \<Rightarrow> \<not> starts_with ''/'' p | None \<Rightarrow> False,
            ConfigInvalid (''upstream '' @ quoted upstream @ '' has an invalid route.path_prefix '' @
              quoted (case path_prefix of Some p \<Rightarrow> p | None \<Rightarrow> []))),
         (case host of Some h \<Rightarrow> \<not> valid_runtime_route_host_pattern h | None \<Rightarrow> False,
            ConfigInvalid (''upstream '' @ quoted upstream @ '' has an invalid route.host '' @
              quoted (case rm_host r of Some h \<Rightarrow> h | None \<Rightarrow> []))),
         (host = None \<and> path_prefix = None,
            ConfigInvalid (''upstream '' @ quoted upstream @
              '' must configure a non-empty route.host or route.path_prefix''))] of
        Some e \<Rightarrow> Inl e
      | None \<Rightarrow> Inr \<lparr>rmp_host = host, rmp_host_pattern = map_option parse_runtime_route_host_pattern host,
          rmp_path_prefix = path_prefix, rmp_method = meth,
          rmp_path_len = (case path_prefix of Some p \<Rightarrow> length p | None \<Rightarrow> 0),
          rmp_host_specific = (host \<noteq> None), rmp_method_specific = (meth \<noteq> None)\<rparr>)"

lemma checks_InrD: "(case x of Some e \<Rightarrow> Inl e | None \<Rightarrow> Inr v) = Inr y \<Longrightarrow> x = None \<and> y = v"
  by (simp split: option.splits)

lemma route_match_normalize_InrD:
  assumes "route_match_normalize upstream r = Inr pol"
  shows "rmp_path_prefix pol = normalize_optional_string (rm_path_prefix r)"
    and "rmp_path_len pol = (case rmp_path_prefix pol of Some p \<Rightarrow> length p | None \<Rightarrow> 0)"
    and "rmp_host pol = map_option normalize_route_host (normalize_optional_string (rm_host r))"
    and "rmp_host_pattern pol = map_option parse_runtime_route_host_pattern (rmp_host pol)"
    and "rmp_host_specific pol = (rmp_host_pattern pol \<noteq> None)"
    and "rmp_method pol = normalized_route_method (rm_method r)"
    and "rmp_method_specific pol = (rmp_method pol \<noteq> None)"
    and "rmp_host pol = None \<longrightarrow> rmp_path_prefix pol \<noteq> None"
    and "rmp_path_prefix pol = Some p \<Longrightarrow> starts_with ''/'' p"
    and "rmp_host pol = Some h \<Longrightarrow> valid_runtime_route_host_pattern h"
  using checks_InrD [OF assms [unfolded route_match_normalize_def Let_def]]
  unfolding first_error_None by auto

end
