(* ===== verification/Routing_Trie.thy ===== *)
theory Routing_Trie
  imports Routing_Host "HOL-Library.Product_Lexorder"
begin

text \<open>
  Routes, their precedence and the path trie (\<open>edge/src/routing/route.rs\<close>, \<open>decision.rs\<close>,
  \<open>matcher.rs\<close>, \<open>trie.rs\<close>).  A comparison of two routes is an order on keys; a lookup in the
  trie returns a route with the greatest key among the routes stored on a prefix of the path.
\<close>

section \<open>Routes and decisions\<close>

record indexed_route =
  ir_upstream_idx :: nat
  ir_path_len :: nat
  ir_host_specific :: bool
  ir_method_specific :: bool
  ir_order :: nat

datatype host_match_kind = KindDefault | KindWildcard | KindExact

fun kind_rank :: "host_match_kind \<Rightarrow> nat" where
  "kind_rank KindDefault = 0"
| "kind_rank KindWildcard = 1"
| "kind_rank KindExact = 2"

lemma kind_rank_inj: "kind_rank a = kind_rank b \<longleftrightarrow> a = b"
  by (cases a; cases b) simp_all

instantiation host_match_kind :: linorder
begin

definition less_eq_host_match_kind :: "host_match_kind \<Rightarrow> host_match_kind \<Rightarrow> bool" where
  "less_eq_host_match_kind a b \<longleftrightarrow> kind_rank a \<le> kind_rank b"

definition less_host_match_kind :: "host_match_kind \<Rightarrow> host_match_kind \<Rightarrow> bool" where
  "less_host_match_kind a b \<longleftrightarrow> kind_rank a < kind_rank b"

instance
  by intro_classes (auto simp: less_eq_host_match_kind_def less_host_match_kind_def kind_rank_inj)

end

record route_candidate =
  rc_route :: indexed_route
  rc_host_match_kind :: host_match_kind
  rc_wildcard_suffix_len :: nat

datatype route_preference =
    KeepCurrent
  | TakeCandidatePathLen
  | TakeCandidateHostSpecific
  | TakeCandidateExactHost
  | TakeCandidateWildcardSpecificity
  | TakeCandidateMethodSpecific
  | TakeCandidateLexicalOrder

datatype route_decision_reason =
    HostTrieNoDefault
  | HostPathLongerOrEqual
  | DefaultPathLonger
  | HostSpecificTieBreak
  | ExactHostTieBreak
  | WildcardSpecificityTieBreak
  | MethodSpecificTieBreak
  | LexicalTieBreak

record host_lookup_result =
  hl_candidate :: route_candidate
  hl_decision_reason :: "route_decision_reason option"

record route_decision =
  rd_upstream :: string
  rd_matched_path_len :: nat
  rd_host_specific :: bool
  rd_reason :: route_decision_reason

fun route_preference_reason :: "route_preference \<Rightarrow> route_decision_reason option" where
  "route_preference_reason KeepCurrent = None"
| "route_preference_reason TakeCandidatePathLen = Some HostPathLongerOrEqual"
| "route_preference_reason TakeCandidateHostSpecific = Some HostSpecificTieBreak"
| "route_preference_reason TakeCandidateExactHost = Some ExactHostTieBreak"
| "route_preference_reason TakeCandidateWildcardSpecificity = Some WildcardSpecificityTieBreak"
| "route_preference_reason TakeCandidateMethodSpecific = Some MethodSpecificTieBreak"
| "route_preference_reason TakeCandidateLexicalOrder = Some LexicalTieBreak"

fun reason_token :: "route_decision_reason \<Rightarrow> string" where
  "reason_token HostTrieNoDefault = ''host-trie-no-default''"
| "reason_token HostPathLongerOrEqual = ''host-path-longer-or-equal''"
| "reason_token DefaultPathLonger = ''default-path-longer''"
| "reason_token HostSpecificTieBreak = ''host-specific-tie-break''"
| "reason_token ExactHostTieBreak = ''exact-host-tie-break''"
| "reason_token WildcardSpecificityTieBreak = ''wildcard-specificity-tie-break''"
| "reason_token MethodSpecificTieBreak = ''method-specific-tie-break''"
| "reason_token LexicalTieBreak = ''lexical-tie-break''"

section \<open>Matching\<close>

definition compare_route :: "indexed_route \<Rightarrow> indexed_route \<Rightarrow> route_preference" where
  "compare_route cur cand =
     (if ir_path_len cand > ir_path_len cur then TakeCandidatePathLen
      else if ir_path_len cand = ir_path_len cur \<and> ir_host_specific cand \<and> \<not> ir_host_specific cur
      then TakeCandidateHostSpecific
      else if ir_path_len cand = ir_path_len cur \<and> ir_host_specific cand = ir_host_specific cur \<and>
              ir_method_specific cand \<and> \<not> ir_method_specific cur
      then TakeCandidateMethodSpecific
      else if ir_path_len cand = ir_path_len cur \<and> ir_host_specific cand = ir_host_specific cur \<and>
              ir_method_specific cand = ir_method_specific cur \<and> ir_order cand < ir_order cur
      then TakeCandidateLexicalOrder
      else KeepCurrent)"

definition compare_route_candidate :: "route_candidate \<Rightarrow> route_candidate \<Rightarrow> route_preference" where
  "compare_route_candidate cur cand =
     (let r = rc_route cand; c = rc_route cur;
          k = rc_host_match_kind cand; kc = rc_host_match_kind cur;
          w = rc_wildcard_suffix_len cand; wc = rc_wildcard_suffix_len cur;
          wildcard_specificity_equal = (k \<noteq> KindWildcard \<or> kc \<noteq> KindWildcard \<or> w = wc) in
      if ir_path_len r > ir_path_len c then TakeCandidatePathLen
      else if ir_path_len r = ir_path_len c \<and> ir_host_specific r \<and> \<not> ir_host_specific c
      then TakeCandidateHostSpecific
      else if ir_path_len r = ir_path_len c \<and> k > kc then TakeCandidateExactHost
      else if ir_path_len r = ir_path_len c \<and> k = KindWildcard \<and> kc = KindWildcard \<and> w > wc
      then TakeCandidateWildcardSpecificity
      else if ir_path_len r = ir_path_len c \<and> k = kc \<and> wildcard_specificity_equal \<and>
              ir_method_specific r \<and> \<not> ir_method_specific c
      then TakeCandidateMethodSpecific
      else if ir_path_len r = ir_path_len c \<and> k = kc \<and> wildcard_specificity_equal \<and>
              ir_method_specific r = ir_method_specific c \<and> ir_order r < ir_order c
      then TakeCandidateLexicalOrder
      else KeepCurrent)"

fun prefer_route_candidate :: "route_candidate option \<Rightarrow> route_candidate option \<Rightarrow> route_candidate option" where
  "prefer_route_candidate None None = None"
| "prefer_route_candidate (Some r) None = Some r"
| "prefer_route_candidate None (Some r) = Some r"
| "prefer_route_candidate (Some cur) (Some cand) =
     (if compare_route_candidate cur cand = KeepCurrent then Some cur else Some cand)"

definition opt_or :: "'a option \<Rightarrow> 'a option \<Rightarrow> 'a option" where
  "opt_or a b = (case a of Some x \<Rightarrow> Some x | None \<Rightarrow> b)"

fun prefer_host_lookup_result ::
    "host_lookup_result option \<Rightarrow> host_lookup_result option \<Rightarrow> host_lookup_result option" where
  "prefer_host_lookup_result None None = None"
| "prefer_host_lookup_result (Some r) None = Some r"
| "prefer_host_lookup_result None (Some r) = Some r"
| "prefer_host_lookup_result (Some cur) (Some cand) =
     (let preference = compare_route_candidate (hl_candidate cur) (hl_candidate cand) in
      if preference = KeepCurrent then
        Some \<lparr>hl_candidate = hl_candidate cur,
              hl_decision_reason = opt_or (hl_decision_reason cur) (opt_or (hl_decision_reason cand)
                (route_preference_reason (compare_route_candidate (hl_candidate cand) (hl_candidate cur))))\<rparr>
      else
        Some \<lparr>hl_candidate = hl_candidate cand,
              hl_decision_reason = opt_or (hl_decision_reason cand) (route_preference_reason preference)\<rparr>)"

definition route_matches_method :: "indexed_route \<Rightarrow> string option \<Rightarrow> string option list \<Rightarrow> bool" where
  "route_matches_method r m ms =
     (case m of
        None \<Rightarrow> True
      | Some method \<Rightarrow>
          (case Option.bind (vec_get ms (ir_upstream_idx r)) id of
             Some expected \<Rightarrow> eq_ignore_ascii_case expected method
           | None \<Rightarrow> True))"

type_synonym best_route = "(indexed_route \<times> route_decision_reason option) option"

fun best_matching_route_with_reason ::
    "indexed_route list \<Rightarrow> string \<Rightarrow> string option \<Rightarrow> string option list \<Rightarrow> best_route \<Rightarrow> best_route" where
  "best_matching_route_with_reason [] path m ms best = best"
| "best_matching_route_with_reason (r # rs) path m ms best =
     (if \<not> prefix_boundary_matches path (ir_path_len r) then best_matching_route_with_reason rs path m ms best
      else if \<not> route_matches_method r m ms then best_matching_route_with_reason rs path m ms best
      else best_matching_route_with_reason rs path m ms
        (case best of
           None \<Rightarrow> Some (r, None)
         | Some (cur, reason) \<Rightarrow>
             if compare_route cur r = KeepCurrent
             then Some (cur, opt_or reason (route_preference_reason (compare_route r cur)))
             else Some (r, route_preference_reason (compare_route cur r))))"

section \<open>The trie\<close>

datatype trie_node = TrieNode (trie_routes: "indexed_route list") (trie_children: "(char \<times> trie_node) list")

type_synonym trie_edges = "(char \<times> trie_node) list"

definition empty_trie :: trie_node where
  "empty_trie = TrieNode [] []"

fun update_route :: "indexed_route list \<Rightarrow> indexed_route \<Rightarrow> indexed_route list" where
  "update_route [] cand = [cand]"
| "update_route (r # rs) cand =
     (if ir_upstream_idx r = ir_upstream_idx cand then cand # rs else r # update_route rs cand)"

definition cmp_nat :: "nat \<Rightarrow> nat \<Rightarrow> ordering" where
  "cmp_nat a b = (if a < b then Less else if a = b then Equal else Greater)"

definition edge_search :: "trie_edges \<Rightarrow> char \<Rightarrow> nat + nat" where
  "edge_search es b = binary_search_by (\<lambda>e. cmp_nat (char_code (fst e)) (char_code b)) es"

definition trie_child :: "trie_edges \<Rightarrow> char \<Rightarrow> trie_node option" where
  "trie_child es b = (case edge_search es b of Inr i \<Rightarrow> Some (snd (es ! i)) | Inl i \<Rightarrow> None)"

text \<open>\<open>child_or_insert\<close> returns a reference into the vector: here its position and the vector.\<close>

definition child_or_insert :: "trie_edges \<Rightarrow> char \<Rightarrow> nat \<times> trie_edges" where
  "child_or_insert es b =
     (case edge_search es b of
        Inr i \<Rightarrow> (i, es)
      | Inl i \<Rightarrow> (i, take i es @ (b, empty_trie) # drop i es))"

fun trie_insert_at :: "trie_node \<Rightarrow> string \<Rightarrow> indexed_route \<Rightarrow> trie_node" where
  "trie_insert_at (TrieNode rs es) [] r = TrieNode (update_route rs r) es"
| "trie_insert_at (TrieNode rs es) (b # bs) r =
     (let (i, es') = child_or_insert es b in
      TrieNode rs (es'[i := (fst (es' ! i), trie_insert_at (snd (es' ! i)) bs r)]))"

definition trie_insert :: "trie_node \<Rightarrow> string option \<Rightarrow> indexed_route \<Rightarrow> trie_node" where
  "trie_insert t pfx r = trie_insert_at t (case pfx of Some p \<Rightarrow> p | None \<Rightarrow> []) r"

fun longest_prefix_loop ::
    "string \<Rightarrow> string option \<Rightarrow> string option list \<Rightarrow> trie_node \<Rightarrow> string \<Rightarrow> best_route \<Rightarrow> best_route" where
  "longest_prefix_loop path m ms node [] best = best"
| "longest_prefix_loop path m ms node (b # bs) best =
     (case trie_child (trie_children node) b of
        None \<Rightarrow> best
      | Some next \<Rightarrow>
          longest_prefix_loop path m ms next bs
            (best_matching_route_with_reason (trie_routes next) path m ms best))"

definition longest_prefix_with_reason ::
    "trie_node \<Rightarrow> string \<Rightarrow> string option \<Rightarrow> string option list \<Rightarrow> best_route" where
  "longest_prefix_with_reason t path m ms =
     longest_prefix_loop path m ms t path
       (best_matching_route_with_reason (trie_routes t) path m ms None)"

definition trie_longest_prefix ::
    "trie_node \<Rightarrow> string \<Rightarrow> string option \<Rightarrow> string option list \<Rightarrow> indexed_route option" where
  "trie_longest_prefix t path m ms = map_option fst (longest_prefix_with_reason t path m ms)"

section \<open>Best elements\<close>

text \<open>\<open>is_best key A x\<close>: \<open>x\<close> is an element of \<open>A\<close> with the greatest key, or \<open>None\<close> when there is none.\<close>

definition is_best :: "('a \<Rightarrow> 'k::linorder) \<Rightarrow> 'a set \<Rightarrow> 'a option \<Rightarrow> bool" where
  "is_best key A x = (case x of None \<Rightarrow> A = {} | Some a \<Rightarrow> a \<in> A \<and> (\<forall>b \<in> A. key b \<le> key a))"

lemma is_best_empty [simp]: "is_best key {} None"
  by (simp add: is_best_def)

lemma is_best_NoneD: "is_best key A None \<Longrightarrow> A = {}"
  by (simp add: is_best_def)

lemma is_best_SomeD: "is_best key A (Some a) \<Longrightarrow> a \<in> A \<and> (\<forall>b \<in> A. key b \<le> key a)"
  by (simp add: is_best_def)

lemma is_best_single: "is_best key {a} (Some a)"
  by (simp add: is_best_def)

lemma is_best_union:
  assumes "is_best key A (Some a)" and "is_best key B (Some b)" and "better \<longleftrightarrow> key a < key b"
  shows "is_best key (A \<union> B) (Some (if better then b else a))"
  using assms by (force simp: is_best_def)

lemma is_best_map:
  assumes "is_best key A x" and "\<And>a b. a \<in> A \<Longrightarrow> b \<in> A \<Longrightarrow> key a \<le> key b \<Longrightarrow> key' (f a) \<le> key' (f b)"
  shows "is_best key' (f ` A) (map_option f x)"
  using assms by (auto simp: is_best_def split: option.splits)

lemma is_best_unique:
  assumes "is_best key A x" and "is_best key A y" and "inj_on key A"
  shows "x = y"
  using assms by (cases x; cases y) (auto simp: is_best_def intro: inj_onD dest: order.antisym)

section \<open>Comparisons are orders on keys\<close>

definition route_key :: "indexed_route \<Rightarrow> nat \<times> bool \<times> bool \<times> int" where
  "route_key r = (ir_path_len r, ir_host_specific r, ir_method_specific r, - int (ir_order r))"

definition cand_key :: "route_candidate \<Rightarrow> nat \<times> host_match_kind \<times> nat \<times> bool \<times> int" where
  "cand_key c = (ir_path_len (rc_route c), rc_host_match_kind c,
     if rc_host_match_kind c = KindWildcard then rc_wildcard_suffix_len c else 0,
     ir_method_specific (rc_route c), - int (ir_order (rc_route c)))"

text \<open>A candidate is consistent when its route is host specific exactly if it did not come from the
  default trie.\<close>

definition cand_ok :: "route_candidate \<Rightarrow> bool" where
  "cand_ok c \<longleftrightarrow> ir_host_specific (rc_route c) = (rc_host_match_kind c \<noteq> KindDefault)"

lemma compare_route_key: "compare_route cur cand \<noteq> KeepCurrent \<longleftrightarrow> route_key cur < route_key cand"
  by (auto simp: compare_route_def route_key_def less_prod_def')

lemma compare_candidate_key:
  assumes "cand_ok cur" and "cand_ok cand"
  shows "compare_route_candidate cur cand \<noteq> KeepCurrent \<longleftrightarrow> cand_key cur < cand_key cand"
  using assms
  by (cases "rc_host_match_kind cur"; cases "rc_host_match_kind cand")
    (auto simp: Let_def compare_route_candidate_def cand_key_def cand_ok_def less_prod_def' less_host_match_kind_def)

lemma prefer_best:
  assumes A: "is_best cand_key A x" and B: "is_best cand_key B y" and ok: "\<forall>c \<in> A \<union> B. cand_ok c"
  shows "is_best cand_key (A \<union> B) (prefer_route_candidate x y)"
proof (cases x; cases y)
  fix a b assume xy: "x = Some a" "y = Some b"
  with A B ok have "cand_ok a" "cand_ok b" by (auto dest: is_best_SomeD)
  then have take: "compare_route_candidate a b \<noteq> KeepCurrent \<longleftrightarrow> cand_key a < cand_key b"
    by (rule compare_candidate_key)
  have "is_best cand_key (A \<union> B) (Some (if compare_route_candidate a b \<noteq> KeepCurrent then b else a))"
    by (rule is_best_union [OF A [unfolded xy] B [unfolded xy] take])
  then show ?thesis unfolding xy by (simp split: if_splits)
qed (use A B in \<open>auto dest: is_best_NoneD\<close>)

lemma prefer_host_candidate:
  "map_option hl_candidate (prefer_host_lookup_result x y) =
     prefer_route_candidate (map_option hl_candidate x) (map_option hl_candidate y)"
  by (cases x; cases y) (simp_all add: Let_def)

section \<open>The loop over one node's routes\<close>

abbreviation route_ok :: "string \<Rightarrow> string option \<Rightarrow> string option list \<Rightarrow> indexed_route \<Rightarrow> bool" where
  "route_ok path m ms r \<equiv> prefix_boundary_matches path (ir_path_len r) \<and> route_matches_method r m ms"

lemma best_step:
  assumes "is_best route_key A (map_option fst best)"
  shows "is_best route_key (insert r A) (map_option fst
    (case best of None \<Rightarrow> Some (r, None)
     | Some (cur, reason) \<Rightarrow>
         if compare_route cur r = KeepCurrent
         then Some (cur, opt_or reason (route_preference_reason (compare_route r cur)))
         else Some (r, route_preference_reason (compare_route cur r))))"
proof (cases best)
  case None
  with assms show ?thesis by (auto dest: is_best_NoneD intro: is_best_single)
next
  case (Some p)
  then obtain cur reason where p: "best = Some (cur, reason)" by (cases p) auto
  with assms have "is_best route_key A (Some cur)" by simp
  from is_best_union [OF this is_best_single [of route_key r] compare_route_key [of cur r]]
  show ?thesis unfolding p by (simp split: if_splits)
qed

lemma best_matching_best:
  "is_best route_key A (map_option fst best) \<Longrightarrow>
   is_best route_key (A \<union> {r \<in> set rs. route_ok path m ms r})
     (map_option fst (best_matching_route_with_reason rs path m ms best))"
proof (induction rs arbitrary: A best)
  case (Cons r rs)
  show ?case
  proof (cases "route_ok path m ms r")
    case True
    then have "A \<union> {q \<in> set (r # rs). route_ok path m ms q} = insert r A \<union> {q \<in> set rs. route_ok path m ms q}"
      by auto
    with True Cons.IH [OF best_step [OF Cons.prems, of r]] show ?thesis by simp
  next
    case False
    then have "{q \<in> set (r # rs). route_ok path m ms q} = {q \<in> set rs. route_ok path m ms q}" by auto
    moreover have "best_matching_route_with_reason (r # rs) path m ms best = best_matching_route_with_reason rs path m ms best"
      using False by simp
    ultimately show ?thesis using Cons.IH [OF Cons.prems] by simp
  qed
qed simp

section \<open>Edges stay sorted\<close>

definition edges_sorted :: "trie_edges \<Rightarrow> bool" where
  "edges_sorted es \<longleftrightarrow> sorted_wrt (<) (map (char_code \<circ> fst) es)"

lemma edges_sorted_nth: "edges_sorted es \<Longrightarrow> i < j \<Longrightarrow> j < length es \<Longrightarrow> char_code (fst (es ! i)) < char_code (fst (es ! j))"
  by (simp add: edges_sorted_def sorted_wrt_iff_nth_less)

lemma edges_distinct: "edges_sorted es \<Longrightarrow> distinct (map fst es)"
  by (auto simp: distinct_conv_nth dest: edges_sorted_nth) (metis edges_sorted_nth less_irrefl nat_neq_iff)

lemma edge_search_sorted:
  assumes "edges_sorted es"
  shows "cmp_sorted (\<lambda>e. cmp_nat (char_code (fst e)) (char_code b)) es"
  unfolding cmp_sorted_def
  using edges_sorted_nth [OF assms] by (fastforce simp: cmp_nat_def split: if_splits)

lemma edge_search_Ok: "edge_search es b = Inr i \<Longrightarrow> i < length es \<and> fst (es ! i) = b"
  using binary_search_by_Ok [of "\<lambda>e. cmp_nat (char_code (fst e)) (char_code b)" es i]
  by (auto simp: edge_search_def cmp_nat_def split: if_splits intro: char_code_inj)

lemma edge_search_Err:
  assumes "edges_sorted es" and "edge_search es b = Inl i"
  shows "i \<le> length es" and "j < i \<Longrightarrow> char_code (fst (es ! j)) < char_code b"
    and "i \<le> j \<Longrightarrow> j < length es \<Longrightarrow> char_code b < char_code (fst (es ! j))"
proof -
  have cmp: "cmp_nat a c = Less \<longleftrightarrow> a < c" "cmp_nat a c = Greater \<longleftrightarrow> c < a" for a c
    by (auto simp: cmp_nat_def)
  note err = binary_search_by_Err [OF edge_search_sorted [OF assms(1)] assms(2) [unfolded edge_search_def], unfolded cmp]
  from err show "i \<le> length es" and "j < i \<Longrightarrow> char_code (fst (es ! j)) < char_code b"
    and "i \<le> j \<Longrightarrow> j < length es \<Longrightarrow> char_code b < char_code (fst (es ! j))" by blast+
qed

lemma edge_search_Err_fresh:
  assumes "edges_sorted es" and "edge_search es b = Inl i"
  shows "b \<notin> fst ` set es"
  using edge_search_Err [OF assms] by (metis (no_types, lifting) image_iff in_set_conv_nth less_irrefl not_le)

lemma trie_child_map: "edges_sorted es \<Longrightarrow> trie_child es b = map_of es b"
proof (cases "edge_search es b")
  case (Inl i)
  assume "edges_sorted es"
  from edge_search_Err_fresh [OF this Inl] have "map_of es b = None" by (simp add: map_of_eq_None_iff)
  with Inl show ?thesis by (simp add: trie_child_def)
next
  case (Inr i)
  assume s: "edges_sorted es"
  have "i < length es" "(b, snd (es ! i)) = es ! i" using edge_search_Ok [OF Inr] by auto
  then have "(b, snd (es ! i)) \<in> set es" by simp
  with s Inr show ?thesis by (simp add: trie_child_def edges_distinct)
qed

lemma edges_sorted_insert:
  assumes s: "edges_sorted es" and "edge_search es b = Inl i"
  shows "edges_sorted (take i es @ (b, n) # drop i es)"
proof -
  note err = edge_search_Err [OF assms]
  have before: "char_code (fst e) < char_code b" if "e \<in> set (take i es)" for e
    using that err by (auto simp: in_set_conv_nth)
  have after: "char_code b < char_code (fst e)" if "e \<in> set (drop i es)" for e
  proof -
    from that obtain j where "j < length es - i" "e = es ! (i + j)" using err(1) by (auto simp: in_set_conv_nth)
    then show ?thesis using err(3) [of "i + j"] by simp
  qed
  have "sorted_wrt (<) (map (char_code \<circ> fst) (take i es))" "sorted_wrt (<) (map (char_code \<circ> fst) (drop i es))"
    using s by (simp_all add: edges_sorted_def sorted_wrt_take sorted_wrt_drop flip: take_map drop_map)
  with before after show ?thesis by (fastforce simp: edges_sorted_def sorted_wrt_append)
qed

lemma map_of_insert_at:
  assumes "c \<noteq> b"
  shows "map_of (take i es @ (b, n) # drop i es) c = map_of es c"
proof -
  have "map_of es c = map_of (take i es @ drop i es) c" by simp
  also have "\<dots> = map_of (take i es @ (b, n) # drop i es) c"
    using assms unfolding map_of_append by (simp add: map_add_def split: option.split)
  finally show ?thesis by simp
qed

lemma child_or_insert_spec:
  assumes s: "edges_sorted es" and c: "child_or_insert es b = (i, es')"
  shows "i < length es'" and "fst (es' ! i) = b" and "edges_sorted es'"
    and "snd (es' ! i) = (case map_of es b of Some n \<Rightarrow> n | None \<Rightarrow> empty_trie)"
    and "c' \<noteq> b \<Longrightarrow> map_of es' c' = map_of es c'"
    and "set es' \<subseteq> insert (b, empty_trie) (set es)"
proof -
  have "i < length es' \<and> fst (es' ! i) = b \<and> edges_sorted es' \<and>
    snd (es' ! i) = (case map_of es b of Some n \<Rightarrow> n | None \<Rightarrow> empty_trie) \<and>
    (c' \<noteq> b \<longrightarrow> map_of es' c' = map_of es c') \<and> set es' \<subseteq> insert (b, empty_trie) (set es)"
  proof (cases "edge_search es b")
    case (Inr k)
    with trie_child_map [OF s, of b] have "map_of es b = Some (snd (es ! k))" by (simp add: trie_child_def)
    with c Inr edge_search_Ok [OF Inr] s show ?thesis by (auto simp: child_or_insert_def)
  next
    case (Inl k)
    note err = edge_search_Err [OF s Inl]
    have es': "es' = take i es @ (b, empty_trie) # drop i es" and k: "k = i" using c Inl by (auto simp: child_or_insert_def)
    moreover have none: "map_of es b = None" using trie_child_map [OF s, of b] Inl by (simp add: trie_child_def)
    moreover have "edges_sorted es'" unfolding es' using edges_sorted_insert [OF s Inl] k by simp
    moreover have "map_of es' c' = map_of es c'" if "c' \<noteq> b" unfolding es' by (rule map_of_insert_at [OF that])
    ultimately show ?thesis using err(1) none k by (auto simp: es' nth_append dest: in_set_takeD in_set_dropD)
  qed
  then show "i < length es'" "fst (es' ! i) = b" "edges_sorted es'"
    "snd (es' ! i) = (case map_of es b of Some n \<Rightarrow> n | None \<Rightarrow> empty_trie)"
    "c' \<noteq> b \<Longrightarrow> map_of es' c' = map_of es c'" "set es' \<subseteq> insert (b, empty_trie) (set es)" by auto
qed

section \<open>What a trie stores\<close>

inductive trie_wf :: "trie_node \<Rightarrow> bool" where
  "edges_sorted es \<Longrightarrow> (\<And>b n. (b, n) \<in> set es \<Longrightarrow> trie_wf n) \<Longrightarrow> trie_wf (TrieNode rs es)"

inductive_simps trie_wf_simps: "trie_wf (TrieNode rs es)"

fun routes_at :: "trie_node \<Rightarrow> string \<Rightarrow> indexed_route list" where
  "routes_at (TrieNode rs es) [] = rs"
| "routes_at (TrieNode rs es) (b # bs) = (case map_of es b of None \<Rightarrow> [] | Some n \<Rightarrow> routes_at n bs)"

lemma trie_wf_empty [simp]: "trie_wf empty_trie"
  by (simp add: empty_trie_def trie_wf_simps edges_sorted_def)

lemma routes_at_empty [simp]: "routes_at empty_trie p = []"
  by (cases p) (simp_all add: empty_trie_def)

lemma trie_wf_child: "trie_wf (TrieNode rs es) \<Longrightarrow> map_of es b = Some n \<Longrightarrow> trie_wf n"
  by (auto simp: trie_wf_simps dest: map_of_SomeD)

lemma trie_insert_step:
  assumes wf: "trie_wf (TrieNode rs es)" and c: "child_or_insert es b = (i, es')"
    and n': "trie_wf n'"
  shows "trie_wf (TrieNode rs (es'[i := (fst (es' ! i), n')]))"
    and "map_of (es'[i := (fst (es' ! i), n')]) = (map_of es)(b \<mapsto> n')"
proof -
  have s: "edges_sorted es" using wf by (simp add: trie_wf_simps)
  note spec = child_or_insert_spec [OF s c]
  let ?es = "es'[i := (fst (es' ! i), n')]"
  have keys: "map fst ?es = map fst es'" using spec(1) by (simp add: map_update list_update_same_conv)
  then have sorted': "edges_sorted ?es" using spec(3) by (simp add: edges_sorted_def flip: map_map)
  have "trie_wf n" if "(d, n) \<in> set ?es" for d n
  proof -
    from that have "(d, n) = (fst (es' ! i), n') \<or> (d, n) \<in> set es'" using set_update_subset_insert by fastforce
    with spec(6) have "n = n' \<or> n = empty_trie \<or> (d, n) \<in> set es" by auto
    with n' wf show ?thesis by (auto simp: trie_wf_simps)
  qed
  with sorted' show "trie_wf (TrieNode rs ?es)" by (simp add: trie_wf_simps)
  show "map_of ?es = (map_of es)(b \<mapsto> n')"
  proof
    fix d
    have "map_of ?es d = (if d = b then Some n' else map_of es' d)"
    proof (cases "d = b")
      case True
      have "?es ! i = (b, n')" using spec(1,2) by simp
      then have "(b, n') \<in> set ?es" using spec(1) by (metis length_list_update nth_mem)
      with True show ?thesis using edges_distinct [OF sorted'] by simp
    next
      case False
      then have "map_of ?es d = map_of es' d"
        using spec(1,2) by (induction es' arbitrary: i) (auto split: nat.splits)
      with False show ?thesis by simp
    qed
    then show "map_of ?es d = ((map_of es)(b \<mapsto> n')) d" using spec(5) by simp
  qed
qed

lemma trie_insert_at_spec:
  "trie_wf t \<Longrightarrow> trie_wf (trie_insert_at t p r) \<and>
     routes_at (trie_insert_at t p r) q = (if q = p then update_route (routes_at t q) r else routes_at t q)"
proof (induction p arbitrary: t q)
  case Nil
  then show ?case by (cases t; cases q) (auto simp: trie_wf_simps)
next
  case (Cons b bs)
  obtain rs es where t: "t = TrieNode rs es" by (cases t)
  obtain i es' where c: "child_or_insert es b = (i, es')" by (cases "child_or_insert es b")
  have s: "edges_sorted es" using Cons.prems t by (simp add: trie_wf_simps)
  define old where "old = (case map_of es b of Some n \<Rightarrow> n | None \<Rightarrow> empty_trie)"
  have old_wf: "trie_wf old" using Cons.prems trie_wf_child by (auto simp: old_def t split: option.splits)
  have nth: "snd (es' ! i) = old" using child_or_insert_spec(4) [OF s c] by (simp add: old_def)
  let ?n = "trie_insert_at old bs r"
  have eq: "trie_insert_at t (b # bs) r = TrieNode rs (es'[i := (fst (es' ! i), ?n)])"
    by (simp add: t c nth)
  note step = trie_insert_step [OF Cons.prems [unfolded t] c, of ?n]
  show ?case
  proof (cases q)
    case Nil
    then show ?thesis unfolding eq using step(1) Cons.IH [OF old_wf] by (simp add: t)
  next
    case (Cons d ds)
    have "(case map_of es b of None \<Rightarrow> [] | Some n \<Rightarrow> routes_at n e) = routes_at old e" for e
      by (simp add: old_def split: option.splits)
    then show ?thesis unfolding eq using step Cons.IH [OF old_wf] Cons
      by (cases "d = b") (simp_all add: t)
  qed
qed

definition prefix_bytes :: "string option \<Rightarrow> string" where
  "prefix_bytes p = (case p of Some s \<Rightarrow> s | None \<Rightarrow> [])"

lemma trie_insert_wf [simp]: "trie_wf t \<Longrightarrow> trie_wf (trie_insert t p r)"
  using trie_insert_at_spec by (simp add: trie_insert_def)

lemma trie_insert_routes:
  "trie_wf t \<Longrightarrow> routes_at (trie_insert t p r) q =
     (if q = prefix_bytes p then update_route (routes_at t q) r else routes_at t q)"
  using trie_insert_at_spec by (simp add: trie_insert_def prefix_bytes_def)

lemma update_route_fresh:
  "\<forall>q \<in> set rs. ir_upstream_idx q \<noteq> ir_upstream_idx r \<Longrightarrow> set (update_route rs r) = insert r (set rs)"
  by (induction rs) auto

section \<open>What a lookup returns\<close>

definition trie_matches :: "trie_node \<Rightarrow> string \<Rightarrow> string option \<Rightarrow> string option list \<Rightarrow> indexed_route set" where
  "trie_matches t path m ms = {r. \<exists>p. prefix p path \<and> r \<in> set (routes_at t p) \<and> route_ok path m ms r}"

lemma longest_prefix_loop_best:
  "trie_wf node \<Longrightarrow> is_best route_key (A \<union> {r \<in> set (trie_routes node). route_ok path m ms r}) (map_option fst best) \<Longrightarrow>
   is_best route_key (A \<union> {r. \<exists>p. prefix p rest \<and> r \<in> set (routes_at node p) \<and> route_ok path m ms r})
     (map_option fst (longest_prefix_loop path m ms node rest best))"
proof (induction rest arbitrary: node A best)
  case Nil
  then show ?case by (cases node) auto
next
  case (Cons b bs)
  obtain rs es where node: "node = TrieNode rs es" by (cases node)
  have child: "trie_child es b = map_of es b"
    using Cons.prems(1) by (simp add: node trie_wf_simps trie_child_map)
  let ?A = "A \<union> {r \<in> set rs. route_ok path m ms r}"
  have split: "A \<union> {r. \<exists>p. prefix p (b # bs) \<and> r \<in> set (routes_at node p) \<and> route_ok path m ms r} =
    ?A \<union> {r. \<exists>p. prefix p bs \<and> r \<in> set (routes_at node (b # p)) \<and> route_ok path m ms r}"
  proof -
    have "{r. \<exists>p. prefix p (b # bs) \<and> r \<in> set (routes_at node p) \<and> route_ok path m ms r} =
      {r \<in> set (routes_at node []). route_ok path m ms r} \<union>
      {r. \<exists>p. prefix p bs \<and> r \<in> set (routes_at node (b # p)) \<and> route_ok path m ms r}"
      unfolding prefix_Cons by blast
    then show ?thesis unfolding node routes_at.simps(1) by blast
  qed
  show ?case
  proof (cases "map_of es b")
    case None
    with Cons.prems(2) show ?thesis unfolding split by (simp add: node child)
  next
    case (Some n)
    have "trie_wf n" using Cons.prems(1) Some unfolding node by (rule trie_wf_child)
    moreover have "is_best route_key (?A \<union> {r \<in> set (trie_routes n). route_ok path m ms r})
      (map_option fst (best_matching_route_with_reason (trie_routes n) path m ms best))"
      by (rule best_matching_best) (use Cons.prems(2) node in simp)
    ultimately have "is_best route_key (?A \<union> {r. \<exists>p. prefix p bs \<and> r \<in> set (routes_at n p) \<and> route_ok path m ms r})
      (map_option fst (longest_prefix_loop path m ms n bs
        (best_matching_route_with_reason (trie_routes n) path m ms best)))"
      by (rule Cons.IH)
    then show ?thesis unfolding split by (simp add: node child Some)
  qed
qed

lemma longest_prefix_best:
  assumes "trie_wf t"
  shows "is_best route_key (trie_matches t path m ms) (trie_longest_prefix t path m ms)"
  using longest_prefix_loop_best [OF assms, of "{}" path m ms "best_matching_route_with_reason (trie_routes t) path m ms None" path]
    best_matching_best [of "{}" None "trie_routes t" path m ms]
  by (simp add: trie_longest_prefix_def longest_prefix_with_reason_def trie_matches_def)

end
