(* ===== verification/Routing_Index.thy ===== *)
theory Routing_Index
  imports Routing_Trie "HOL-Library.Char_ord" "HOL-Library.List_Lexorder" "HOL-Library.Multiset"
begin

text \<open>
  The route index (\<open>edge/src/routing/index.rs\<close>): one path trie per exact host, per wildcard suffix
  and for routes without a host, and the lookup that combines them.  Upstreams are association lists
  in the iteration order of the source's \<open>HashMap\<close>; only the route of an upstream matters here.
\<close>

section \<open>The index\<close>

record indexed_route_source =
  rs_name :: string
  rs_method :: "string option"
  rs_path_prefix :: "string option"
  rs_path_len :: nat
  rs_host_specific :: bool
  rs_method_specific :: bool
  rs_host_pattern :: "host_pattern option"
  rs_order :: nat

record route_index =
  ri_host_tries :: "string \<rightharpoonup> trie_node"
  ri_wildcard_host_tries :: "string \<rightharpoonup> trie_node"
  ri_default_trie :: trie_node
  ri_default_max_path_len :: nat
  ri_upstream_names :: "string list"
  ri_upstream_methods :: "string option list"

definition empty_index :: route_index where
  "empty_index = \<lparr>ri_host_tries = Map.empty, ri_wildcard_host_tries = Map.empty, ri_default_trie = empty_trie,
     ri_default_max_path_len = 0, ri_upstream_names = [], ri_upstream_methods = []\<rparr>"

definition route_of :: "nat \<Rightarrow> indexed_route_source \<Rightarrow> indexed_route" where
  "route_of i s = \<lparr>ir_upstream_idx = i, ir_path_len = rs_path_len s, ir_host_specific = rs_host_specific s,
     ir_method_specific = rs_method_specific s, ir_order = rs_order s\<rparr>"

text \<open>\<open>entry(key).or_insert_with(RouteTrie::default).insert(..)\<close>\<close>

definition entry_insert :: "(string \<rightharpoonup> trie_node) \<Rightarrow> string \<Rightarrow> string option \<Rightarrow> indexed_route \<Rightarrow> (string \<rightharpoonup> trie_node)" where
  "entry_insert m key p r = m(key \<mapsto> trie_insert (case m key of Some t \<Rightarrow> t | None \<Rightarrow> empty_trie) p r)"

definition add_route :: "indexed_route_source \<Rightarrow> route_index \<Rightarrow> route_index" where
  "add_route s idx =
     (let i = length (ri_upstream_names idx);
          route = route_of i s;
          idx = idx\<lparr>ri_upstream_names := ri_upstream_names idx @ [rs_name s],
                     ri_upstream_methods := ri_upstream_methods idx @ [rs_method s]\<rparr> in
      case rs_host_pattern s of
        Some (WildcardSuffix sfx) \<Rightarrow>
          idx\<lparr>ri_wildcard_host_tries := entry_insert (ri_wildcard_host_tries idx) sfx (rs_path_prefix s) route\<rparr>
      | Some (ExactHost host) \<Rightarrow>
          idx\<lparr>ri_host_tries := entry_insert (ri_host_tries idx) host (rs_path_prefix s) route\<rparr>
      | None \<Rightarrow>
          idx\<lparr>ri_default_max_path_len := max (ri_default_max_path_len idx) (rs_path_len s),
               ri_default_trie := trie_insert (ri_default_trie idx) (rs_path_prefix s) route\<rparr>)"

definition from_ordered_routes :: "indexed_route_source list \<Rightarrow> route_index" where
  "from_ordered_routes srcs = fold add_route srcs empty_index"

definition upstream_source :: "nat \<Rightarrow> string \<times> route_match \<Rightarrow> indexed_route_source" where
  "upstream_source order u =
     (let r = snd u in
      \<lparr>rs_name = fst u, rs_method = normalized_route_method (rm_method r),
       rs_path_prefix = rm_path_prefix r,
       rs_path_len = (case rm_path_prefix r of Some p \<Rightarrow> length p | None \<Rightarrow> 0),
       rs_host_specific = (rm_host r \<noteq> None), rs_method_specific = (rm_method r \<noteq> None),
       rs_host_pattern = Option.bind (rm_host r) parse_configured_host_pattern, rs_order = order\<rparr>)"

definition runtime_source :: "nat \<Rightarrow> string \<times> route_match_policy \<Rightarrow> indexed_route_source" where
  "runtime_source order u =
     (let r = snd u in
      \<lparr>rs_name = fst u, rs_method = rmp_method r, rs_path_prefix = rmp_path_prefix r, rs_path_len = rmp_path_len r,
       rs_host_specific = rmp_host_specific r, rs_method_specific = rmp_method_specific r,
       rs_host_pattern = rmp_host_pattern r, rs_order = order\<rparr>)"

definition number_sources :: "(nat \<Rightarrow> 'u \<Rightarrow> indexed_route_source) \<Rightarrow> 'u list \<Rightarrow> indexed_route_source list" where
  "number_sources f us = map (\<lambda>(i, u). f i u) (enumerate 0 us)"

definition from_upstreams :: "(string \<times> route_match) list \<Rightarrow> route_index" where
  "from_upstreams upstreams = from_ordered_routes (number_sources upstream_source (sort_key fst upstreams))"

definition from_runtime_upstreams :: "(string \<times> route_match_policy) list \<Rightarrow> route_index" where
  "from_runtime_upstreams upstreams = from_ordered_routes (number_sources runtime_source (sort_key fst upstreams))"

section \<open>Lookup\<close>

definition trie_result :: "host_match_kind \<Rightarrow> nat \<Rightarrow> indexed_route \<times> route_decision_reason option \<Rightarrow> host_lookup_result" where
  "trie_result kind wlen p =
     \<lparr>hl_candidate = \<lparr>rc_route = fst p, rc_host_match_kind = kind, rc_wildcard_suffix_len = wlen\<rparr>,
      hl_decision_reason = snd p\<rparr>"

function wildcard_loop ::
    "route_index \<Rightarrow> string \<Rightarrow> string option \<Rightarrow> string \<Rightarrow> host_lookup_result option \<Rightarrow> host_lookup_result option" where
  "wildcard_loop idx path m remaining best =
     (case find_char CHR ''.'' remaining of
        None \<Rightarrow> best
      | Some dot \<Rightarrow>
          let sfx = drop (dot + 1) remaining in
          if sfx = [] then best
          else wildcard_loop idx path m sfx
            (case ri_wildcard_host_tries idx sfx of
               None \<Rightarrow> best
             | Some trie \<Rightarrow> prefer_host_lookup_result best
                 (map_option (trie_result KindWildcard (length sfx))
                   (longest_prefix_with_reason trie path m (ri_upstream_methods idx)))))"
  by pat_completeness auto
termination
  by (relation "measure (\<lambda>(idx, path, m, remaining, best). length remaining)") (auto dest: find_char_Some)

declare wildcard_loop.simps [simp del]

definition lookup_host_candidate ::
    "route_index \<Rightarrow> string \<Rightarrow> string \<Rightarrow> string option \<Rightarrow> host_lookup_result option" where
  "lookup_host_candidate idx path host m =
     (let exact_best = map_option (trie_result KindExact 0)
            (Option.bind (ri_host_tries idx host)
              (\<lambda>trie. longest_prefix_with_reason trie path m (ri_upstream_methods idx)));
          wildcard_best = wildcard_loop idx path m host None in
      prefer_host_lookup_result wildcard_best exact_best)"

definition host_best_of :: "route_index \<Rightarrow> string \<Rightarrow> string option \<Rightarrow> string option \<Rightarrow> host_lookup_result option" where
  "host_best_of idx path host m =
     Option.bind (Option.bind host normalize_host_for_routing) (\<lambda>h. lookup_host_candidate idx path h m)"

text \<open>Indexing \<open>upstream_names\<close> panics out of range: the outer option.\<close>

definition upstream_name :: "route_index \<Rightarrow> route_candidate \<Rightarrow> string option" where
  "upstream_name idx c = vec_get (ri_upstream_names idx) (ir_upstream_idx (rc_route c))"

definition opt_name :: "route_index \<Rightarrow> route_candidate option \<Rightarrow> string option option" where
  "opt_name idx best = (case best of None \<Rightarrow> Some None | Some c \<Rightarrow> map_option Some (upstream_name idx c))"

definition lookup_for_method ::
    "route_index \<Rightarrow> string \<Rightarrow> string option \<Rightarrow> string option \<Rightarrow> string option option" where
  "lookup_for_method idx path host m =
     (let host_best = host_best_of idx path host m;
          slow = opt_name idx (prefer_route_candidate
            (map_option (\<lambda>r. \<lparr>rc_route = r, rc_host_match_kind = KindDefault, rc_wildcard_suffix_len = 0\<rparr>)
              (trie_longest_prefix (ri_default_trie idx) path m (ri_upstream_methods idx)))
            (map_option hl_candidate host_best)) in
      case host_best of
        Some best \<Rightarrow>
          if ri_default_max_path_len idx \<le> ir_path_len (rc_route (hl_candidate best))
          then opt_name idx (Some (hl_candidate best))
          else slow
      | None \<Rightarrow> slow)"

definition lookup :: "route_index \<Rightarrow> string \<Rightarrow> string option \<Rightarrow> string option option" where
  "lookup idx path host = lookup_for_method idx path host None"

fun fast_path_reason :: "route_preference \<Rightarrow> route_decision_reason" where
  "fast_path_reason TakeCandidateHostSpecific = HostSpecificTieBreak"
| "fast_path_reason TakeCandidateExactHost = ExactHostTieBreak"
| "fast_path_reason TakeCandidateWildcardSpecificity = WildcardSpecificityTieBreak"
| "fast_path_reason TakeCandidateMethodSpecific = MethodSpecificTieBreak"
| "fast_path_reason TakeCandidateLexicalOrder = LexicalTieBreak"
| "fast_path_reason _ = HostPathLongerOrEqual"

fun fallback_reason :: "route_preference \<Rightarrow> route_decision_reason" where
  "fallback_reason TakeCandidatePathLen = HostPathLongerOrEqual"
| "fallback_reason TakeCandidateHostSpecific = HostSpecificTieBreak"
| "fallback_reason TakeCandidateExactHost = ExactHostTieBreak"
| "fallback_reason TakeCandidateWildcardSpecificity = WildcardSpecificityTieBreak"
| "fallback_reason TakeCandidateMethodSpecific = MethodSpecificTieBreak"
| "fallback_reason TakeCandidateLexicalOrder = LexicalTieBreak"
| "fallback_reason KeepCurrent = DefaultPathLonger"

definition unwrap_or :: "'a option \<Rightarrow> 'a \<Rightarrow> 'a" where
  "unwrap_or x d = (case x of Some v \<Rightarrow> v | None \<Rightarrow> d)"

definition decide :: "route_index \<Rightarrow> route_candidate \<Rightarrow> route_decision_reason \<Rightarrow> route_decision option option" where
  "decide idx c reason =
     map_option (\<lambda>n. Some \<lparr>rd_upstream = n, rd_matched_path_len = ir_path_len (rc_route c),
       rd_host_specific = ir_host_specific (rc_route c), rd_reason = reason\<rparr>) (upstream_name idx c)"

definition lookup_with_decision_for_method ::
    "route_index \<Rightarrow> string \<Rightarrow> string option \<Rightarrow> string option \<Rightarrow> route_decision option option" where
  "lookup_with_decision_for_method idx path host m =
     (let host_best = host_best_of idx path host m;
          default_best = map_option (trie_result KindDefault 0)
            (longest_prefix_with_reason (ri_default_trie idx) path m (ri_upstream_methods idx));
          slow = (case (default_best, host_best) of
            (Some d, None) \<Rightarrow> decide idx (hl_candidate d) (unwrap_or (hl_decision_reason d) DefaultPathLonger)
          | (None, Some h) \<Rightarrow> decide idx (hl_candidate h) (unwrap_or (hl_decision_reason h) HostTrieNoDefault)
          | (Some cur, Some cand) \<Rightarrow>
              let preference = compare_route_candidate (hl_candidate cur) (hl_candidate cand);
                  selected = (if preference = KeepCurrent then hl_candidate cur else hl_candidate cand) in
              decide idx selected
                (if selected = hl_candidate cand
                 then unwrap_or (hl_decision_reason cand) (fallback_reason preference)
                 else unwrap_or (hl_decision_reason cur) (fallback_reason preference))
          | (None, None) \<Rightarrow> Some None) in
      case host_best of
        Some best \<Rightarrow>
          if ri_default_max_path_len idx \<le> ir_path_len (rc_route (hl_candidate best))
          then decide idx (hl_candidate best) (unwrap_or (hl_decision_reason best)
            (case default_best of
               None \<Rightarrow> HostTrieNoDefault
             | Some d \<Rightarrow> fast_path_reason (compare_route_candidate (hl_candidate d) (hl_candidate best))))
          else slow
      | None \<Rightarrow> slow)"

section \<open>The store a trie implements\<close>

text \<open>What the index relies on: a store of routes under path prefixes whose lookup returns a best
  route among those stored on a prefix of the path.\<close>

locale path_store =
  fixes wf :: "'t \<Rightarrow> bool"
    and empty :: 't
    and ins :: "'t \<Rightarrow> string option \<Rightarrow> indexed_route \<Rightarrow> 't"
    and stored :: "'t \<Rightarrow> string \<Rightarrow> indexed_route list"
    and best_on :: "'t \<Rightarrow> string \<Rightarrow> string option \<Rightarrow> string option list \<Rightarrow> indexed_route option"
  assumes wf_empty: "wf empty"
    and wf_ins: "wf t \<Longrightarrow> wf (ins t p r)"
    and stored_empty: "stored empty q = []"
    and stored_ins: "wf t \<Longrightarrow> stored (ins t p r) q =
          (if q = prefix_bytes p then update_route (stored t q) r else stored t q)"
    and best_on_best: "wf t \<Longrightarrow> is_best route_key
          {r. \<exists>p. prefix p path \<and> r \<in> set (stored t p) \<and> route_ok path m ms r} (best_on t path m ms)"
begin

definition fill :: "(string option \<times> indexed_route) list \<Rightarrow> 't" where
  "fill prs = fold (\<lambda>(p, r) t. ins t p r) prs empty"

lemma fill_stored:
  "distinct (map (ir_upstream_idx \<circ> snd) prs) \<Longrightarrow>
   wf (fill prs) \<and> set (stored (fill prs) q) = {r. \<exists>p. (p, r) \<in> set prs \<and> q = prefix_bytes p}"
proof (induction prs arbitrary: q rule: rev_induct)
  case Nil
  then show ?case by (simp add: fill_def wf_empty stored_empty)
next
  case (snoc pr prs)
  obtain p r where pr: "pr = (p, r)" by (cases pr)
  from snoc have IH: "wf (fill prs)" "\<And>q. set (stored (fill prs) q) = {r. \<exists>p. (p, r) \<in> set prs \<and> q = prefix_bytes p}"
    by auto
  have step: "fill (prs @ [pr]) = ins (fill prs) p r" by (simp add: fill_def pr)
  have "\<forall>s \<in> set (stored (fill prs) q). ir_upstream_idx s \<noteq> ir_upstream_idx r"
    using snoc.prems unfolding IH(2) pr by (force simp: image_iff)
  then have "set (update_route (stored (fill prs) q) r) = insert r (set (stored (fill prs) q))"
    by (rule update_route_fresh)
  then show ?case unfolding step using IH(2) [of q] by (auto simp: wf_ins IH(1) stored_ins pr)
qed

lemma best_on_fill:
  assumes "distinct (map (ir_upstream_idx \<circ> snd) prs)"
  shows "is_best route_key {r. \<exists>p. (p, r) \<in> set prs \<and> prefix (prefix_bytes p) path \<and> route_ok path m ms r}
    (best_on (fill prs) path m ms)"
proof -
  have "{r. \<exists>p. prefix p path \<and> r \<in> set (stored (fill prs) p) \<and> route_ok path m ms r} =
    {r. \<exists>p. (p, r) \<in> set prs \<and> prefix (prefix_bytes p) path \<and> route_ok path m ms r}"
    using fill_stored [OF assms] by auto
  with best_on_best [of "fill prs" path m ms] fill_stored [OF assms] show ?thesis by simp
qed

end

interpretation rt: path_store trie_wf empty_trie trie_insert routes_at trie_longest_prefix
  using longest_prefix_best by unfold_locales (simp_all add: trie_insert_routes trie_matches_def)

section \<open>What each trie of the index holds\<close>

definition bucket :: "route_index \<Rightarrow> host_pattern option \<Rightarrow> trie_node" where
  "bucket idx pat =
     (case pat of
        None \<Rightarrow> ri_default_trie idx
      | Some (ExactHost h) \<Rightarrow> (case ri_host_tries idx h of Some t \<Rightarrow> t | None \<Rightarrow> empty_trie)
      | Some (WildcardSuffix s) \<Rightarrow> (case ri_wildcard_host_tries idx s of Some t \<Rightarrow> t | None \<Rightarrow> empty_trie))"

definition bucket_pairs :: "indexed_route_source list \<Rightarrow> host_pattern option \<Rightarrow> (string option \<times> indexed_route) list" where
  "bucket_pairs srcs pat =
     map (\<lambda>(i, s). (rs_path_prefix s, route_of i s)) (filter (\<lambda>(i, s). rs_host_pattern s = pat) (enumerate 0 srcs))"

lemma from_ordered_routes_snoc: "from_ordered_routes (srcs @ [s]) = add_route s (from_ordered_routes srcs)"
  by (simp add: from_ordered_routes_def)

lemma from_ordered_routes_columns:
  "ri_upstream_names (from_ordered_routes srcs) = map rs_name srcs \<and>
   ri_upstream_methods (from_ordered_routes srcs) = map rs_method srcs"
proof (induction srcs rule: rev_induct)
  case Nil
  then show ?case by (simp add: from_ordered_routes_def empty_index_def)
next
  case (snoc s srcs)
  then show ?case
    by (simp add: from_ordered_routes_snoc add_route_def Let_def split: option.split host_pattern.split)
qed

lemma add_route_bucket:
  "bucket (add_route s idx) pat =
     (if rs_host_pattern s = pat
      then trie_insert (bucket idx pat) (rs_path_prefix s) (route_of (length (ri_upstream_names idx)) s)
      else bucket idx pat)"
  by (auto simp: add_route_def bucket_def entry_insert_def Let_def split: option.splits host_pattern.splits)

lemma bucket_fill: "bucket (from_ordered_routes srcs) pat = rt.fill (bucket_pairs srcs pat)"
proof (induction srcs rule: rev_induct)
  case Nil
  then show ?case
    by (simp add: from_ordered_routes_def empty_index_def bucket_def bucket_pairs_def rt.fill_def
        split: option.split host_pattern.split)
next
  case (snoc s srcs)
  have "bucket_pairs (srcs @ [s]) pat =
    bucket_pairs srcs pat @ (if rs_host_pattern s = pat then [(rs_path_prefix s, route_of (length srcs) s)] else [])"
    by (simp add: bucket_pairs_def enumerate_append_eq)
  with snoc show ?case
    by (simp add: from_ordered_routes_snoc add_route_bucket from_ordered_routes_columns rt.fill_def)
qed

lemma bucket_pairs_set:
  "(p, r) \<in> set (bucket_pairs srcs pat) \<longleftrightarrow>
     (\<exists>i < length srcs. rs_host_pattern (srcs ! i) = pat \<and> p = rs_path_prefix (srcs ! i) \<and> r = route_of i (srcs ! i))"
  by (auto simp: bucket_pairs_def image_iff in_set_enumerate_eq)

lemma bucket_pairs_distinct: "distinct (map (ir_upstream_idx \<circ> snd) (bucket_pairs srcs pat))"
proof -
  have "map (ir_upstream_idx \<circ> snd) (bucket_pairs srcs pat) = map fst (filter (\<lambda>(i, s). rs_host_pattern s = pat) (enumerate 0 srcs))"
    by (auto simp: bucket_pairs_def route_of_def)
  moreover have "distinct (map fst (enumerate 0 srcs))" by simp
  ultimately show ?thesis by (simp add: distinct_map_filter)
qed

lemma default_max_path_len_bound:
  "i < length srcs \<Longrightarrow> rs_host_pattern (srcs ! i) = None \<Longrightarrow>
   rs_path_len (srcs ! i) \<le> ri_default_max_path_len (from_ordered_routes srcs)"
proof (induction srcs arbitrary: i rule: rev_induct)
  case (snoc s srcs)
  have "ri_default_max_path_len (add_route s idx) =
    (if rs_host_pattern s = None then max (ri_default_max_path_len idx) (rs_path_len s) else ri_default_max_path_len idx)" for idx
    by (auto simp: add_route_def Let_def split: option.split host_pattern.split)
  with snoc.prems snoc.IH [of i] show ?case
    by (auto simp: from_ordered_routes_snoc nth_append less_Suc_eq split: if_splits)
qed simp

section \<open>Which routes match a request\<close>

definition source_matches :: "string \<Rightarrow> string option \<Rightarrow> indexed_route_source \<Rightarrow> bool" where
  "source_matches path m s \<longleftrightarrow>
     prefix (prefix_bytes (rs_path_prefix s)) path \<and> prefix_boundary_matches path (rs_path_len s) \<and>
     (case (m, rs_method s) of (Some req, Some expected) \<Rightarrow> eq_ignore_ascii_case expected req | _ \<Rightarrow> True)"

fun host_kind :: "host_pattern option \<Rightarrow> string option \<Rightarrow> (host_match_kind \<times> nat) option" where
  "host_kind None host = Some (KindDefault, 0)"
| "host_kind (Some _) None = None"
| "host_kind (Some (ExactHost h)) (Some host) = (if h = host then Some (KindExact, 0) else None)"
| "host_kind (Some (WildcardSuffix s)) (Some host) =
     (if s \<noteq> [] \<and> suffix (CHR ''.'' # s) host then Some (KindWildcard, length s) else None)"

definition mk_cand :: "host_match_kind \<times> nat \<Rightarrow> indexed_route \<Rightarrow> route_candidate" where
  "mk_cand k r = \<lparr>rc_route = r, rc_host_match_kind = fst k, rc_wildcard_suffix_len = snd k\<rparr>"

definition cands_of ::
    "indexed_route_source list \<Rightarrow> string \<Rightarrow> string option \<Rightarrow> host_pattern option \<Rightarrow> host_match_kind \<times> nat \<Rightarrow> route_candidate set" where
  "cands_of srcs path m pat k =
     {c. \<exists>i < length srcs. rs_host_pattern (srcs ! i) = pat \<and> source_matches path m (srcs ! i) \<and>
       c = mk_cand k (route_of i (srcs ! i))}"

definition matching_candidates ::
    "indexed_route_source list \<Rightarrow> string \<Rightarrow> string option \<Rightarrow> string option \<Rightarrow> route_candidate set" where
  "matching_candidates srcs path host m =
     {c. \<exists>i < length srcs. \<exists>k. source_matches path m (srcs ! i) \<and>
       host_kind (rs_host_pattern (srcs ! i)) (Option.bind host normalize_host_for_routing) = Some k \<and>
       c = mk_cand k (route_of i (srcs ! i))}"

text \<open>A well-formed source: a route is host specific exactly when it has a host pattern.  This is
  what normalisation produces.\<close>

definition source_wf :: "indexed_route_source \<Rightarrow> bool" where
  "source_wf s \<longleftrightarrow> rs_host_specific s = (rs_host_pattern s \<noteq> None)"

lemma route_ok_source:
  "i < length srcs \<Longrightarrow> (prefix (prefix_bytes (rs_path_prefix (srcs ! i))) path \<and>
     route_ok path m (map rs_method srcs) (route_of i (srcs ! i))) \<longleftrightarrow> source_matches path m (srcs ! i)"
  by (auto simp: source_matches_def route_matches_method_def route_of_def vec_get_def split: option.splits)

lemma bucket_best:
  "is_best route_key {r. \<exists>i < length srcs. rs_host_pattern (srcs ! i) = pat \<and> source_matches path m (srcs ! i) \<and> r = route_of i (srcs ! i)}
     (trie_longest_prefix (bucket (from_ordered_routes srcs) pat) path m (map rs_method srcs))"
proof -
  have "{r. \<exists>p. (p, r) \<in> set (bucket_pairs srcs pat) \<and> prefix (prefix_bytes p) path \<and> route_ok path m (map rs_method srcs) r} =
    {r. \<exists>i < length srcs. rs_host_pattern (srcs ! i) = pat \<and> source_matches path m (srcs ! i) \<and> r = route_of i (srcs ! i)}"
    unfolding bucket_pairs_set using route_ok_source [of _ srcs path m] by blast
  with rt.best_on_fill [OF bucket_pairs_distinct [of srcs pat], of path m "map rs_method srcs"] show ?thesis
    by (simp add: bucket_fill)
qed

lemma bucket_cands_best:
  assumes wf: "\<forall>s \<in> set srcs. source_wf s"
  shows "is_best cand_key (cands_of srcs path m pat k)
    (map_option (mk_cand k) (trie_longest_prefix (bucket (from_ordered_routes srcs) pat) path m (map rs_method srcs)))"
proof -
  let ?R = "{r. \<exists>i < length srcs. rs_host_pattern (srcs ! i) = pat \<and> source_matches path m (srcs ! i) \<and> r = route_of i (srcs ! i)}"
  have "ir_host_specific r = (pat \<noteq> None)" if "r \<in> ?R" for r
    using that wf by (auto simp: route_of_def source_wf_def)
  then have "is_best cand_key (mk_cand k ` ?R)
    (map_option (mk_cand k) (trie_longest_prefix (bucket (from_ordered_routes srcs) pat) path m (map rs_method srcs)))"
    by (intro is_best_map [OF bucket_best]) (auto simp: route_key_def cand_key_def mk_cand_def)
  moreover have "mk_cand k ` ?R = cands_of srcs path m pat k" by (auto simp: cands_of_def)
  ultimately show ?thesis by simp
qed

lemma cands_ok:
  assumes "\<forall>s \<in> set srcs. source_wf s" and "(fst k = KindDefault) = (pat = None)"
  shows "\<forall>c \<in> cands_of srcs path m pat k. cand_ok c"
  using assms by (auto simp: cands_of_def cand_ok_def mk_cand_def route_of_def source_wf_def)

section \<open>The loop over wildcard suffixes\<close>

definition dot_suffixes :: "string \<Rightarrow> string set" where
  "dot_suffixes h = {s. s \<noteq> [] \<and> suffix (CHR ''.'' # s) h}"

lemma suffix_first_dot:
  assumes "CHR ''.'' \<notin> set a"
  shows "suffix (CHR ''.'' # s) (a @ CHR ''.'' # t) \<longleftrightarrow> s = t \<or> suffix (CHR ''.'' # s) t"
proof
  assume "suffix (CHR ''.'' # s) (a @ CHR ''.'' # t)"
  then obtain z where z: "a @ CHR ''.'' # t = z @ CHR ''.'' # s" by (auto simp: suffix_def)
  then have "(\<exists>u. a = z @ u \<and> u @ CHR ''.'' # t = CHR ''.'' # s) \<or> (\<exists>u. a @ u = z \<and> CHR ''.'' # t = u @ CHR ''.'' # s)"
    by (auto simp: append_eq_append_conv2)
  with assms show "s = t \<or> suffix (CHR ''.'' # s) t" by (auto simp: Cons_eq_append_conv append_eq_Cons_conv suffix_def)
next
  assume "s = t \<or> suffix (CHR ''.'' # s) t"
  then show "suffix (CHR ''.'' # s) (a @ CHR ''.'' # t)"
    by (auto simp: suffix_def)
qed

lemma dot_suffixes_step:
  "dot_suffixes h =
     (case find_char CHR ''.'' h of
        None \<Rightarrow> {}
      | Some d \<Rightarrow> if drop (d + 1) h = [] then {} else insert (drop (d + 1) h) (dot_suffixes (drop (d + 1) h)))"
proof (cases "find_char CHR ''.'' h")
  case None
  then have "CHR ''.'' \<notin> set h" by (simp add: find_char_None)
  then have "dot_suffixes h = {}" by (auto simp: dot_suffixes_def suffix_def)
  with None show ?thesis by simp
next
  case (Some d)
  define a t where "a = take d h" and "t = drop (d + 1) h"
  have h': "h = a @ CHR ''.'' # t" and a: "CHR ''.'' \<notin> set a"
    using find_char_split [OF Some] by (simp_all add: a_def t_def)
  have "dot_suffixes h = {s. s \<noteq> [] \<and> (s = t \<or> suffix (CHR ''.'' # s) t)}"
    unfolding dot_suffixes_def h' suffix_first_dot [OF a] by (rule refl)
  also have "\<dots> = (if t = [] then {} else insert t (dot_suffixes t))"
    by (cases "t = []") (auto simp: dot_suffixes_def)
  finally show ?thesis unfolding Some t_def by simp
qed

definition wildcard_cands :: "indexed_route_source list \<Rightarrow> string \<Rightarrow> string option \<Rightarrow> string \<Rightarrow> route_candidate set" where
  "wildcard_cands srcs path m h =
     (\<Union>s \<in> dot_suffixes h. cands_of srcs path m (Some (WildcardSuffix s)) (KindWildcard, length s))"

lemma trie_result_candidate:
  "map_option hl_candidate (map_option (trie_result k w) (longest_prefix_with_reason t path m ms)) =
     map_option (mk_cand (k, w)) (trie_longest_prefix t path m ms)"
  by (cases "longest_prefix_with_reason t path m ms") (simp_all add: trie_longest_prefix_def trie_result_def mk_cand_def)

lemma empty_trie_best: "trie_longest_prefix empty_trie path m ms = None"
  using longest_prefix_best [of empty_trie path m ms] by (auto simp: is_best_def trie_matches_def split: option.splits)

lemma wildcard_step:
  assumes wf: "\<forall>s \<in> set srcs. source_wf s"
    and best: "is_best cand_key A (map_option hl_candidate best)" "\<forall>c \<in> A. cand_ok c"
  shows "is_best cand_key (A \<union> cands_of srcs path m (Some (WildcardSuffix s)) (KindWildcard, length s))
    (map_option hl_candidate
      (case ri_wildcard_host_tries (from_ordered_routes srcs) s of
         None \<Rightarrow> best
       | Some trie \<Rightarrow> prefer_host_lookup_result best
           (map_option (trie_result KindWildcard (length s))
             (longest_prefix_with_reason trie path m (map rs_method srcs)))))"
proof -
  let ?C = "cands_of srcs path m (Some (WildcardSuffix s)) (KindWildcard, length s)"
  let ?t = "bucket (from_ordered_routes srcs) (Some (WildcardSuffix s))"
  let ?x = "map_option (mk_cand (KindWildcard, length s)) (trie_longest_prefix ?t path m (map rs_method srcs))"
  have C: "is_best cand_key ?C ?x" by (rule bucket_cands_best [OF wf])
  have "\<forall>c \<in> ?C. cand_ok c" by (rule cands_ok [OF wf]) simp
  with best have "is_best cand_key (A \<union> ?C) (prefer_route_candidate (map_option hl_candidate best) ?x)"
    by (intro prefer_best [OF _ C]) auto
  moreover have "prefer_route_candidate y None = y" for y by (cases y) simp_all
  ultimately show ?thesis
    by (cases "ri_wildcard_host_tries (from_ordered_routes srcs) s")
      (simp_all add: bucket_def empty_trie_best prefer_host_candidate trie_result_candidate del: option.map_comp)
qed

lemma wildcard_loop_best:
  assumes wf: "\<forall>s \<in> set srcs. source_wf s" and "idx = from_ordered_routes srcs"
    and "is_best cand_key A (map_option hl_candidate best)" and "\<forall>c \<in> A. cand_ok c"
  shows "is_best cand_key (A \<union> wildcard_cands srcs path m h) (map_option hl_candidate (wildcard_loop idx path m h best))"
  using assms(2-)
proof (induction idx path m h best arbitrary: A rule: wildcard_loop.induct)
  case (1 idx path m h best)
  note idx = "1.prems"(1)
  have ms: "ri_upstream_methods idx = map rs_method srcs" by (simp add: idx from_ordered_routes_columns)
  show ?case
  proof (cases "find_char CHR ''.'' h")
    case None
    then have "dot_suffixes h = {}" using dot_suffixes_step [of h] by simp
    with None "1.prems" show ?thesis by (simp add: wildcard_cands_def wildcard_loop.simps [of _ _ _ h])
  next
    case (Some d)
    define t where "t = drop (d + 1) h"
    show ?thesis
    proof (cases "t = []")
      case True
      then have "dot_suffixes h = {}" using dot_suffixes_step [of h] Some by (simp add: t_def)
      with Some True "1.prems" show ?thesis
        by (simp add: wildcard_cands_def t_def wildcard_loop.simps [of _ _ _ h])
    next
      case False
      let ?C = "cands_of srcs path m (Some (WildcardSuffix t)) (KindWildcard, length t)"
      let ?best = "case ri_wildcard_host_tries idx t of None \<Rightarrow> best
        | Some trie \<Rightarrow> prefer_host_lookup_result best (map_option (trie_result KindWildcard (length t))
            (longest_prefix_with_reason trie path m (ri_upstream_methods idx)))"
      have "is_best cand_key (A \<union> ?C) (map_option hl_candidate ?best)"
        using wildcard_step [OF wf "1.prems"(2,3)] unfolding ms unfolding idx .
      moreover have "\<forall>c \<in> A \<union> ?C. cand_ok c"
        using cands_ok [OF wf, of "(KindWildcard, length t)" "Some (WildcardSuffix t)"] "1.prems"(3) by auto
      ultimately have "is_best cand_key (A \<union> ?C \<union> wildcard_cands srcs path m t)
        (map_option hl_candidate (wildcard_loop idx path m t ?best))"
        using "1.IH" [OF Some t_def False idx] by blast
      moreover have "dot_suffixes h = insert t (dot_suffixes t)"
        using dot_suffixes_step [of h] Some False by (simp add: t_def)
      then have "A \<union> wildcard_cands srcs path m h = A \<union> ?C \<union> wildcard_cands srcs path m t"
        by (auto simp: wildcard_cands_def)
      moreover have "wildcard_loop idx path m h best = wildcard_loop idx path m t ?best"
        using False unfolding wildcard_loop.simps [of idx path m h best] Some option.case Let_def t_def [symmetric] by simp
      ultimately show ?thesis by simp
    qed
  qed
qed

section \<open>The lookup returns the best match\<close>

definition host_cands :: "indexed_route_source list \<Rightarrow> string \<Rightarrow> string option \<Rightarrow> string \<Rightarrow> route_candidate set" where
  "host_cands srcs path m h =
     wildcard_cands srcs path m h \<union> cands_of srcs path m (Some (ExactHost h)) (KindExact, 0)"

lemma wildcard_cands_ok: "\<forall>s \<in> set srcs. source_wf s \<Longrightarrow> \<forall>c \<in> wildcard_cands srcs path m h. cand_ok c"
  unfolding wildcard_cands_def using cands_ok [of srcs "(KindWildcard, _)" "Some _" path m] by simp

lemma host_cands_ok: "\<forall>s \<in> set srcs. source_wf s \<Longrightarrow> \<forall>c \<in> host_cands srcs path m h. cand_ok c"
  unfolding host_cands_def using wildcard_cands_ok cands_ok [of srcs "(KindExact, 0)" "Some (ExactHost h)"] by auto

lemma lookup_host_best:
  assumes wf: "\<forall>s \<in> set srcs. source_wf s"
  shows "is_best cand_key (host_cands srcs path m h)
    (map_option hl_candidate (lookup_host_candidate (from_ordered_routes srcs) path h m))"
proof -
  let ?idx = "from_ordered_routes srcs" and ?E = "cands_of srcs path m (Some (ExactHost h)) (KindExact, 0)"
  let ?e = "map_option (mk_cand (KindExact, 0)) (trie_longest_prefix (bucket ?idx (Some (ExactHost h))) path m (map rs_method srcs))"
  have W: "is_best cand_key (wildcard_cands srcs path m h) (map_option hl_candidate (wildcard_loop ?idx path m h None))"
    using wildcard_loop_best [OF wf refl, of "{}" None path m h] by simp
  have E: "is_best cand_key ?E ?e" by (rule bucket_cands_best [OF wf])
  have "is_best cand_key (host_cands srcs path m h)
    (prefer_route_candidate (map_option hl_candidate (wildcard_loop ?idx path m h None)) ?e)"
    using host_cands_ok [OF wf] unfolding host_cands_def by (rule prefer_best [OF W E])
  moreover have "map_option hl_candidate (map_option (trie_result KindExact 0)
      (Option.bind (ri_host_tries ?idx h) (\<lambda>trie. longest_prefix_with_reason trie path m (map rs_method srcs)))) = ?e"
    by (cases "ri_host_tries ?idx h")
      (simp_all add: bucket_def empty_trie_best trie_result_candidate del: option.map_comp)
  ultimately show ?thesis
    by (simp add: lookup_host_candidate_def Let_def prefer_host_candidate from_ordered_routes_columns del: option.map_comp)
qed

definition request_host :: "string option \<Rightarrow> string option" where
  "request_host host = Option.bind host normalize_host_for_routing"

definition request_host_cands :: "indexed_route_source list \<Rightarrow> string \<Rightarrow> string option \<Rightarrow> string option \<Rightarrow> route_candidate set" where
  "request_host_cands srcs path m host = (case request_host host of None \<Rightarrow> {} | Some h \<Rightarrow> host_cands srcs path m h)"

lemma host_best_of_best:
  assumes "\<forall>s \<in> set srcs. source_wf s"
  shows "is_best cand_key (request_host_cands srcs path m host)
      (map_option hl_candidate (host_best_of (from_ordered_routes srcs) path host m))"
    and "\<forall>c \<in> request_host_cands srcs path m host. cand_ok c"
  using lookup_host_best [OF assms] host_cands_ok [OF assms]
  unfolding request_host_cands_def host_best_of_def request_host_def [symmetric]
  by (cases "request_host host"; simp)+

lemma matching_candidates_split:
  "matching_candidates srcs path host m =
     cands_of srcs path m None (KindDefault, 0) \<union> request_host_cands srcs path m host"
proof -
  have host_kind_Some: "host_kind p (Some h) = Some k \<longleftrightarrow>
      p = None \<and> k = (KindDefault, 0) \<or> p = Some (ExactHost h) \<and> k = (KindExact, 0) \<or>
      (\<exists>s \<in> dot_suffixes h. p = Some (WildcardSuffix s) \<and> k = (KindWildcard, length s))" for p h k
    by (cases "(p, Some h)" rule: host_kind.cases) (auto simp: dot_suffixes_def)
  have host_kind_None: "host_kind p None = Some k \<longleftrightarrow> p = None \<and> k = (KindDefault, 0)" for p k
    by (cases p) auto
  show ?thesis
  proof (cases "request_host host")
    case None
    then show ?thesis
      by (auto simp: matching_candidates_def request_host_cands_def request_host_def cands_of_def host_kind_None)
  next
    case (Some h)
    then show ?thesis
      unfolding matching_candidates_def request_host_cands_def request_host_def [symmetric] Some
      by (auto simp: host_kind_Some host_cands_def wildcard_cands_def cands_of_def)
  qed
qed

definition source_name :: "indexed_route_source list \<Rightarrow> route_candidate \<Rightarrow> string" where
  "source_name srcs c = rs_name (srcs ! ir_upstream_idx (rc_route c))"

lemma opt_name_match:
  "c \<in> matching_candidates srcs path host m \<Longrightarrow>
   opt_name (from_ordered_routes srcs) (Some c) = Some (Some (source_name srcs c))"
  by (auto simp: matching_candidates_def opt_name_def upstream_name_def source_name_def mk_cand_def route_of_def
      from_ordered_routes_columns vec_get_def)

lemma opt_name_best:
  "is_best cand_key (matching_candidates srcs path host m) best \<Longrightarrow>
   opt_name (from_ordered_routes srcs) best = Some (map_option (source_name srcs) best)"
  by (cases best) (auto dest!: is_best_SomeD simp: opt_name_match, simp add: opt_name_def)

lemma fast_path_best:
  assumes wf: "\<forall>s \<in> set srcs. source_wf s"
    and H: "is_best cand_key (request_host_cands srcs path m host) (Some c)"
    and long: "ri_default_max_path_len (from_ordered_routes srcs) \<le> ir_path_len (rc_route c)"
  shows "is_best cand_key (matching_candidates srcs path host m) (Some c)"
proof -
  have "rc_host_match_kind c \<noteq> KindDefault" using is_best_SomeD [OF H]
    by (auto simp: request_host_cands_def host_cands_def wildcard_cands_def cands_of_def mk_cand_def split: option.splits)
  then have kind: "KindDefault < rc_host_match_kind c"
    by (cases "rc_host_match_kind c") (simp_all add: less_host_match_kind_def)
  have "cand_key d \<le> cand_key c" if d: "d \<in> cands_of srcs path m None (KindDefault, 0)" for d
  proof -
    from d have "ir_path_len (rc_route d) \<le> ir_path_len (rc_route c)" "rc_host_match_kind d = KindDefault"
      using order_trans [OF default_max_path_len_bound [of _ srcs] long]
      by (auto simp: cands_of_def mk_cand_def route_of_def)
    with kind show ?thesis by (auto simp: cand_key_def less_eq_prod_def less_prod_def)
  qed
  with is_best_SomeD [OF H] show ?thesis by (auto simp: is_best_def matching_candidates_split)
qed

lemma lookup_best:
  assumes wf: "\<forall>s \<in> set srcs. source_wf s"
  obtains best where "is_best cand_key (matching_candidates srcs path host m) best"
    and "lookup_for_method (from_ordered_routes srcs) path host m = Some (map_option (source_name srcs) best)"
proof -
  let ?idx = "from_ordered_routes srcs" and ?D = "cands_of srcs path m None (KindDefault, 0)"
  let ?H = "request_host_cands srcs path m host"
  define hb where "hb = host_best_of ?idx path host m"
  have H: "is_best cand_key ?H (map_option hl_candidate hb)" unfolding hb_def by (rule host_best_of_best [OF wf])
  let ?d = "map_option (\<lambda>r. \<lparr>rc_route = r, rc_host_match_kind = KindDefault, rc_wildcard_suffix_len = 0\<rparr>)
    (trie_longest_prefix (ri_default_trie ?idx) path m (map rs_method srcs))"
  let ?best = "prefer_route_candidate ?d (map_option hl_candidate hb)"
  have "?d = map_option (mk_cand (KindDefault, 0)) (trie_longest_prefix (bucket ?idx None) path m (map rs_method srcs))"
    by (simp add: bucket_def mk_cand_def [abs_def])
  then have D: "is_best cand_key ?D ?d" using bucket_cands_best [OF wf] by simp
  have slow: "is_best cand_key (matching_candidates srcs path host m) ?best"
    unfolding matching_candidates_split
    by (rule prefer_best [OF D H])
      (use cands_ok [OF wf, of "(KindDefault, 0)" None path m] host_best_of_best(2) [OF wf] in auto)
  have eq: "lookup_for_method ?idx path host m =
    (case hb of Some b \<Rightarrow> if ri_default_max_path_len ?idx \<le> ir_path_len (rc_route (hl_candidate b))
        then opt_name ?idx (Some (hl_candidate b)) else opt_name ?idx ?best
     | None \<Rightarrow> opt_name ?idx ?best)"
    unfolding lookup_for_method_def Let_def hb_def [symmetric] from_ordered_routes_columns [THEN conjunct2] by (rule refl)
  show ?thesis
  proof (cases "\<exists>b. hb = Some b \<and> ri_default_max_path_len ?idx \<le> ir_path_len (rc_route (hl_candidate b))")
    case True
    then obtain b where b: "hb = Some b" "ri_default_max_path_len ?idx \<le> ir_path_len (rc_route (hl_candidate b))" by blast
    have best: "is_best cand_key (matching_candidates srcs path host m) (Some (hl_candidate b))"
      by (rule fast_path_best [OF wf _ b(2)]) (use H b in simp)
    from that [OF this] opt_name_best [OF best] eq b show ?thesis by simp
  next
    case False
    then have "lookup_for_method ?idx path host m = opt_name ?idx ?best" using eq by (auto split: option.split)
    with that [OF slow] opt_name_best [OF slow] show ?thesis by simp
  qed
qed

section \<open>Normalised routes\<close>

definition policy_matches :: "string \<Rightarrow> string option \<Rightarrow> string option \<Rightarrow> route_match_policy \<Rightarrow> bool" where
  "policy_matches path host m pol \<longleftrightarrow>
     prefix (prefix_bytes (rmp_path_prefix pol)) path \<and> prefix_boundary_matches path (rmp_path_len pol) \<and>
     (case (m, rmp_method pol) of (Some req, Some expected) \<Rightarrow> eq_ignore_ascii_case expected req | _ \<Rightarrow> True) \<and>
     host_kind (rmp_host_pattern pol) (request_host host) \<noteq> None"

definition policy_rank :: "string option \<Rightarrow> route_match_policy \<Rightarrow> nat \<times> (host_match_kind \<times> nat) \<times> bool" where
  "policy_rank host pol =
     (rmp_path_len pol, the (host_kind (rmp_host_pattern pol) (request_host host)), rmp_method_specific pol)"

definition beats :: "string option \<Rightarrow> string \<times> route_match_policy \<Rightarrow> string \<times> route_match_policy \<Rightarrow> bool" where
  "beats host u v \<longleftrightarrow>
     policy_rank host (snd v) < policy_rank host (snd u) \<or>
     policy_rank host (snd v) = policy_rank host (snd u) \<and> fst u < fst v"

lemma normalized_source_wf:
  "route_match_normalize n r = Inr (snd u) \<Longrightarrow> source_wf (runtime_source i u)"
  by (simp add: source_wf_def runtime_source_def Let_def route_match_normalize_InrD(5))

lemma number_sources_nth: "i < length us \<Longrightarrow> number_sources f us ! i = f i (us ! i)"
  by (simp add: number_sources_def nth_enumerate_eq)

lemma number_sources_length [simp]: "length (number_sources f us) = length us"
  by (simp add: number_sources_def)

lemma number_sources_wf:
  "\<forall>u \<in> set us. \<exists>n r. route_match_normalize n r = Inr (snd u) \<Longrightarrow>
   \<forall>s \<in> set (number_sources runtime_source us). source_wf s"
  by (auto simp: number_sources_def in_set_enumerate_eq) (metis normalized_source_wf nth_mem)

definition policy_cand :: "string option \<Rightarrow> (string \<times> route_match_policy) list \<Rightarrow> nat \<Rightarrow> route_candidate" where
  "policy_cand host us i =
     mk_cand (the (host_kind (rmp_host_pattern (snd (us ! i))) (request_host host))) (route_of i (runtime_source i (us ! i)))"

lemma matching_policies:
  "matching_candidates (number_sources runtime_source us) path host m =
     policy_cand host us ` {i. i < length us \<and> policy_matches path host m (snd (us ! i))}"
proof -
  let ?src = "\<lambda>i. number_sources runtime_source us ! i"
  have "(\<exists>k. source_matches path m (?src i) \<and> host_kind (rs_host_pattern (?src i)) (request_host host) = Some k \<and>
      c = mk_cand k (route_of i (?src i))) \<longleftrightarrow> policy_matches path host m (snd (us ! i)) \<and> c = policy_cand host us i"
    if "i < length us" for i c
    using that by (auto simp: policy_cand_def policy_matches_def source_matches_def number_sources_nth runtime_source_def Let_def)
  then show ?thesis
    unfolding matching_candidates_def request_host_def [symmetric] number_sources_length by blast
qed

lemma source_name_policy: "i < length us \<Longrightarrow> source_name (number_sources runtime_source us) (policy_cand host us i) = fst (us ! i)"
  by (simp add: source_name_def policy_cand_def mk_cand_def route_of_def number_sources_nth runtime_source_def Let_def)

lemma policy_cand_key:
  assumes "policy_matches path host m (snd (us ! i))"
  shows "cand_key (policy_cand host us i) =
    (case policy_rank host (snd (us ! i)) of (l, (k, w), s) \<Rightarrow> (l, k, w, s, - int i))"
proof -
  obtain k w where k: "host_kind (rmp_host_pattern (snd (us ! i))) (request_host host) = Some (k, w)"
    using assms by (auto simp: policy_matches_def)
  then have "k = KindWildcard \<or> w = 0"
    by (cases "(rmp_host_pattern (snd (us ! i)), request_host host)" rule: host_kind.cases) (auto split: if_splits)
  with k show ?thesis
    by (auto simp: cand_key_def policy_cand_def policy_rank_def mk_cand_def route_of_def runtime_source_def Let_def)
qed

lemma sorted_names_order:
  assumes "distinct (map fst us)" and "sorted (map fst us)" and "i < length us" and "j < length us"
  shows "i < j \<longleftrightarrow> fst (us ! i) < fst (us ! j)"
proof -
  have "sorted_wrt (<) (map fst us)" using assms(1,2) by (simp add: strict_sorted_iff)
  then have less: "\<And>a b. a < b \<Longrightarrow> b < length us \<Longrightarrow> fst (us ! a) < fst (us ! b)"
    by (simp add: sorted_wrt_iff_nth_less)
  show ?thesis using less [of i j] less [of j i] assms(3,4) by (metis linorder_neqE_nat order.asym order_less_irrefl)
qed

lemma cand_key_beats:
  assumes "distinct (map fst us)" and "sorted (map fst us)" and "i < length us" and "j < length us"
    and "policy_matches path host m (snd (us ! i))" and "policy_matches path host m (snd (us ! j))"
    and "cand_key (policy_cand host us j) \<le> cand_key (policy_cand host us i)"
  shows "us ! j = us ! i \<or> beats host (us ! i) (us ! j)"
proof (cases "i = j")
  case False
  have "(j < i) = (fst (us ! j) < fst (us ! i))" "(i < j) = (fst (us ! i) < fst (us ! j))"
    using sorted_names_order [OF assms(1,2)] assms(3,4) by blast+
  moreover obtain l k w s l' k' w' s' where
    "policy_rank host (snd (us ! i)) = (l, (k, w), s)" "policy_rank host (snd (us ! j)) = (l', (k', w'), s')"
    by (cases "policy_rank host (snd (us ! i))"; cases "policy_rank host (snd (us ! j))") auto
  ultimately show ?thesis
    using assms(7) False unfolding policy_cand_key [OF assms(5)] policy_cand_key [OF assms(6)] beats_def
    by (auto simp: less_eq_prod_def less_prod_def)
qed simp

text \<open>
  C31. For normalised routes of distinct upstreams, a lookup never panics and returns the upstream whose
  route matches the request and beats every other matching route: longer path prefix first, then exact
  host before wildcard before no host, then the longer wildcard suffix, then a route with a method,
  then the smaller upstream name.  It returns no upstream exactly when no route matches.  A prefix
  matches a path that equals it or continues it with a slash; normalisation keeps a trailing slash, so a
  prefix such as \<open>/api/v2/\<close> does not match \<open>/api/v2/users\<close> (the witness shows both cases), although
  \<open>docs/deployment/validation.md\<close> says it does.
\<close>

theorem lookup_selects_best:
  assumes norm: "\<forall>u \<in> set ups. \<exists>n r. route_match_normalize n r = Inr (snd u)" and dist: "distinct (map fst ups)"
  shows "(\<exists>u \<in> set ups. policy_matches path host m (snd u) \<and>
            lookup_for_method (from_runtime_upstreams ups) path host m = Some (Some (fst u)) \<and>
            (\<forall>v \<in> set ups. policy_matches path host m (snd v) \<longrightarrow> v = u \<or> beats host u v)) \<or>
         (lookup_for_method (from_runtime_upstreams ups) path host m = Some None \<and>
            (\<forall>u \<in> set ups. \<not> policy_matches path host m (snd u)))"
proof -
  define us where "us = sort_key fst ups"
  let ?srcs = "number_sources runtime_source us"
  have us: "set us = set ups" "distinct (map fst us)" "sorted (map fst us)"
    using dist by (simp_all add: us_def distinct_map)
  have wf: "\<forall>s \<in> set ?srcs. source_wf s" using norm unfolding us(1) [symmetric] by (rule number_sources_wf)
  have idx: "from_runtime_upstreams ups = from_ordered_routes ?srcs" by (simp add: from_runtime_upstreams_def us_def)
  obtain best where best: "is_best cand_key (matching_candidates ?srcs path host m) best"
    "lookup_for_method (from_ordered_routes ?srcs) path host m = Some (map_option (source_name ?srcs) best)"
    by (rule lookup_best [OF wf])
  show ?thesis
  proof (cases best)
    case None
    then have "\<not> policy_matches path host m (snd (us ! i))" if "i < length us" for i
      using best(1) that by (auto simp: matching_policies dest: is_best_NoneD)
    then have "\<forall>u \<in> set ups. \<not> policy_matches path host m (snd u)" unfolding us(1) [symmetric] by (metis in_set_conv_nth)
    with None best(2) idx show ?thesis by simp
  next
    case (Some c)
    then obtain i where i: "i < length us" "policy_matches path host m (snd (us ! i))" "c = policy_cand host us i"
      using best(1) by (auto simp: matching_policies dest!: is_best_SomeD)
    have "us ! j = us ! i \<or> beats host (us ! i) (us ! j)"
      if "j < length us" "policy_matches path host m (snd (us ! j))" for j
      by (rule cand_key_beats [OF us(2,3) i(1) that(1) i(2) that(2)])
        (use best(1) that in \<open>auto simp: Some i(3) matching_policies dest: is_best_SomeD\<close>)
    then have "\<forall>v \<in> set ups. policy_matches path host m (snd v) \<longrightarrow> v = us ! i \<or> beats host (us ! i) v"
      unfolding us(1) [symmetric] by (metis in_set_conv_nth)
    moreover have "us ! i \<in> set ups" using i(1) us(1) nth_mem by blast
    ultimately show ?thesis using best(2) i Some idx source_name_policy [OF i(1), of host] by auto
  qed
qed

definition demo_policy :: "string \<Rightarrow> route_match_policy" where
  "demo_policy p = \<lparr>rmp_host = None, rmp_host_pattern = None, rmp_path_prefix = Some p, rmp_method = None,
     rmp_path_len = length p, rmp_host_specific = False, rmp_method_specific = False\<rparr>"

lemma demo_policy_normalized:
  "route_match_normalize ''u'' \<lparr>rm_host = None, rm_path_prefix = Some ''/'', rm_method = None\<rparr> = Inr (demo_policy ''/'')"
  "route_match_normalize ''u'' \<lparr>rm_host = None, rm_path_prefix = Some ''/api'', rm_method = None\<rparr> = Inr (demo_policy ''/api'')"
  "route_match_normalize ''u'' \<lparr>rm_host = None, rm_path_prefix = Some ''/api/'', rm_method = None\<rparr> = Inr (demo_policy ''/api/'')"
  "route_match_normalize ''u'' \<lparr>rm_host = None, rm_path_prefix = Some ''/api/v2/'', rm_method = None\<rparr> = Inr (demo_policy ''/api/v2/'')"
  by (simp_all add: route_match_normalize_def demo_policy_def first_error_def normalize_optional_string_def
      normalized_route_method_def starts_with_def str_eval char_of_eq_iff)

theorem lookup_selects_best_witness:
  "lookup_for_method (from_runtime_upstreams [(''root'', demo_policy ''/''), (''api'', demo_policy ''/api'')])
     ''/api/users'' None (Some ''GET'') = Some (Some ''api'') \<and>
   lookup_for_method (from_runtime_upstreams [(''v1'', demo_policy ''/api/''), (''v2'', demo_policy ''/api/v2/'')])
     ''/api/v2/users'' None (Some ''GET'') = Some None"
proof -
  let ?ups = "[(''root'', demo_policy ''/''), (''api'', demo_policy ''/api'')]"
  let ?slashed = "[(''v1'', demo_policy ''/api/''), (''v2'', demo_policy ''/api/v2/'')]"
  have norm: "\<forall>u \<in> set ?ups. \<exists>n r. route_match_normalize n r = Inr (snd u)"
    "\<forall>u \<in> set ?slashed. \<exists>n r. route_match_normalize n r = Inr (snd u)"
    using demo_policy_normalized by auto
  have dist: "distinct (map fst ?ups)" "distinct (map fst ?slashed)" by simp_all
  note match_defs = policy_matches_def demo_policy_def prefix_bytes_def prefix_boundary_matches_def vec_get_def request_host_def
  have "policy_matches ''/api/users'' None (Some ''GET'') (demo_policy ''/api'')" by (simp add: match_defs)
  moreover have "\<not> beats None (''root'', demo_policy ''/'') (''api'', demo_policy ''/api'')"
    by (simp add: beats_def policy_rank_def demo_policy_def)
  ultimately have "lookup_for_method (from_runtime_upstreams ?ups) ''/api/users'' None (Some ''GET'') = Some (Some ''api'')"
    using lookup_selects_best [OF norm(1) dist(1), of "''/api/users''" None "Some ''GET''"] by auto
  moreover have "\<not> policy_matches ''/api/v2/users'' None (Some ''GET'') (demo_policy p)" if "p \<in> {''/api/'', ''/api/v2/''}" for p
    using that by (auto simp: match_defs)
  then have "lookup_for_method (from_runtime_upstreams ?slashed) ''/api/v2/users'' None (Some ''GET'') = Some None"
    using lookup_selects_best [OF norm(2) dist(2), of "''/api/v2/users''" None "Some ''GET''"] by auto
  ultimately show ?thesis by blast
qed

text \<open>
  C32. The lookup that also explains its decision selects the same upstream as the plain lookup, on
  every index and request.
\<close>

theorem lookup_decision_agrees:
  "map_option (map_option rd_upstream) (lookup_with_decision_for_method idx path host m) =
     lookup_for_method idx path host m"
proof -
  define hb where "hb = host_best_of idx path host m"
  define db where "db = longest_prefix_with_reason (ri_default_trie idx) path m (ri_upstream_methods idx)"
  have decide: "map_option (map_option rd_upstream) (decide idx c r) = opt_name idx (Some c)" for c r
    by (simp add: decide_def opt_name_def option.map_comp comp_def)
  have none: "opt_name idx None = Some None" by (simp add: opt_name_def)
  show ?thesis
    unfolding lookup_with_decision_for_method_def lookup_for_method_def Let_def trie_longest_prefix_def
      hb_def [symmetric] db_def [symmetric]
    by (cases hb; cases db) (auto simp: decide none trie_result_def Let_def)
qed

text \<open>The index does not depend on the iteration order of the map it is built from.\<close>

lemma index_order_independent:
  assumes "mset ups = mset ups'" and "distinct (map fst ups)"
  shows "from_runtime_upstreams ups = from_runtime_upstreams ups'"
proof -
  have "inj_on fst (set ups)" using assms(2) by (simp add: distinct_map)
  moreover have "mset ups = mset (sort_key fst ups')" using assms(1) by simp
  ultimately have "sort_key fst ups = sort_key fst ups'" by (intro sort_key_inj_key_eq) simp_all
  then show ?thesis by (simp add: from_runtime_upstreams_def)
qed

text \<open>Forwarding hands the whole request target, query included, to the lookup.  A query right after
  the prefix is not a segment boundary, so the route of \<open>/api\<close> does not serve \<open>/api?x=1\<close>.\<close>

lemma query_hides_route:
  "lookup_for_method (from_runtime_upstreams [(''api'', demo_policy ''/api'')]) ''/api'' None None = Some (Some ''api'')"
  "lookup_for_method (from_runtime_upstreams [(''api'', demo_policy ''/api'')]) ''/api?x=1'' None None = Some None"
proof -
  let ?ups = "[(''api'', demo_policy ''/api'')]"
  have norm: "\<forall>s \<in> set (number_sources runtime_source ?ups). source_wf s"
    using number_sources_wf [of ?ups] demo_policy_normalized by auto
  have idx: "from_runtime_upstreams ?ups = from_ordered_routes (number_sources runtime_source ?ups)"
    by (simp add: from_runtime_upstreams_def)
  have hit: "policy_matches ''/api'' None None (demo_policy ''/api'')"
    and miss: "\<not> policy_matches ''/api?x=1'' None None (demo_policy ''/api'')"
    by (simp_all add: policy_matches_def demo_policy_def prefix_bytes_def prefix_boundary_matches_def vec_get_def request_host_def)
  have cands: "matching_candidates (number_sources runtime_source ?ups) path None None =
    (if policy_matches path None None (demo_policy ''/api'') then {policy_cand None ?ups 0} else {})" for path
    by (auto simp: matching_policies)
  obtain b where b: "is_best cand_key {policy_cand None ?ups 0} b"
    "lookup_for_method (from_runtime_upstreams ?ups) ''/api'' None None = Some (map_option (source_name (number_sources runtime_source ?ups)) b)"
    using lookup_best [OF norm, of "''/api''" None None, folded idx] unfolding cands if_P [OF hit] by metis
  from b(1) have "b = Some (policy_cand None ?ups 0)" by (cases b) (simp_all add: is_best_def)
  with b(2) show "lookup_for_method (from_runtime_upstreams ?ups) ''/api'' None None = Some (Some ''api'')"
    using source_name_policy [of 0 ?ups None] by simp
  obtain c where c: "is_best cand_key {} c"
    "lookup_for_method (from_runtime_upstreams ?ups) ''/api?x=1'' None None = Some (map_option (source_name (number_sources runtime_source ?ups)) c)"
    using lookup_best [OF norm, of "''/api?x=1''" None None, folded idx] unfolding cands if_not_P [OF miss] by metis
  from c(1) have "c = None" by (cases c) (simp_all add: is_best_def)
  with c(2) show "lookup_for_method (from_runtime_upstreams ?ups) ''/api?x=1'' None None = Some None" by simp
qed

end
