(* ===== verification/Routing_Scan.thy ===== *)
theory Routing_Scan
  imports Routing_Index
begin

text \<open>
  The linear scan over all upstreams (\<open>edge/src/routing/scan.rs\<close>), the reference against which tests
  and benchmarks compare the route index, and how far the two agree.
\<close>

section \<open>The scan\<close>

record scan_match =
  sm_name :: string
  sm_len :: nat
  sm_host_specific :: bool
  sm_kind :: host_match_kind
  sm_wildcard_len :: nat
  sm_method_specific :: bool

definition scan_method_match :: "string option \<Rightarrow> string option \<Rightarrow> bool" where
  "scan_method_match route_method mt =
     (case (map_option trim route_method, map_option trim mt) of
        (Some r, Some q) \<Rightarrow> eq_ignore_ascii_case r q
      | (Some _, None) \<Rightarrow> True
      | (None, _) \<Rightarrow> True)"

definition scan_host_match :: "string option \<Rightarrow> string option \<Rightarrow> bool \<times> host_match_kind \<times> nat" where
  "scan_host_match route_host req_host =
     (case (route_host, req_host) of
        (None, _) \<Rightarrow> (True, KindDefault, 0)
      | (Some _, None) \<Rightarrow> (False, KindDefault, 0)
      | (Some rh, Some qh) \<Rightarrow>
          (case parse_configured_host_pattern_ref rh of
             Some (ExactHost h) \<Rightarrow> (eq_ignore_ascii_case h qh, KindExact, 0)
           | Some (WildcardSuffix s) \<Rightarrow>
               let suffix_start = length qh - length s in
               (length qh > length s + 1 \<and> eq_ignore_ascii_case (drop suffix_start qh) s \<and>
                  qh ! (suffix_start - 1) = CHR ''.'',
                KindWildcard, length s)
           | None \<Rightarrow> (False, KindDefault, 0)))"

text \<open>\<open>None\<close> stands for \<open>continue\<close>.\<close>

definition scan_path_len :: "string option \<Rightarrow> string \<Rightarrow> nat option" where
  "scan_path_len path_prefix path =
     (case path_prefix of
        None \<Rightarrow> Some 0
      | Some p \<Rightarrow>
          if length p > length path then None
          else if p \<noteq> [] \<and> path ! (length p - 1) \<noteq> last p then None
          else if \<not> starts_with p path then None
          else if \<not> prefix_boundary_matches path (length p) then None
          else Some (length p))"

definition scan_entry :: "string \<Rightarrow> string option \<Rightarrow> string option \<Rightarrow> string \<times> route_match \<Rightarrow> scan_match option" where
  "scan_entry path req_host mt u =
     (let r = snd u;
          (has_host_match, kind, wlen) = scan_host_match (rm_host r) req_host in
      if \<not> scan_method_match (rm_method r) mt then None
      else case scan_path_len (rm_path_prefix r) path of
        None \<Rightarrow> None
      | Some len \<Rightarrow>
          if \<not> has_host_match then None
          else Some \<lparr>sm_name = fst u, sm_len = len, sm_host_specific = (rm_host r \<noteq> None), sm_kind = kind,
            sm_wildcard_len = wlen,
            sm_method_specific = (case rm_method r of Some v \<Rightarrow> trim v \<noteq> [] | None \<Rightarrow> False)\<rparr>)"

definition scan_better :: "scan_match \<Rightarrow> scan_match \<Rightarrow> bool" where
  "scan_better e b \<longleftrightarrow>
     sm_len e > sm_len b \<or>
     (sm_len e = sm_len b \<and> sm_host_specific e \<and> \<not> sm_host_specific b) \<or>
     (sm_len e = sm_len b \<and> sm_host_specific e = sm_host_specific b \<and> sm_kind e > sm_kind b) \<or>
     (sm_len e = sm_len b \<and> sm_host_specific e = sm_host_specific b \<and> sm_kind e = KindWildcard \<and>
        sm_kind b = KindWildcard \<and> sm_wildcard_len e > sm_wildcard_len b) \<or>
     (sm_len e = sm_len b \<and> sm_host_specific e = sm_host_specific b \<and> sm_kind e = sm_kind b \<and>
        sm_method_specific e \<and> \<not> sm_method_specific b) \<or>
     (sm_len e = sm_len b \<and> sm_host_specific e = sm_host_specific b \<and> sm_kind e = sm_kind b \<and>
        sm_method_specific e = sm_method_specific b \<and> sm_name e < sm_name b)"

fun scan_loop ::
    "string \<Rightarrow> string option \<Rightarrow> string option \<Rightarrow> (string \<times> route_match) list \<Rightarrow> scan_match option \<Rightarrow> scan_match option" where
  "scan_loop path req_host mt [] best = best"
| "scan_loop path req_host mt (u # us) best =
     (case scan_entry path req_host mt u of
        None \<Rightarrow> scan_loop path req_host mt us best
      | Some e \<Rightarrow> scan_loop path req_host mt us
          (case best of
             None \<Rightarrow> Some e
           | Some b \<Rightarrow> if scan_better e b then Some e else Some b))"

definition scan_lookup_for_method ::
    "(string \<times> route_match) list \<Rightarrow> string \<Rightarrow> string option \<Rightarrow> string option \<Rightarrow> string option" where
  "scan_lookup_for_method upstreams path host mt =
     map_option sm_name (scan_loop path (request_host host) mt upstreams None)"

definition scan_lookup :: "(string \<times> route_match) list \<Rightarrow> string \<Rightarrow> string option \<Rightarrow> string option" where
  "scan_lookup upstreams path host = scan_lookup_for_method upstreams path host None"

section \<open>The scan depends on the iteration order\<close>

text \<open>With two wildcard routes that match, the name decides before the length of the suffix does:
  iterating over the map in another order gives another upstream.\<close>

definition wildcard_route :: "string \<Rightarrow> route_match" where
  "wildcard_route h = \<lparr>rm_host = Some h, rm_path_prefix = None, rm_method = None\<rparr>"

lemma wildcard_route_entry:
  "scan_entry ''/'' (Some ''x.b.c'') None (n, wildcard_route ''*.c'') =
     Some \<lparr>sm_name = n, sm_len = 0, sm_host_specific = True, sm_kind = KindWildcard, sm_wildcard_len = 1, sm_method_specific = False\<rparr>"
  "scan_entry ''/'' (Some ''x.b.c'') None (n, wildcard_route ''*.b.c'') =
     Some \<lparr>sm_name = n, sm_len = 0, sm_host_specific = True, sm_kind = KindWildcard, sm_wildcard_len = 3, sm_method_specific = False\<rparr>"
  by (simp_all add: scan_entry_def wildcard_route_def scan_host_match_def scan_method_match_def scan_path_len_def
      parse_configured_host_pattern_ref_def parsed_host_for_routing_def rsplit_once_def strip_prefix_def
      trim_end_matches_def str_eval char_of_eq_iff)

lemma request_host_plain: "request_host (Some ''x.b.c'') = Some ''x.b.c''"
  by (simp add: request_host_def normalize_host_for_routing_def parsed_host_for_routing_def rsplit_once_def strip_prefix_def
      trim_end_matches_def host_has_uppercase_ascii_def is_ascii_uppercase_def str_eval char_of_eq_iff)

lemma scan_order_dependent:
  "scan_lookup [(''a'', wildcard_route ''*.c''), (''b'', wildcard_route ''*.b.c'')] ''/'' (Some ''x.b.c'') = Some ''b''"
  "scan_lookup [(''b'', wildcard_route ''*.b.c''), (''a'', wildcard_route ''*.c'')] ''/'' (Some ''x.b.c'') = Some ''a''"
  by (simp_all add: scan_lookup_def scan_lookup_for_method_def request_host_plain wildcard_route_entry scan_better_def)

section \<open>Each route is judged alike\<close>

text \<open>What the comparison needs of a route: its host parses and its method is not blank.\<close>

definition scan_comparable :: "route_match \<Rightarrow> bool" where
  "scan_comparable r \<longleftrightarrow>
     (case rm_host r of Some h \<Rightarrow> parse_configured_host_pattern h \<noteq> None | None \<Rightarrow> True) \<and>
     (case rm_method r of Some v \<Rightarrow> trim v \<noteq> [] | None \<Rightarrow> True)"

lemma scan_path_len_iff:
  "scan_path_len p path = Some l \<longleftrightarrow>
     prefix (prefix_bytes p) path \<and> prefix_boundary_matches path (length (prefix_bytes p)) \<and> l = length (prefix_bytes p)"
proof (cases p)
  case None
  then show ?thesis by (auto simp: scan_path_len_def prefix_bytes_def prefix_boundary_matches_def)
next
  case (Some q)
  have "length q \<le> length path \<and> (q \<noteq> [] \<longrightarrow> path ! (length q - 1) = last q)" if "prefix q path"
    using that by (auto simp: prefix_def last_conv_nth nth_append)
  then show ?thesis using Some by (auto simp: scan_path_len_def prefix_bytes_def starts_with_def)
qed

fun lower_pattern :: "host_pattern \<Rightarrow> host_pattern" where
  "lower_pattern (ExactHost h) = ExactHost (to_ascii_lowercase h)"
| "lower_pattern (WildcardSuffix s) = WildcardSuffix (to_ascii_lowercase s)"

lemma ascii_lower_star [simp]: "ascii_lower c = CHR ''*'' \<longleftrightarrow> c = CHR ''*''"
  by (rule ascii_lower_fixed) (simp_all add: char_code_def)

lemma star_lower: "CHR ''*'' \<in> set (to_ascii_lowercase s) \<longleftrightarrow> CHR ''*'' \<in> set s"
  by (rule set_lowercase_iff) simp

lemma strip_prefix_lower: "strip_prefix ''*.'' (to_ascii_lowercase s) = map_option to_ascii_lowercase (strip_prefix ''*.'' s)"
proof (cases s)
  case (Cons c t)
  have "CHR ''*'' = ascii_lower x \<longleftrightarrow> x = CHR ''*''" "CHR ''.'' = ascii_lower x \<longleftrightarrow> x = CHR ''.''" for x
    using ascii_lower_star ascii_lower_dot by metis+
  then show ?thesis using Cons by (cases t) (auto simp: strip_prefix_def to_ascii_lowercase_def)
qed (simp add: strip_prefix_def to_ascii_lowercase_def)

lemma configured_pattern_lower:
  "parse_configured_host_pattern raw = map_option lower_pattern (parse_configured_host_pattern_ref raw)"
proof (cases "parsed_host_for_routing raw")
  case None
  then show ?thesis by (simp add: parse_configured_host_pattern_def parse_configured_host_pattern_ref_def normalize_host_lower)
next
  case (Some h)
  then show ?thesis
    by (simp add: parse_configured_host_pattern_def parse_configured_host_pattern_ref_def normalize_host_lower
        strip_prefix_lower star_lower split: option.splits) (auto simp: to_ascii_lowercase_def)
qed

lemma eq_ignore_lower: "to_ascii_lowercase q = q \<Longrightarrow> eq_ignore_ascii_case h q \<longleftrightarrow> to_ascii_lowercase h = q"
  by (simp add: eq_ignore_ascii_case_def)

lemma wildcard_tail:
  assumes q: "to_ascii_lowercase q = q" and dot: "\<not> prefix ''.'' q"
  shows "(length q > length s + 1 \<and> eq_ignore_ascii_case (drop (length q - length s) q) s \<and>
      q ! (length q - length s - 1) = CHR ''.'') \<longleftrightarrow> suffix (CHR ''.'' # to_ascii_lowercase s) q"
proof
  let ?k = "length q - length s"
  assume h: "length q > length s + 1 \<and> eq_ignore_ascii_case (drop ?k q) s \<and> q ! (?k - 1) = CHR ''.''"
  then have k: "?k - 1 < length q" "Suc (?k - 1) = ?k" by auto
  have "to_ascii_lowercase (drop ?k q) = drop ?k q" using q by (metis drop_map to_ascii_lowercase_def)
  with h have "drop ?k q = to_ascii_lowercase s" by (simp add: eq_ignore_ascii_case_def)
  moreover have "q = take (?k - 1) q @ q ! (?k - 1) # drop ?k q" using id_take_nth_drop [OF k(1)] k(2) by simp
  ultimately show "suffix (CHR ''.'' # to_ascii_lowercase s) q" using h by (metis suffixI)
next
  assume "suffix (CHR ''.'' # to_ascii_lowercase s) q"
  then obtain z where z: "q = z @ CHR ''.'' # to_ascii_lowercase s" by (auto simp: suffix_def)
  with dot have "z \<noteq> []" by auto
  then have "0 < length z" by simp
  moreover have len: "length (to_ascii_lowercase s) = length s" by (simp add: to_ascii_lowercase_def)
  ultimately show "length q > length s + 1 \<and> eq_ignore_ascii_case (drop (length q - length s) q) s \<and>
      q ! (length q - length s - 1) = CHR ''.''"
    by (simp add: z len eq_ignore_ascii_case_def nth_append)
qed

lemma scan_host_match_kind:
  assumes q: "\<And>h. qh = Some h \<Longrightarrow> to_ascii_lowercase h = h \<and> \<not> prefix ''.'' h"
    and host: "case rh of Some h \<Rightarrow> parse_configured_host_pattern h \<noteq> None | None \<Rightarrow> True"
  shows "host_kind (Option.bind rh parse_configured_host_pattern) qh =
    (case scan_host_match rh qh of (ok, k, w) \<Rightarrow> if ok then Some (k, w) else None)"
proof (cases rh)
  case None
  then show ?thesis by (simp add: scan_host_match_def)
next
  case (Some r)
  with host obtain pat where pat: "parse_configured_host_pattern_ref r = Some pat"
    by (auto simp: configured_pattern_lower)
  show ?thesis
  proof (cases qh)
    case None
    then show ?thesis using Some pat by (cases pat) (simp_all add: scan_host_match_def configured_pattern_lower)
  next
    case (Some h)
    note h = q [OF Some]
    have ne: "sfx \<noteq> []" if "pat = WildcardSuffix sfx" for sfx
      using pat that by (auto simp: parse_configured_host_pattern_ref_def split: option.splits if_splits bind_splits)
    have len: "length (to_ascii_lowercase sfx) = length sfx" "to_ascii_lowercase sfx = [] \<longleftrightarrow> sfx = []" for sfx
      by (simp_all add: to_ascii_lowercase_def)
    show ?thesis
      using \<open>rh = Some r\<close> Some pat h ne wildcard_tail [of h, OF conjunct1 [OF h] conjunct2 [OF h]]
      by (cases pat) (simp_all add: scan_host_match_def configured_pattern_lower eq_ignore_lower len Let_def)
  qed
qed

definition request_ok :: "string option \<Rightarrow> string option \<Rightarrow> bool" where
  "request_ok qh mt \<longleftrightarrow>
     (case qh of Some h \<Rightarrow> to_ascii_lowercase h = h \<and> \<not> prefix ''.'' h | None \<Rightarrow> True) \<and>
     (case mt of Some v \<Rightarrow> trim v = v | None \<Rightarrow> True)"

definition entry_for :: "string \<Rightarrow> nat \<Rightarrow> bool \<Rightarrow> bool \<Rightarrow> host_match_kind \<times> nat \<Rightarrow> scan_match" where
  "entry_for n len hs ms k = \<lparr>sm_name = n, sm_len = len, sm_host_specific = hs, sm_kind = fst k,
     sm_wildcard_len = snd k, sm_method_specific = ms\<rparr>"

lemma upstream_source_wf: "scan_comparable (snd u) \<Longrightarrow> source_wf (upstream_source i u)"
  by (auto simp: scan_comparable_def source_wf_def upstream_source_def Let_def split: option.splits)

lemma scan_method_source:
  assumes "scan_comparable r" and "request_ok qh mt"
  shows "scan_method_match (rm_method r) mt \<longleftrightarrow>
    (case (mt, normalized_route_method (rm_method r)) of (Some q, Some e) \<Rightarrow> eq_ignore_ascii_case e q | _ \<Rightarrow> True)"
  using assms
  by (auto simp: scan_method_match_def scan_comparable_def request_ok_def normalized_route_method_def
      normalize_optional_string_def split: option.splits)

lemma scan_entry_source:
  assumes c: "scan_comparable (snd u)" and q: "request_ok qh mt"
  shows "scan_entry path qh mt u =
    (if source_matches path mt (upstream_source i u)
     then map_option (entry_for (fst u) (rs_path_len (upstream_source i u)) (rs_host_specific (upstream_source i u))
       (rs_method_specific (upstream_source i u))) (host_kind (rs_host_pattern (upstream_source i u)) qh)
     else None)"
proof -
  let ?r = "snd u"
  obtain ok k w where hm: "scan_host_match (rm_host ?r) qh = (ok, k, w)" by (cases "scan_host_match (rm_host ?r) qh")
  have hk: "host_kind (Option.bind (rm_host ?r) parse_configured_host_pattern) qh = (if ok then Some (k, w) else None)"
    using scan_host_match_kind [of qh "rm_host ?r"] c q hm
    by (auto simp: scan_comparable_def request_ok_def split: option.splits)
  have len: "length (prefix_bytes p) = (case p of Some x \<Rightarrow> length x | None \<Rightarrow> 0)" for p
    by (simp add: prefix_bytes_def split: option.splits)
  have ms: "(case rm_method ?r of Some v \<Rightarrow> trim v \<noteq> [] | None \<Rightarrow> False) = (rm_method ?r \<noteq> None)"
    using c by (auto simp: scan_comparable_def split: option.splits)
  have path: "scan_path_len p path = (if prefix (prefix_bytes p) path \<and> prefix_boundary_matches path (length (prefix_bytes p))
      then Some (length (prefix_bytes p)) else None)" for p
    using scan_path_len_iff [of p path] by (cases "scan_path_len p path") auto
  show ?thesis
    unfolding scan_entry_def Let_def hm prod.case scan_method_source [OF c q] path ms
    by (simp add: source_matches_def upstream_source_def Let_def hk entry_for_def len)
qed

section \<open>The scan selects by a key\<close>

definition name_pos :: "(string \<times> 'a) list \<Rightarrow> string \<Rightarrow> nat" where
  "name_pos us n = length (takeWhile (\<lambda>u. fst u \<noteq> n) us)"

lemma name_pos_nth:
  assumes "distinct (map fst us)" and "i < length us"
  shows "name_pos us (fst (us ! i)) = i"
proof -
  have "fst (us ! j) \<noteq> fst (us ! i)" if "j < i" for j
    using assms that nth_eq_iff_index_eq [OF assms(1), of j i] by simp
  then have "takeWhile (\<lambda>u. fst u \<noteq> fst (us ! i)) us = take i us"
    using assms(2) by (intro takeWhile_eq_take_P_nth) auto
  then show ?thesis using assms(2) by (simp add: name_pos_def)
qed

definition scan_key :: "(string \<times> 'a) list \<Rightarrow> scan_match \<Rightarrow> nat \<times> host_match_kind \<times> bool \<times> int" where
  "scan_key us e = (sm_len e, sm_kind e, sm_method_specific e, - int (name_pos us (sm_name e)))"

text \<open>All routes of the set that matched by a wildcard did so with suffixes of one length.\<close>

definition entries_uniform :: "scan_match set \<Rightarrow> bool" where
  "entries_uniform E \<longleftrightarrow> (\<forall>e \<in> E. \<forall>b \<in> E. sm_kind e = KindWildcard \<longrightarrow> sm_kind b = KindWildcard \<longrightarrow>
     sm_wildcard_len e = sm_wildcard_len b)"

definition entry_ok :: "(string \<times> 'a) list \<Rightarrow> scan_match \<Rightarrow> bool" where
  "entry_ok us e \<longleftrightarrow> sm_host_specific e = (sm_kind e \<noteq> KindDefault) \<and> sm_name e \<in> fst ` set us"

lemma scan_better_key:
  assumes us: "distinct (map fst us)" "sorted (map fst us)" and e: "entry_ok us e" and b: "entry_ok us b"
    and uniform: "sm_kind e = KindWildcard \<Longrightarrow> sm_kind b = KindWildcard \<Longrightarrow> sm_wildcard_len e = sm_wildcard_len b"
  shows "scan_better e b \<longleftrightarrow> scan_key us b < scan_key us e"
proof -
  have nth: "\<exists>i < length us. sm_name x = fst (us ! i)" if "entry_ok us x" for x
    using that by (metis entry_ok_def imageE in_set_conv_nth)
  from nth [OF e] obtain i where i: "i < length us" "sm_name e = fst (us ! i)" by blast
  from nth [OF b] obtain j where j: "j < length us" "sm_name b = fst (us ! j)" by blast
  have "sm_name e < sm_name b \<longleftrightarrow> name_pos us (sm_name e) < name_pos us (sm_name b)"
    using sorted_names_order [OF us i(1) j(1)] i j us(1) by (simp add: name_pos_nth)
  then show ?thesis
    using e b uniform
    by (cases "sm_kind e"; cases "sm_kind b")
      (auto simp: scan_better_def scan_key_def entry_ok_def less_prod_def' less_host_match_kind_def)
qed

lemma bex_Cons_Some:
  "f u = None \<Longrightarrow> {e. \<exists>v \<in> set (u # us). f v = Some e} = {e. \<exists>v \<in> set us. f v = Some e}"
  "f u = Some x \<Longrightarrow> A \<union> {e. \<exists>v \<in> set (u # us). f v = Some e} = A \<union> {x} \<union> {e. \<exists>v \<in> set us. f v = Some e}"
  by auto

lemma scan_loop_best:
  assumes us: "distinct (map fst us)" "sorted (map fst us)"
  shows "is_best (scan_key us) A best \<Longrightarrow>
    \<forall>e \<in> A \<union> {e. \<exists>u \<in> set ups. scan_entry path qh mt u = Some e}. entry_ok us e \<Longrightarrow>
    entries_uniform (A \<union> {e. \<exists>u \<in> set ups. scan_entry path qh mt u = Some e}) \<Longrightarrow>
    is_best (scan_key us) (A \<union> {e. \<exists>u \<in> set ups. scan_entry path qh mt u = Some e})
      (scan_loop path qh mt ups best)"
proof (induction ups arbitrary: A best)
  case (Cons u ups)
  let ?E = "{e. \<exists>u \<in> set ups. scan_entry path qh mt u = Some e}"
  show ?case
  proof (cases "scan_entry path qh mt u")
    case None
    from Cons.IH [OF Cons.prems(1)] Cons.prems(2,3) show ?thesis
      unfolding scan_loop.simps None option.case bex_Cons_Some(1) [of "scan_entry path qh mt", OF None] by blast
  next
    case (Some e)
    note split = bex_Cons_Some(2) [of "scan_entry path qh mt", OF Some]
    let ?best = "case best of None \<Rightarrow> Some e | Some b \<Rightarrow> if scan_better e b then Some e else Some b"
    have "is_best (scan_key us) (A \<union> {e}) ?best"
    proof (cases best)
      case None
      with Cons.prems(1) show ?thesis by (auto dest: is_best_NoneD intro: is_best_single)
    next
      case (Some b)
      have b: "b \<in> A" using is_best_SomeD [OF Cons.prems(1) [unfolded Some]] by blast
      have e: "e \<in> A \<union> {e} \<union> ?E" "b \<in> A \<union> {e} \<union> ?E" using b by blast+
      have "scan_better e b \<longleftrightarrow> scan_key us b < scan_key us e"
      proof (rule scan_better_key [OF us])
        show "entry_ok us e" "entry_ok us b" using Cons.prems(2) [unfolded split] e by blast+
        show "sm_kind e = KindWildcard \<Longrightarrow> sm_kind b = KindWildcard \<Longrightarrow> sm_wildcard_len e = sm_wildcard_len b"
          using Cons.prems(3) [unfolded split entries_uniform_def] e by blast
      qed
      from is_best_union [OF Cons.prems(1) [unfolded Some] is_best_single this] Some show ?thesis by (simp split: if_splits)
    qed
    from Cons.IH [OF this Cons.prems(2,3) [unfolded split]] show ?thesis
      unfolding split scan_loop.simps Some option.case .
  qed
qed simp

section \<open>Index and scan agree\<close>

lemma request_host_lower: "request_host host = Some h \<Longrightarrow> to_ascii_lowercase h = h"
  by (auto simp: request_host_def normalize_host_lower split: bind_splits)

definition scan_entries :: "(string \<times> route_match) list \<Rightarrow> string \<Rightarrow> string option \<Rightarrow> string option \<Rightarrow> scan_match set" where
  "scan_entries ups path qh mt = {e. \<exists>u \<in> set ups. scan_entry path qh mt u = Some e}"

definition cand_of_entry :: "(string \<times> route_match) list \<Rightarrow> nat \<Rightarrow> scan_match \<Rightarrow> route_candidate" where
  "cand_of_entry us i e = mk_cand (sm_kind e, sm_wildcard_len e) (route_of i (upstream_source i (us ! i)))"

lemma cand_of_entry_key:
  assumes "scan_comparable (snd (us ! i))" and "request_ok qh mt" and "scan_entry path qh mt (us ! i) = Some e"
  shows "cand_key (cand_of_entry us i e) =
    (sm_len e, sm_kind e, if sm_kind e = KindWildcard then sm_wildcard_len e else 0, sm_method_specific e, - int i)"
  using assms(3) unfolding scan_entry_source [OF assms(1,2), of path i]
  by (auto simp: cand_key_def cand_of_entry_def mk_cand_def route_of_def entry_for_def upstream_source_def Let_def
      split: if_splits)

lemma matching_entries:
  assumes "\<forall>u \<in> set us. scan_comparable (snd u)" and "request_ok (request_host host) mt"
  shows "c \<in> matching_candidates (number_sources upstream_source us) path host mt \<longleftrightarrow>
    (\<exists>i < length us. \<exists>e. scan_entry path (request_host host) mt (us ! i) = Some e \<and> c = cand_of_entry us i e)"
proof -
  let ?src = "\<lambda>i. number_sources upstream_source us ! i"
  have "(\<exists>k. source_matches path mt (?src i) \<and> host_kind (rs_host_pattern (?src i)) (request_host host) = Some k \<and>
        c = mk_cand k (route_of i (?src i))) \<longleftrightarrow>
      (\<exists>e. scan_entry path (request_host host) mt (us ! i) = Some e \<and> c = cand_of_entry us i e)"
    if "i < length us" for i
    unfolding scan_entry_source [OF bspec [OF assms(1) nth_mem [OF that]] assms(2), of path i] number_sources_nth [OF that]
    by (auto simp: cand_of_entry_def entry_for_def)
  then show ?thesis
    unfolding matching_candidates_def request_host_def [symmetric] number_sources_length mem_Collect_eq by blast
qed

lemma scan_entry_ok:
  assumes "scan_comparable (snd u)" and "request_ok qh mt" and "scan_entry path qh mt u = Some e"
  shows "sm_host_specific e = (sm_kind e \<noteq> KindDefault) \<and> sm_name e = fst u"
proof -
  obtain k where "host_kind (rs_host_pattern (upstream_source 0 u)) qh = Some k"
    and e: "e = entry_for (fst u) (rs_path_len (upstream_source 0 u)) (rs_host_specific (upstream_source 0 u))
      (rs_method_specific (upstream_source 0 u)) k"
    using assms(3) unfolding scan_entry_source [OF assms(1,2), of path 0] by (auto split: if_splits)
  then have "(rs_host_pattern (upstream_source 0 u) = None) = (fst k = KindDefault)"
    by (cases "(rs_host_pattern (upstream_source 0 u), qh)" rule: host_kind.cases) (auto split: if_splits)
  with upstream_source_wf [OF assms(1), of 0] e show ?thesis by (simp add: entry_for_def source_wf_def)
qed

lemma scan_key_cand_key:
  assumes us: "distinct (map fst us)" "\<forall>u \<in> set us. scan_comparable (snd u)" "request_ok qh mt"
    and uniform: "entries_uniform (scan_entries us path qh mt)"
    and i: "i < length us" "scan_entry path qh mt (us ! i) = Some e"
    and j: "j < length us" "scan_entry path qh mt (us ! j) = Some b"
  shows "cand_key (cand_of_entry us j b) \<le> cand_key (cand_of_entry us i e) \<longleftrightarrow> scan_key us b \<le> scan_key us e"
proof -
  have c: "scan_comparable (snd (us ! i))" "scan_comparable (snd (us ! j))" using us(2) i(1) j(1) by simp_all
  have "sm_kind e = KindWildcard \<Longrightarrow> sm_kind b = KindWildcard \<Longrightarrow> sm_wildcard_len e = sm_wildcard_len b"
    using uniform i j nth_mem [OF i(1)] nth_mem [OF j(1)] unfolding entries_uniform_def scan_entries_def by blast
  moreover have "name_pos us (sm_name e) = i" "name_pos us (sm_name b) = j"
    using scan_entry_ok [OF c(1) us(3) i(2)] scan_entry_ok [OF c(2) us(3) j(2)] name_pos_nth [OF us(1)] i(1) j(1) by simp_all
  ultimately show ?thesis
    unfolding cand_of_entry_key [OF c(1) us(3) i(2)] cand_of_entry_key [OF c(2) us(3) j(2)] scan_key_def
    by (auto simp: less_eq_prod_def less_prod_def)
qed

lemma scan_best_is_lookup_best:
  assumes us: "distinct (map fst us)" "sorted (map fst us)" "\<forall>u \<in> set us. scan_comparable (snd u)"
    and q: "request_ok (request_host host) mt"
    and uniform: "entries_uniform (scan_entries us path (request_host host) mt)"
    and scan: "is_best (scan_key us) (scan_entries us path (request_host host) mt) x"
    and best: "is_best cand_key (matching_candidates (number_sources upstream_source us) path host mt) y"
  shows "map_option (source_name (number_sources upstream_source us)) y = map_option sm_name x"
proof (cases x)
  case None
  then have "scan_entries us path (request_host host) mt = {}" using scan by (simp add: is_best_def)
  then have "matching_candidates (number_sources upstream_source us) path host mt = {}"
    using matching_entries [OF us(3) q] nth_mem by (fastforce simp: scan_entries_def)
  with best None show ?thesis by (cases y) (simp_all add: is_best_def)
next
  case (Some e)
  let ?M = "matching_candidates (number_sources upstream_source us) path host mt"
  from is_best_SomeD [OF scan [unfolded Some]] obtain i where i: "i < length us"
    "scan_entry path (request_host host) mt (us ! i) = Some e"
    by (auto simp: scan_entries_def in_set_conv_nth)
  have c: "cand_of_entry us i e \<in> ?M" using matching_entries [OF us(3) q] i by blast
  then obtain b where y: "y = Some b" using best by (cases y) (auto simp: is_best_def)
  from is_best_SomeD [OF best [unfolded y]] have b: "b \<in> ?M" "cand_key (cand_of_entry us i e) \<le> cand_key b" using c by blast+
  then obtain j d where j: "j < length us" "scan_entry path (request_host host) mt (us ! j) = Some d" "b = cand_of_entry us j d"
    using matching_entries [OF us(3) q] by blast
  have "d \<in> scan_entries us path (request_host host) mt" using j nth_mem [OF j(1)] by (auto simp: scan_entries_def)
  then have "scan_key us d \<le> scan_key us e" using is_best_SomeD [OF scan [unfolded Some]] by blast
  then have "cand_key b \<le> cand_key (cand_of_entry us i e)"
    using scan_key_cand_key [OF us(1,3) q uniform i j(1,2)] j(3) by simp
  with b(2) have "cand_key b = cand_key (cand_of_entry us i e)" by simp
  then have "j = i" using us(3) i j
    by (simp add: cand_of_entry_key [OF _ q i(2)] cand_of_entry_key [OF _ q j(2)])
  moreover have "sm_name e = fst (us ! i)" using scan_entry_ok [OF _ q i(2)] us(3) i(1) by simp
  moreover have "source_name (number_sources upstream_source us) b = fst (us ! j)"
    by (simp add: j(3) source_name_def cand_of_entry_def mk_cand_def route_of_def number_sources_nth [OF j(1)] upstream_source_def Let_def)
  ultimately show ?thesis using y Some by simp
qed

text \<open>
  C38. The route index and the linear scan over all routes select the same upstream, provided that
  every configured host parses and no method is blank, that the request's method has no surrounding
  blanks and its host does not start with a dot, and that the wildcard routes that match all have
  suffixes of one length.
\<close>

theorem index_agrees_with_scan:
  assumes dist: "distinct (map fst ups)" and routes: "\<forall>u \<in> set ups. scan_comparable (snd u)"
    and mt: "\<forall>v. mt = Some v \<longrightarrow> trim v = v" and dot: "\<forall>h. request_host host = Some h \<longrightarrow> \<not> prefix ''.'' h"
    and uniform: "entries_uniform (scan_entries ups path (request_host host) mt)"
  shows "lookup_for_method (from_upstreams ups) path host mt = Some (scan_lookup_for_method ups path host mt)"
proof -
  define us where "us = sort_key fst ups"
  have us: "set us = set ups" "distinct (map fst us)" "sorted (map fst us)"
    using dist by (simp_all add: us_def distinct_map)
  have routes': "\<forall>u \<in> set us. scan_comparable (snd u)" using routes us(1) by simp
  have q: "request_ok (request_host host) mt"
    using mt dot request_host_lower by (auto simp: request_ok_def split: option.split)
  have same: "scan_entries us path (request_host host) mt = scan_entries ups path (request_host host) mt"
    by (simp add: scan_entries_def us(1))
  have "entry_ok us e" if "u \<in> set ups" "scan_entry path (request_host host) mt u = Some e" for u e
    using scan_entry_ok [OF bspec [OF routes that(1)] q that(2)] that(1) us(1) by (simp add: entry_ok_def)
  then have ok: "\<forall>e \<in> {} \<union> scan_entries ups path (request_host host) mt. entry_ok us e"
    unfolding scan_entries_def by blast
  have scan: "is_best (scan_key us) (scan_entries us path (request_host host) mt)
      (scan_loop path (request_host host) mt ups None)"
    using scan_loop_best [OF us(2,3) is_best_empty, of ups path "request_host host" mt, folded scan_entries_def, OF ok]
      uniform unfolding same Un_empty_left by (simp only:)
  have "\<forall>s \<in> set (number_sources upstream_source us). source_wf s"
    using upstream_source_wf [OF bspec [OF routes' nth_mem]] by (auto simp: in_set_conv_nth number_sources_nth)
  then obtain best where best: "is_best cand_key (matching_candidates (number_sources upstream_source us) path host mt) best"
    "lookup_for_method (from_ordered_routes (number_sources upstream_source us)) path host mt =
      Some (map_option (source_name (number_sources upstream_source us)) best)"
    by (rule lookup_best)
  have "map_option (source_name (number_sources upstream_source us)) best =
      map_option sm_name (scan_loop path (request_host host) mt ups None)"
    by (rule scan_best_is_lookup_best [OF us(2,3) routes' q _ scan best(1)]) (use uniform same in simp)
  with best(2) show ?thesis by (simp add: from_upstreams_def us_def scan_lookup_for_method_def)
qed

theorem index_agrees_with_scan_witness:
  "lookup_for_method (from_upstreams [(''b'', wildcard_route ''*.b.c'')]) ''/'' (Some ''x.b.c'') None = Some (Some ''b'')"
proof -
  let ?ups = "[(''b'', wildcard_route ''*.b.c'')]"
  have "parse_configured_host_pattern_ref ''*.b.c'' = Some (WildcardSuffix ''b.c'')"
    by (simp add: parse_configured_host_pattern_ref_def parsed_host_for_routing_def rsplit_once_def strip_prefix_def
        trim_end_matches_def str_eval char_of_eq_iff)
  then have "\<forall>u \<in> set ?ups. scan_comparable (snd u)"
    by (simp add: scan_comparable_def wildcard_route_def configured_pattern_lower)
  moreover have "entries_uniform (scan_entries ?ups ''/'' (request_host (Some ''x.b.c'')) None)"
    by (simp add: entries_uniform_def scan_entries_def request_host_plain wildcard_route_entry)
  ultimately have "lookup_for_method (from_upstreams ?ups) ''/'' (Some ''x.b.c'') None =
      Some (scan_lookup_for_method ?ups ''/'' (Some ''x.b.c'') None)"
    by (intro index_agrees_with_scan) (simp_all add: request_host_plain)
  then show ?thesis by (simp add: scan_lookup_for_method_def request_host_plain wildcard_route_entry)
qed

end
