(* ===== verification/Brownout.thy ===== *)
theory Brownout
  imports Impulse_Prelude
begin

text \<open>
  The brownout controller (\<open>edge/src/resilience/brownout.rs\<close>): above a trigger percentage of
  requests in flight only the core routes are served, until the percentage falls to the recovery
  threshold.
\<close>

record brownout_controller =
  bo_enabled :: bool
  trigger_inflight_percent :: u8
  recover_inflight_percent :: u8
  core_routes :: "string set"
  bo_active :: bool

definition brownout_new :: "bool \<Rightarrow> u8 \<Rightarrow> u8 \<Rightarrow> string list \<Rightarrow> brownout_controller" where
  "brownout_new en trigger recover routes =
     \<lparr>bo_enabled = en, trigger_inflight_percent = min trigger 100, recover_inflight_percent = min recover 100,
      core_routes = set routes, bo_active = False\<rparr>"

definition observe_admission_pressure :: "u8 \<Rightarrow> brownout_controller \<Rightarrow> brownout_controller" where
  "observe_admission_pressure percent b =
     (if \<not> bo_enabled b then b\<lparr>bo_active := False\<rparr>
      else if \<not> bo_active b \<and> trigger_inflight_percent b \<le> percent then b\<lparr>bo_active := True\<rparr>
      else if bo_active b \<and> percent \<le> recover_inflight_percent b then b\<lparr>bo_active := False\<rparr>
      else b)"

definition brownout_is_active :: "brownout_controller \<Rightarrow> bool" where
  "brownout_is_active b = bo_active b"

definition brownout_route_allowed :: "brownout_controller \<Rightarrow> string \<Rightarrow> bool" where
  "brownout_route_allowed b route \<longleftrightarrow>
     (if \<not> bo_enabled b \<or> \<not> brownout_is_active b then True else route \<in> core_routes b)"

section \<open>Hysteresis\<close>

text \<open>The controller after a sequence of samples, newest last.\<close>

definition observe_all :: "u8 list \<Rightarrow> brownout_controller \<Rightarrow> brownout_controller" where
  "observe_all ps b = fold observe_admission_pressure ps b"

text \<open>Pressure has been at the trigger and has not been back at the recovery threshold since.\<close>

fun pressed :: "u8 \<Rightarrow> u8 \<Rightarrow> u8 list \<Rightarrow> bool" where
  "pressed trigger recover [] = False"
| "pressed trigger recover (p # older) =
     (trigger \<le> p \<or> (recover < p \<and> pressed trigger recover older))"

lemma observe_config:
  "bo_enabled (observe_admission_pressure p b) = bo_enabled b"
  "trigger_inflight_percent (observe_admission_pressure p b) = trigger_inflight_percent b"
  "recover_inflight_percent (observe_admission_pressure p b) = recover_inflight_percent b"
  "core_routes (observe_admission_pressure p b) = core_routes b"
  by (simp_all add: observe_admission_pressure_def)

lemma observe_all_config:
  "bo_enabled (observe_all ps b) = bo_enabled b"
  "trigger_inflight_percent (observe_all ps b) = trigger_inflight_percent b"
  "recover_inflight_percent (observe_all ps b) = recover_inflight_percent b"
  "core_routes (observe_all ps b) = core_routes b"
  unfolding observe_all_def by (induction ps arbitrary: b) (simp_all add: observe_config)

lemma observe_all_snoc: "observe_all (ps @ [p]) b = observe_admission_pressure p (observe_all ps b)"
  by (simp add: observe_all_def)

lemma active_iff_pressed:
  assumes "bo_enabled b" and "\<not> bo_active b" and "recover_inflight_percent b < trigger_inflight_percent b"
  shows "bo_active (observe_all ps b) = pressed (trigger_inflight_percent b) (recover_inflight_percent b) (rev ps)"
proof (induction ps rule: rev_induct)
  case Nil
  then show ?case using assms by (simp add: observe_all_def)
next
  case (snoc p ps)
  have "\<not> (trigger_inflight_percent b \<le> p \<and> p \<le> recover_inflight_percent b)"
    using assms(3) by (meson leD order.strict_trans1 order_trans)
  then show ?case
    using snoc assms(1)
    by (auto simp: observe_all_snoc observe_admission_pressure_def observe_all_config not_le)
qed

end
