(* ===== verification/Permit_Ledger.thy ===== *)
theory Permit_Ledger
  imports Impulse_Prelude "HOL-Library.Multiset"
begin

text \<open>
  Limiters that hand out permits.  The circuit breakers and the route queue answer a request with
  a permit that Rust's ownership makes the caller settle exactly once: by reporting an outcome or
  by dropping it.  A history is a sequence of requests and settlements; the ledger keeps the
  permits that are still out, so a permit can be settled only once and only after it was issued.
  The locale \<open>permit_ledger\<close> states what a limiter must keep between its own counters and the
  permits that are out, and shows that it then holds after every history.
\<close>

datatype ('k, 'o) ledger_event = Acquire 'k | Settle nat 'o

text \<open>The limiter and the permits that are out, oldest first; \<open>Settle i o\<close> settles the i-th.\<close>

fun ledger_step :: "('k \<Rightarrow> 's \<Rightarrow> 's \<times> 'p option) \<Rightarrow> ('o \<Rightarrow> 'p \<Rightarrow> 's \<Rightarrow> 's) \<Rightarrow>
    ('k, 'o) ledger_event \<Rightarrow> 's \<times> 'p list \<Rightarrow> 's \<times> 'p list" where
  "ledger_step acquire settle (Acquire k) (s, ps) =
     (case acquire k s of (s', None) \<Rightarrow> (s', ps) | (s', Some p) \<Rightarrow> (s', ps @ [p]))"
| "ledger_step acquire settle (Settle i out) (s, ps) =
     (if i < length ps then (settle out (ps ! i) s, take i ps @ drop (Suc i) ps) else (s, ps))"

definition ledger_run :: "('k \<Rightarrow> 's \<Rightarrow> 's \<times> 'p option) \<Rightarrow> ('o \<Rightarrow> 'p \<Rightarrow> 's \<Rightarrow> 's) \<Rightarrow>
    ('k, 'o) ledger_event list \<Rightarrow> 's \<Rightarrow> 's \<times> 'p list" where
  "ledger_run acquire settle evs s = fold (ledger_step acquire settle) evs (s, [])"

lemma mset_take_nth_drop:
  "i < length ps \<Longrightarrow> mset ps = add_mset (ps ! i) (mset (take i ps @ drop (Suc i) ps))"
  by (subst id_take_nth_drop [of i ps]) simp_all

text \<open>
  \<open>ok n s out\<close> relates the limiter to the multiset of permits that are out after \<open>n\<close> events.
  \<open>live n\<close> bounds the length of the histories for limiters with counters that wrap.
\<close>

locale permit_ledger =
  fixes acquire :: "'k \<Rightarrow> 's \<Rightarrow> 's \<times> 'p option"
    and settle :: "'o \<Rightarrow> 'p \<Rightarrow> 's \<Rightarrow> 's"
    and ok :: "nat \<Rightarrow> 's \<Rightarrow> 'p multiset \<Rightarrow> bool"
    and live :: "nat \<Rightarrow> bool"
  assumes live_earlier: "live (Suc n) \<Longrightarrow> live n"
    and acquire_refused: "ok n s out \<Longrightarrow> live (Suc n) \<Longrightarrow> acquire k s = (s', None) \<Longrightarrow> ok (Suc n) s' out"
    and acquire_granted:
      "ok n s out \<Longrightarrow> live (Suc n) \<Longrightarrow> acquire k s = (s', Some p) \<Longrightarrow> ok (Suc n) s' (add_mset p out)"
    and settle_ok: "ok n s (add_mset p out) \<Longrightarrow> live (Suc n) \<Longrightarrow> ok (Suc n) (settle o' p s) out"
    and idle_ok: "ok n s out \<Longrightarrow> live (Suc n) \<Longrightarrow> ok (Suc n) s out"
begin

lemma step_ok:
  assumes "ok n s (mset ps)" and "live (Suc n)" and "ledger_step acquire settle ev (s, ps) = (s', ps')"
  shows "ok (Suc n) s' (mset ps')"
proof (cases ev)
  case (Acquire k)
  with assms show ?thesis
    using acquire_refused [OF assms(1,2), of k] acquire_granted [OF assms(1,2), of k]
    by (auto split: prod.splits option.splits)
next
  case (Settle i out)
  show ?thesis
  proof (cases "i < length ps")
    case True
    then have "ok n s (add_mset (ps ! i) (mset (take i ps @ drop (Suc i) ps)))"
      using assms(1) mset_take_nth_drop [of i ps] by simp
    from settle_ok [OF this assms(2)] show ?thesis using assms(3) Settle True by auto
  next
    case False
    then show ?thesis using assms idle_ok Settle by auto
  qed
qed

lemma live_le: "live (n + k) \<Longrightarrow> live n"
  by (induction k) (auto dest: live_earlier)

lemma fold_ok:
  "ok n s (mset ps) \<Longrightarrow> live (n + length evs) \<Longrightarrow>
   fold (ledger_step acquire settle) evs (s, ps) = (s', ps') \<Longrightarrow> ok (n + length evs) s' (mset ps')"
proof (induction evs arbitrary: n s ps)
  case (Cons ev evs)
  obtain s1 ps1 where st: "ledger_step acquire settle ev (s, ps) = (s1, ps1)" by fastforce
  have "live (Suc n)" using Cons.prems(2) live_le [of "Suc n" "length evs"] by simp
  then have "ok (Suc n) s1 (mset ps1)" using step_ok [OF Cons.prems(1) _ st] by blast
  from Cons.IH [OF this] Cons.prems(2,3) st show ?case by simp
qed simp

lemma run_ok:
  assumes "ok 0 s {#}" and "live (length evs)" and "ledger_run acquire settle evs s = (s', ps')"
  shows "ok (length evs) s' (mset ps')"
  using fold_ok [of 0 s "[]" evs] assms by (simp add: ledger_run_def)

end

end
