(* ===== verification/Circuit_Breaker.thy ===== *)
theory Circuit_Breaker
  imports Permit_Ledger
begin

text \<open>
  The per-backend circuit breakers (\<open>edge/src/resilience/circuit_breaker.rs\<close>).  A closed breaker
  counts consecutive failures; at the threshold it opens for a fixed time, then lets a bounded
  number of probes through.  Every transition into the half-open state takes a new generation, and
  an outcome counts only if it belongs to the current one.  All operations hold the mutex for
  their whole body, so a history is a sequence of whole operations.  \<open>cb_poisoned\<close> is the poison
  flag of that mutex; the operations fail open when it is set.
\<close>

section \<open>State\<close>

record breaker_state =
  consecutive_failures :: u32
  open_until :: "instant option"
  half_open_inflight :: u32
  half_open :: bool
  half_open_generation :: u64

definition breaker_default :: breaker_state where
  "breaker_default = \<lparr>consecutive_failures = 0, open_until = None, half_open_inflight = 0,
     half_open = False, half_open_generation = 0\<rparr>"

record circuit_breakers =
  cb_enabled :: bool
  cb_failure_threshold :: u32
  open_for :: duration
  half_open_max_probes :: u32
  states :: "string \<rightharpoonup> breaker_state"
  cb_poisoned :: bool

record circuit_breaker_permit =
  permit_backend :: string
  probe_generation :: "u64 option"
  resolved :: bool

definition circuit_breakers_new :: "bool \<Rightarrow> u32 \<Rightarrow> duration \<Rightarrow> u32 \<Rightarrow> circuit_breakers" where
  "circuit_breakers_new en threshold open_time max_probes =
     \<lparr>cb_enabled = en, cb_failure_threshold = max threshold 1, open_for = open_time,
      half_open_max_probes = max max_probes 1, states = Map.empty, cb_poisoned = False\<rparr>"

definition permit_new :: "string \<Rightarrow> u64 option \<Rightarrow> circuit_breaker_permit" where
  "permit_new b gen = \<lparr>permit_backend = b, probe_generation = gen, resolved = False\<rparr>"

text \<open>\<open>states.entry(backend).or_default()\<close> reads this value.\<close>

definition breaker_of :: "circuit_breakers \<Rightarrow> string \<Rightarrow> breaker_state" where
  "breaker_of cbs b = (case states cbs b of None \<Rightarrow> breaker_default | Some st \<Rightarrow> st)"

definition set_breaker :: "string \<Rightarrow> breaker_state \<Rightarrow> circuit_breakers \<Rightarrow> circuit_breakers" where
  "set_breaker b st cbs = cbs\<lparr>states := (states cbs)(b \<mapsto> st)\<rparr>"

section \<open>Operations\<close>

text \<open>The transition from open to half-open once the open period is over.\<close>

definition enter_half_open :: "breaker_state \<Rightarrow> breaker_state" where
  "enter_half_open st = st\<lparr>open_until := None, half_open := True, half_open_inflight := 0,
     half_open_generation := half_open_generation st + 1, consecutive_failures := 0\<rparr>"

definition admit_breaker :: "u32 \<Rightarrow> breaker_state \<Rightarrow> breaker_state \<times> u64 option option" where
  "admit_breaker max_probes st =
     (if half_open st then
        (if max_probes \<le> half_open_inflight st then (st, None)
         else (st\<lparr>half_open_inflight := half_open_inflight st + 1\<rparr>, Some (Some (half_open_generation st))))
      else (st, Some None))"

definition allow_breaker :: "instant \<Rightarrow> u32 \<Rightarrow> breaker_state \<Rightarrow> breaker_state \<times> u64 option option" where
  "allow_breaker now max_probes st =
     (case open_until st of
        Some until \<Rightarrow> if now < until then (st, None) else admit_breaker max_probes (enter_half_open st)
      | None \<Rightarrow> admit_breaker max_probes st)"

definition allow_request ::
  "string \<times> instant \<Rightarrow> circuit_breakers \<Rightarrow> circuit_breakers \<times> circuit_breaker_permit option" where
  "allow_request = (\<lambda>(b, now) cbs.
     if \<not> cb_enabled cbs then (cbs, Some (permit_new b None))
     else if cb_poisoned cbs then (cbs, Some (permit_new b None))
     else (case allow_breaker now (half_open_max_probes cbs) (breaker_of cbs b) of
             (st, r) \<Rightarrow> (set_breaker b st cbs, map_option (permit_new b) r)))"

definition close_breaker :: "breaker_state \<Rightarrow> breaker_state" where
  "close_breaker st = st\<lparr>consecutive_failures := 0, open_until := None, half_open := False,
     half_open_inflight := 0\<rparr>"

definition success_breaker :: "u64 option \<Rightarrow> breaker_state \<Rightarrow> breaker_state" where
  "success_breaker gen st =
     (case gen of
        Some g \<Rightarrow>
          if \<not> half_open st \<or> half_open_generation st \<noteq> g then st
          else close_breaker (if 0 < half_open_inflight st
                 then st\<lparr>half_open_inflight := half_open_inflight st - 1\<rparr> else st)
      | None \<Rightarrow> if half_open st \<or> open_until st \<noteq> None then st else close_breaker st)"

definition cb_record_success :: "string \<Rightarrow> u64 option \<Rightarrow> circuit_breakers \<Rightarrow> circuit_breakers" where
  "cb_record_success b gen cbs =
     (if \<not> cb_enabled cbs \<or> cb_poisoned cbs then cbs
      else set_breaker b (success_breaker gen (breaker_of cbs b)) cbs)"

definition failure_breaker :: "instant \<Rightarrow> u32 \<Rightarrow> duration \<Rightarrow> u64 option \<Rightarrow> breaker_state \<Rightarrow> breaker_state" where
  "failure_breaker now threshold open_time gen st =
     (case gen of
        Some g \<Rightarrow>
          if \<not> half_open st \<or> half_open_generation st \<noteq> g then st
          else st\<lparr>open_until := Some (now + open_time), half_open := False, half_open_inflight := 0,
                 consecutive_failures := 0\<rparr>
      | None \<Rightarrow>
          if half_open st \<or> open_until st \<noteq> None then st
          else let n = saturating_add (consecutive_failures st) 1 in
            if threshold \<le> n
            then st\<lparr>open_until := Some (now + open_time), half_open := False, consecutive_failures := 0\<rparr>
            else st\<lparr>consecutive_failures := n\<rparr>)"

definition cb_record_failure ::
  "string \<Rightarrow> u64 option \<Rightarrow> instant \<Rightarrow> circuit_breakers \<Rightarrow> circuit_breakers" where
  "cb_record_failure b gen now cbs =
     (if \<not> cb_enabled cbs \<or> cb_poisoned cbs then cbs
      else set_breaker b (failure_breaker now (cb_failure_threshold cbs) (open_for cbs) gen (breaker_of cbs b)) cbs)"

definition release_half_open_probe :: "string \<Rightarrow> u64 \<Rightarrow> circuit_breakers \<Rightarrow> circuit_breakers" where
  "release_half_open_probe b g cbs =
     (if cb_poisoned cbs then cbs
      else case states cbs b of
        None \<Rightarrow> cbs
      | Some st \<Rightarrow>
          if half_open st \<and> half_open_generation st = g \<and> 0 < half_open_inflight st
          then set_breaker b (st\<lparr>half_open_inflight := half_open_inflight st - 1\<rparr>) cbs
          else cbs)"

section \<open>Permits\<close>

definition permit_drop :: "circuit_breaker_permit \<Rightarrow> circuit_breakers \<Rightarrow> circuit_breakers" where
  "permit_drop p cbs =
     (if resolved p then cbs
      else case probe_generation p of
        Some g \<Rightarrow> release_half_open_probe (permit_backend p) g cbs
      | None \<Rightarrow> cbs)"

text \<open>Both reports consume the permit, which is then dropped as resolved.\<close>

definition permit_record_success :: "circuit_breaker_permit \<Rightarrow> circuit_breakers \<Rightarrow> circuit_breakers" where
  "permit_record_success p cbs =
     permit_drop (p\<lparr>resolved := True\<rparr>) (cb_record_success (permit_backend p) (probe_generation p) cbs)"

definition permit_record_failure ::
  "instant \<Rightarrow> circuit_breaker_permit \<Rightarrow> circuit_breakers \<Rightarrow> circuit_breakers" where
  "permit_record_failure now p cbs =
     permit_drop (p\<lparr>resolved := True\<rparr>) (cb_record_failure (permit_backend p) (probe_generation p) now cbs)"

text \<open>What the holder of a permit may do with it.\<close>

datatype breaker_outcome = Succeeded | Failed instant | Dropped

fun settle_permit :: "breaker_outcome \<Rightarrow> circuit_breaker_permit \<Rightarrow> circuit_breakers \<Rightarrow> circuit_breakers" where
  "settle_permit Succeeded p cbs = permit_record_success p cbs"
| "settle_permit (Failed now) p cbs = permit_record_failure now p cbs"
| "settle_permit Dropped p cbs = permit_drop p cbs"

section \<open>Probe accounting\<close>

definition generations_out :: "string \<Rightarrow> circuit_breaker_permit multiset \<Rightarrow> u64 option multiset" where
  "generations_out b out = image_mset probe_generation (filter_mset (\<lambda>p. permit_backend p = b) out)"

text \<open>A breaker against the generations of the permits that are out for its backend.\<close>

definition breaker_ok :: "circuit_breakers \<Rightarrow> nat \<Rightarrow> breaker_state \<Rightarrow> u64 option multiset \<Rightarrow> bool" where
  "breaker_ok cbs n st gens \<longleftrightarrow>
     unat (half_open_generation st) \<le> n \<and>
     (\<forall>g. Some g \<in># gens \<longrightarrow> g \<le> half_open_generation st) \<and>
     (if half_open st
      then open_until st = None \<and> half_open_inflight st \<le> half_open_max_probes cbs \<and>
           count gens (Some (half_open_generation st)) = unat (half_open_inflight st)
      else half_open_inflight st = 0) \<and>
     consecutive_failures st < cb_failure_threshold cbs"

definition breakers_ok :: "nat \<Rightarrow> circuit_breakers \<Rightarrow> circuit_breaker_permit multiset \<Rightarrow> bool" where
  "breakers_ok n cbs out \<longleftrightarrow>
     \<not> cb_poisoned cbs \<and> 0 < cb_failure_threshold cbs \<and> 0 < half_open_max_probes cbs \<and>
     (\<not> cb_enabled cbs \<longrightarrow> states cbs = Map.empty) \<and>
     (\<forall>b. breaker_ok cbs n (breaker_of cbs b) (generations_out b out)) \<and>
     (\<forall>p \<in># out. \<not> resolved p)"

lemma generations_out_add:
  "generations_out b (add_mset p out) =
     (if permit_backend p = b then add_mset (probe_generation p) (generations_out b out) else generations_out b out)"
  by (simp add: generations_out_def)

lemma breaker_of_set [simp]: "breaker_of (set_breaker b st cbs) b' = (if b' = b then st else breaker_of cbs b')"
  by (simp add: breaker_of_def set_breaker_def)

lemma set_breaker_config [simp]:
  "cb_enabled (set_breaker b st cbs) = cb_enabled cbs"
  "cb_failure_threshold (set_breaker b st cbs) = cb_failure_threshold cbs"
  "half_open_max_probes (set_breaker b st cbs) = half_open_max_probes cbs"
  "open_for (set_breaker b st cbs) = open_for cbs"
  "cb_poisoned (set_breaker b st cbs) = cb_poisoned cbs"
  "breaker_ok (set_breaker b st cbs) = breaker_ok cbs"
  by (simp_all add: set_breaker_def breaker_ok_def fun_eq_iff)

lemma breaker_of_default [simp]: "states cbs = Map.empty \<Longrightarrow> breaker_of cbs b = breaker_default"
  by (simp add: breaker_of_def)

lemma breaker_ok_later: "breaker_ok cbs n st gens \<Longrightarrow> breaker_ok cbs (Suc n) st gens"
  by (auto simp: breaker_ok_def)

lemma breaker_ok_plain [simp]: "breaker_ok cbs n st (add_mset None gens) = breaker_ok cbs n st gens"
  by (simp add: breaker_ok_def)

lemma admit_breaker_ok:
  assumes "breaker_ok cbs n st gens" and "open_until st = None" and "admit_breaker (half_open_max_probes cbs) st = (st', r)"
  shows "breaker_ok cbs n st' (case r of None \<Rightarrow> gens | Some g \<Rightarrow> add_mset g gens)"
proof (cases "half_open st \<and> half_open_inflight st < half_open_max_probes cbs")
  case True
  then have "unat (half_open_inflight st + 1) = unat (half_open_inflight st) + 1"
    and "half_open_inflight st + 1 \<le> half_open_max_probes cbs"
    by (simp_all add: unat_incr [where b = "half_open_max_probes cbs"])
  then show ?thesis
    using assms True by (auto simp: breaker_ok_def admit_breaker_def not_le split: if_splits)
next
  case False
  then show ?thesis using assms by (auto simp: breaker_ok_def admit_breaker_def split: if_splits)
qed

lemma enter_half_open_ok:
  assumes "breaker_ok cbs n st gens" and "0 < cb_failure_threshold cbs" and "Suc n < 2 ^ 64"
  shows "breaker_ok cbs (Suc n) (enter_half_open st) gens"
proof -
  have n: "unat (half_open_generation st) \<le> n" and le: "\<forall>g. Some g \<in># gens \<longrightarrow> g \<le> half_open_generation st"
    using assms(1) by (auto simp: breaker_ok_def)
  have "unat (half_open_generation st + 1) = unat (half_open_generation st) + 1"
    using n assms(3) by (simp add: unat_word_ariths)
  then have gen: "unat (half_open_generation st + 1) \<le> Suc n" "half_open_generation st < half_open_generation st + 1"
    using n by (simp_all add: word_less_nat_alt)
  have "Some (half_open_generation st + 1) \<notin># gens" using le gen(2) by (meson not_le)
  then have "count gens (Some (half_open_generation st + 1)) = 0" by (simp add: not_in_iff)
  with gen le assms(2) show ?thesis by (auto simp: breaker_ok_def enter_half_open_def)
qed

lemma allow_breaker_ok:
  assumes "breaker_ok cbs n st gens" and "0 < cb_failure_threshold cbs" and "Suc n < 2 ^ 64"
    and "allow_breaker now (half_open_max_probes cbs) st = (st', r)"
  shows "breaker_ok cbs (Suc n) st' (case r of None \<Rightarrow> gens | Some g \<Rightarrow> add_mset g gens)"
proof (cases "open_until st")
  case None
  then show ?thesis
    using admit_breaker_ok [OF breaker_ok_later [OF assms(1)]] assms(4) by (simp add: allow_breaker_def)
next
  case (Some until)
  show ?thesis
  proof (cases "now < until")
    case True
    then show ?thesis using Some assms(4) breaker_ok_later [OF assms(1)] by (auto simp: allow_breaker_def)
  next
    case False
    have "open_until (enter_half_open st) = None" by (simp add: enter_half_open_def)
    from admit_breaker_ok [OF enter_half_open_ok [OF assms(1,2,3)] this] Some False assms(4)
    show ?thesis by (simp add: allow_breaker_def)
  qed
qed

text \<open>A settled permit leaves the breaker in step with the permits that remain.\<close>

lemma breaker_ok_remove:
  assumes "breaker_ok cbs n st (add_mset g gens)" and "\<not> (half_open st \<and> g = Some (half_open_generation st))"
  shows "breaker_ok cbs n st gens"
  using assms by (auto simp: breaker_ok_def split: if_splits)

lemma success_breaker_ok:
  assumes "breaker_ok cbs n st (add_mset g gens)" and "0 < cb_failure_threshold cbs"
  shows "breaker_ok cbs n (success_breaker g st) gens"
  using assms by (cases g) (auto simp: breaker_ok_def success_breaker_def close_breaker_def split: if_splits)

lemma failure_breaker_ok:
  assumes "breaker_ok cbs n st (add_mset g gens)" and "0 < cb_failure_threshold cbs"
  shows "breaker_ok cbs n (failure_breaker now (cb_failure_threshold cbs) d g st) gens"
  using assms by (cases g) (auto simp: breaker_ok_def failure_breaker_def Let_def not_le split: if_splits)

lemma release_breaker_ok:
  assumes "breaker_ok cbs n st (add_mset (Some (half_open_generation st)) gens)" and "half_open st"
  shows "0 < half_open_inflight st"
    and "breaker_ok cbs n (st\<lparr>half_open_inflight := half_open_inflight st - 1\<rparr>) gens"
proof -
  have c: "unat (half_open_inflight st) = Suc (count gens (Some (half_open_generation st)))"
    using assms by (simp add: breaker_ok_def)
  then show pos: "0 < half_open_inflight st" by (metis nat.distinct(1) unat_0 word_neq_0_conv)
  then show "breaker_ok cbs n (st\<lparr>half_open_inflight := half_open_inflight st - 1\<rparr>) gens"
    using assms c by (auto simp: breaker_ok_def unat_decr intro: order_trans [OF unat_decr(2)])
qed

section \<open>The breakers keep a ledger\<close>

lemma breakers_okD:
  assumes "breakers_ok n cbs out"
  shows "\<not> cb_poisoned cbs" "0 < cb_failure_threshold cbs" "0 < half_open_max_probes cbs"
    and "breaker_ok cbs n (breaker_of cbs b) (generations_out b out)"
  using assms by (simp_all add: breakers_ok_def)

lemma breakers_ok_later: "breakers_ok n cbs out \<Longrightarrow> breakers_ok (Suc n) cbs out"
  by (auto simp: breakers_ok_def breaker_ok_later)

lemma breakers_ok_set:
  assumes "breakers_ok n cbs out" and "cb_enabled cbs"
    and "\<forall>p \<in># out'. \<not> resolved p"
    and "\<And>b'. b' \<noteq> b \<Longrightarrow> generations_out b' out' = generations_out b' out"
    and "breaker_ok cbs (Suc n) st (generations_out b out')"
  shows "breakers_ok (Suc n) (set_breaker b st cbs) out'"
  using assms by (auto simp: breakers_ok_def breaker_ok_later)

lemma allow_request_ledger:
  assumes ok: "breakers_ok n cbs out" and n: "Suc n < 2 ^ 64" and al: "allow_request (b, now) cbs = (cbs', r)"
  shows "breakers_ok (Suc n) cbs' (case r of None \<Rightarrow> out | Some p \<Rightarrow> add_mset p out)"
proof (cases "cb_enabled cbs")
  case False
  then have "cbs' = cbs" "r = Some (permit_new b None)" using al by (simp_all add: allow_request_def)
  then show ?thesis
    using breakers_ok_later [OF ok] by (auto simp: breakers_ok_def generations_out_add permit_new_def)
next
  case True
  obtain st g where st: "allow_breaker now (half_open_max_probes cbs) (breaker_of cbs b) = (st, g)" by fastforce
  have "cbs' = set_breaker b st cbs" and r: "r = map_option (permit_new b) g"
    using al True st breakers_okD(1) [OF ok] by (simp_all add: allow_request_def)
  moreover have "breaker_ok cbs (Suc n) st (case g of None \<Rightarrow> generations_out b out | Some g \<Rightarrow> add_mset g (generations_out b out))"
    by (rule allow_breaker_ok [OF breakers_okD(4) [OF ok] breakers_okD(2) [OF ok] n st])
  ultimately show ?thesis
    using ok True by (cases g) (auto intro!: breakers_ok_set simp: breakers_ok_def breaker_ok_later generations_out_add permit_new_def)
qed

text \<open>What settling a permit does to the breaker of its backend.\<close>

definition settle_breaker :: "breaker_outcome \<Rightarrow> u64 option \<Rightarrow> circuit_breakers \<Rightarrow> breaker_state \<Rightarrow> breaker_state" where
  "settle_breaker res gen cbs st =
     (case res of
        Succeeded \<Rightarrow> success_breaker gen st
      | Failed now \<Rightarrow> failure_breaker now (cb_failure_threshold cbs) (open_for cbs) gen st
      | Dropped \<Rightarrow> if half_open st \<and> gen = Some (half_open_generation st) \<and> 0 < half_open_inflight st
                  then st\<lparr>half_open_inflight := half_open_inflight st - 1\<rparr> else st)"

lemma settle_breaker_ok:
  assumes "breaker_ok cbs n st (add_mset g gens)" and "0 < cb_failure_threshold cbs"
  shows "breaker_ok cbs n (settle_breaker res g cbs st) gens"
proof (cases res)
  case Dropped
  show ?thesis
  proof (cases "half_open st \<and> g = Some (half_open_generation st)")
    case True
    then show ?thesis using release_breaker_ok [of cbs n st gens] assms Dropped by (simp add: settle_breaker_def)
  next
    case False
    then show ?thesis using breaker_ok_remove [OF assms(1) False] Dropped by (auto simp: settle_breaker_def)
  qed
qed (use assms success_breaker_ok failure_breaker_ok in \<open>simp_all add: settle_breaker_def\<close>)

lemma settle_permit_breaker:
  assumes "cb_enabled cbs" and "\<not> cb_poisoned cbs" and "\<not> resolved p"
  shows "settle_permit res p cbs =
           set_breaker (permit_backend p) (settle_breaker res (probe_generation p) cbs (breaker_of cbs (permit_backend p))) cbs \<or>
         settle_permit res p cbs = cbs \<and>
           settle_breaker res (probe_generation p) cbs (breaker_of cbs (permit_backend p)) = breaker_of cbs (permit_backend p)"
  using assms
  by (cases res) (auto simp: permit_record_success_def permit_record_failure_def permit_drop_def cb_record_success_def
      cb_record_failure_def settle_breaker_def release_half_open_probe_def breaker_of_def breaker_default_def
      split: option.splits)

lemma settle_permit_disabled:
  assumes "\<not> cb_enabled cbs" and "states cbs = Map.empty"
  shows "settle_permit res p cbs = cbs"
  using assms by (cases res) (auto simp: permit_record_success_def permit_record_failure_def permit_drop_def
      cb_record_success_def cb_record_failure_def release_half_open_probe_def split: option.splits)

lemma settle_permit_ledger:
  assumes ok: "breakers_ok n cbs (add_mset p out)"
  shows "breakers_ok (Suc n) (settle_permit res p cbs) out"
proof -
  let ?b = "permit_backend p" and ?g = "probe_generation p"
  have "breaker_ok cbs n (breaker_of cbs ?b) (add_mset ?g (generations_out ?b out))"
    using breakers_okD(4) [OF ok, of ?b] by (simp add: generations_out_add)
  note new = settle_breaker_ok [OF this breakers_okD(2) [OF ok], of res]
  have unresolved: "\<forall>p \<in># out. \<not> resolved p" using ok by (simp add: breakers_ok_def)
  have kept: "breakers_ok (Suc n) cbs out" if "breaker_ok cbs n (breaker_of cbs ?b) (generations_out ?b out)"
  proof -
    have "breaker_ok cbs n (breaker_of cbs b) (generations_out b out)" for b
      using that breakers_okD(4) [OF ok, of b] by (cases "b = ?b") (auto simp: generations_out_add)
    then show ?thesis using ok by (auto simp: breakers_ok_def breaker_ok_later)
  qed
  show ?thesis
  proof (cases "cb_enabled cbs")
    case False
    then have "states cbs = Map.empty" using ok by (simp add: breakers_ok_def)
    then have "breaker_ok cbs n (breaker_of cbs ?b) (generations_out ?b out)"
      using new breaker_ok_remove [of cbs n "breaker_of cbs ?b" ?g] breakers_okD(4) [OF ok, of ?b]
      by (auto simp: breaker_default_def generations_out_add)
    then show ?thesis using kept settle_permit_disabled [OF False \<open>states cbs = Map.empty\<close>] by simp
  next
    case True
    have "\<not> resolved p" using ok by (simp add: breakers_ok_def)
    from settle_permit_breaker [OF True breakers_okD(1) [OF ok] this, of res] show ?thesis
    proof (elim disjE conjE)
      assume eq: "settle_permit res p cbs = set_breaker ?b (settle_breaker res ?g cbs (breaker_of cbs ?b)) cbs"
      show ?thesis unfolding eq
        by (rule breakers_ok_set [OF ok True unresolved]) (auto simp: generations_out_add new breaker_ok_later)
    next
      assume "settle_permit res p cbs = cbs" "settle_breaker res ?g cbs (breaker_of cbs ?b) = breaker_of cbs ?b"
      then show ?thesis using kept new by simp
    qed
  qed
qed

text \<open>The configuration is fixed when the breakers are built.\<close>

definition breaker_config :: "circuit_breakers \<Rightarrow> bool \<times> u32 \<times> duration \<times> u32" where
  "breaker_config cbs = (cb_enabled cbs, cb_failure_threshold cbs, open_for cbs, half_open_max_probes cbs)"

lemma allow_request_config: "allow_request k cbs = (cbs', r) \<Longrightarrow> breaker_config cbs' = breaker_config cbs"
  by (auto simp: allow_request_def breaker_config_def split: prod.splits if_splits)

lemma settle_permit_config: "breaker_config (settle_permit res p cbs) = breaker_config cbs"
  by (cases res) (auto simp: permit_record_success_def permit_record_failure_def permit_drop_def breaker_config_def
      cb_record_success_def cb_record_failure_def release_half_open_probe_def split: option.splits)

interpretation cbl: permit_ledger allow_request settle_permit
  "\<lambda>n cbs out. breakers_ok n cbs out \<and> breaker_config cbs = cfg" "\<lambda>n. n < 2 ^ 64" for cfg
proof
  show "breakers_ok n s out \<and> breaker_config s = cfg \<Longrightarrow> Suc n < 2 ^ 64 \<Longrightarrow> allow_request k s = (s', None) \<Longrightarrow>
      breakers_ok (Suc n) s' out \<and> breaker_config s' = cfg" for n s out k s'
    using allow_request_ledger [of n s out "fst k" "snd k" s' None] allow_request_config [of k s s' None] by simp
  show "breakers_ok n s out \<and> breaker_config s = cfg \<Longrightarrow> Suc n < 2 ^ 64 \<Longrightarrow> allow_request k s = (s', Some p) \<Longrightarrow>
      breakers_ok (Suc n) s' (add_mset p out) \<and> breaker_config s' = cfg" for n s out k s' p
    using allow_request_ledger [of n s out "fst k" "snd k" s' "Some p"] allow_request_config [of k s s' "Some p"] by simp
qed (use settle_permit_ledger settle_permit_config breakers_ok_later in auto)

lemma breakers_new_ok: "breakers_ok 0 (circuit_breakers_new en t d m) {#}"
  by (simp add: breakers_ok_def breaker_ok_def circuit_breakers_new_def generations_out_def breaker_default_def)

lemma generations_out_count:
  "count (generations_out b (mset ps)) g = length (filter (\<lambda>p. permit_backend p = b \<and> probe_generation p = g) ps)"
  by (induction ps) (auto simp: generations_out_def)

text \<open>
  C20. In every history of requests, reported outcomes and dropped permits on fresh circuit breakers,
  a half-open breaker counts exactly the probes of its current generation that are still out, and
  never lets more of them out than the configured maximum: no probe slot leaks and none is given
  back twice, whatever becomes of permits from earlier generations.
\<close>

theorem half_open_probes_accounted:
  assumes "ledger_run allow_request settle_permit evs (circuit_breakers_new en t d m) = (cbs, out)"
    and "length evs < 2 ^ 64" and "half_open (breaker_of cbs b)"
  shows "length (filter (\<lambda>p. permit_backend p = b \<and>
             probe_generation p = Some (half_open_generation (breaker_of cbs b))) out) =
           unat (half_open_inflight (breaker_of cbs b)) \<and>
         unat (half_open_inflight (breaker_of cbs b)) \<le> max (unat m) 1"
proof -
  have "breakers_ok (length evs) cbs (mset out) \<and>
      breaker_config cbs = breaker_config (circuit_breakers_new en t d m)"
    by (rule cbl.run_ok [OF _ assms(2,1)]) (simp add: breakers_new_ok)
  then have "breaker_ok cbs (length evs) (breaker_of cbs b) (generations_out b (mset out))"
    and mp: "half_open_max_probes cbs = max m 1"
    using breakers_okD(4) by (auto simp: breaker_config_def circuit_breakers_new_def)
  then show ?thesis
    using assms(3) by (auto simp: breaker_ok_def mp generations_out_count word_le_nat_alt unat_max)
qed

theorem half_open_probes_accounted_witness:
  "\<exists>cbs out. ledger_run allow_request settle_permit
       [Acquire (''a'', 0), Settle 0 (Failed 1), Acquire (''a'', 20), Acquire (''a'', 21)]
       (circuit_breakers_new True 1 10 1) = (cbs, out) \<and>
     length (filter (\<lambda>p. permit_backend p = ''a'' \<and>
             probe_generation p = Some (half_open_generation (breaker_of cbs ''a''))) out) = 1"
proof -
  let ?evs = "[Acquire (''a'', 0), Settle 0 (Failed 1), Acquire (''a'', 20), Acquire (''a'', 21)]"
  obtain cbs out where run: "ledger_run allow_request settle_permit ?evs (circuit_breakers_new True 1 10 1) = (cbs, out)"
    by fastforce
  then have "half_open (breaker_of cbs ''a'') \<and> half_open_inflight (breaker_of cbs ''a'') = 1"
    by (auto simp: ledger_run_def allow_request_def circuit_breakers_new_def allow_breaker_def admit_breaker_def
        breaker_of_def set_breaker_def breaker_default_def permit_new_def permit_record_failure_def permit_drop_def
        cb_record_failure_def failure_breaker_def enter_half_open_def saturating_add_def Let_def)
  with half_open_probes_accounted [OF run, of "''a''"] run show ?thesis by auto
qed

section \<open>Tripping and recovery\<close>

lemma failures_below_threshold:
  assumes "cb_enabled cbs" and "\<not> cb_poisoned cbs" and "\<not> half_open (breaker_of cbs b)"
    and "open_until (breaker_of cbs b) = None" and "unat (consecutive_failures (breaker_of cbs b)) + length ts < unat (cb_failure_threshold cbs)"
  shows "breaker_of (fold (cb_record_failure b None) ts cbs) b =
           (breaker_of cbs b)\<lparr>consecutive_failures := consecutive_failures (breaker_of cbs b) + of_nat (length ts)\<rparr> \<and>
         breaker_config (fold (cb_record_failure b None) ts cbs) = breaker_config cbs \<and>
         \<not> cb_poisoned (fold (cb_record_failure b None) ts cbs)"
  using assms
proof (induction ts arbitrary: cbs)
  case (Cons t ts)
  let ?n = "consecutive_failures (breaker_of cbs b)"
  have "unat ?n + 1 < unat (cb_failure_threshold cbs)" using Cons.prems(5) by simp
  then have lt: "?n < cb_failure_threshold cbs" by (simp add: word_less_nat_alt)
  have inc: "saturating_add ?n 1 = ?n + 1" "unat (?n + 1) = unat ?n + 1"
    using unat_incr(1) [OF lt] \<open>unat ?n + 1 < _\<close> unat_bound [of "cb_failure_threshold cbs"]
    by (simp_all add: saturating_add_def)
  have nle: "\<not> cb_failure_threshold cbs \<le> ?n + 1"
    using \<open>unat ?n + 1 < _\<close> inc(2) by (simp add: word_le_nat_alt)
  let ?st = "(breaker_of cbs b)\<lparr>consecutive_failures := ?n + 1\<rparr>"
  have step: "cb_record_failure b None t cbs = set_breaker b ?st cbs"
    using Cons.prems nle by (simp add: cb_record_failure_def failure_breaker_def inc(1) Let_def)
  show ?case
    using Cons.IH [of "set_breaker b ?st cbs"] Cons.prems inc(2) by (simp add: step breaker_config_def add.assoc)
qed simp

lemma failures_when_open:
  assumes "open_until (breaker_of cbs b) \<noteq> None"
  shows "breaker_of (fold (cb_record_failure b None) ts cbs) b = breaker_of cbs b \<and>
         breaker_config (fold (cb_record_failure b None) ts cbs) = breaker_config cbs \<and>
         cb_poisoned (fold (cb_record_failure b None) ts cbs) = cb_poisoned cbs"
  using assms
proof (induction ts arbitrary: cbs)
  case (Cons t ts)
  have "breaker_of (cb_record_failure b None t cbs) b = breaker_of cbs b"
    and "breaker_config (cb_record_failure b None t cbs) = breaker_config cbs"
    and "cb_poisoned (cb_record_failure b None t cbs) = cb_poisoned cbs"
    using Cons.prems by (auto simp: cb_record_failure_def failure_breaker_def breaker_config_def)
  then show ?case using Cons.IH [of "cb_record_failure b None t cbs"] Cons.prems by simp
qed simp

text \<open>A closed breaker without failures, and the permits of plain requests.\<close>

definition breaker_closed :: "circuit_breakers \<Rightarrow> string \<Rightarrow> bool" where
  "breaker_closed cbs b \<longleftrightarrow> cb_enabled cbs \<and> \<not> cb_poisoned cbs \<and> 0 < cb_failure_threshold cbs \<and>
     0 < half_open_max_probes cbs \<and> \<not> half_open (breaker_of cbs b) \<and> open_until (breaker_of cbs b) = None \<and>
     consecutive_failures (breaker_of cbs b) = 0"

lemma trip_at_threshold:
  assumes "breaker_closed cbs b" and "k = unat (cb_failure_threshold cbs)" and "k \<le> length ts"
  shows "open_until (breaker_of (fold (cb_record_failure b None) ts cbs) b) = Some (ts ! (k - 1) + open_for cbs) \<and>
         half_open_generation (breaker_of (fold (cb_record_failure b None) ts cbs) b) = half_open_generation (breaker_of cbs b) \<and>
         breaker_config (fold (cb_record_failure b None) ts cbs) = breaker_config cbs \<and>
         \<not> cb_poisoned (fold (cb_record_failure b None) ts cbs)"
proof -
  have k: "0 < k" using assms(1,2) by (simp add: breaker_closed_def word_less_nat_alt)
  let ?pre = "fold (cb_record_failure b None) (take (k - 1) ts) cbs"
  have pre: "breaker_of ?pre b = (breaker_of cbs b)\<lparr>consecutive_failures := of_nat (k - 1)\<rparr>"
      "breaker_config ?pre = breaker_config cbs" "\<not> cb_poisoned ?pre"
    using failures_below_threshold [of cbs b "take (k - 1) ts"] assms k by (simp_all add: breaker_closed_def)
  let ?at = "cb_record_failure b None (ts ! (k - 1)) ?pre"
  have "k - 1 < 2 ^ 32" using assms(2) unat_bound [of "cb_failure_threshold cbs"] by simp
  then have "unat (of_nat (k - 1) :: u32) = k - 1" by (simp add: unat_of_nat_small)
  moreover have "k < 2 ^ 32" using assms(2) unat_bound [of "cb_failure_threshold cbs"] by simp
  ultimately have "unat (saturating_add (of_nat (k - 1) :: u32) 1) = k" using k by (simp add: unat_saturating_add)
  then have full: "cb_failure_threshold cbs \<le> saturating_add (of_nat (k - 1)) 1"
    using assms(2) by (simp add: word_le_nat_alt)
  have cfg: "cb_enabled ?pre" "cb_failure_threshold ?pre = cb_failure_threshold cbs" "open_for ?pre = open_for cbs"
    using pre(2) assms(1) by (simp_all add: breaker_config_def breaker_closed_def)
  have at: "breaker_of ?at b = (breaker_of cbs b)\<lparr>open_until := Some (ts ! (k - 1) + open_for cbs),
        half_open := False, consecutive_failures := 0\<rparr>" "breaker_config ?at = breaker_config cbs" "\<not> cb_poisoned ?at"
    using pre cfg full assms(1)
    by (simp_all add: cb_record_failure_def failure_breaker_def breaker_closed_def Let_def breaker_config_def)
  have "ts = take (k - 1) ts @ ts ! (k - 1) # drop k ts"
    using id_take_nth_drop [of "k - 1" ts] assms(3) k by simp
  then have "fold (cb_record_failure b None) ts cbs = fold (cb_record_failure b None) (drop k ts) ?at"
    by (metis fold_append fold_simps(2) comp_apply)
  moreover have "open_until (breaker_of ?at b) \<noteq> None" using at(1) by simp
  ultimately show ?thesis using failures_when_open [of ?at b "drop k ts"] at by simp
qed

text \<open>
  C21. A closed breaker trips exactly at the failure threshold and recovers on time.  With fewer
  consecutive failures than the threshold a request still gets an ordinary permit; from the failure
  that reaches the threshold on, requests are refused until the open period counted from that very
  failure is over (later stray failures do not prolong it), and the first request after it is let
  through as a probe of a new generation.
\<close>

theorem breaker_trips_and_recovers:
  assumes "breaker_closed cbs b"
  shows "snd (allow_request (b, now) (fold (cb_record_failure b None) ts cbs)) =
    (if length ts < unat (cb_failure_threshold cbs) then Some (permit_new b None)
     else if now < ts ! (unat (cb_failure_threshold cbs) - 1) + open_for cbs then None
     else Some (permit_new b (Some (half_open_generation (breaker_of cbs b) + 1))))"
proof (cases "length ts < unat (cb_failure_threshold cbs)")
  case True
  then show ?thesis
    using failures_below_threshold [of cbs b ts] assms
    by (auto simp: breaker_closed_def allow_request_def allow_breaker_def admit_breaker_def breaker_config_def)
next
  case False
  let ?cbs = "fold (cb_record_failure b None) ts cbs"
  have "open_until (breaker_of ?cbs b) = Some (ts ! (unat (cb_failure_threshold cbs) - 1) + open_for cbs)"
    "half_open_generation (breaker_of ?cbs b) = half_open_generation (breaker_of cbs b)"
    "breaker_config ?cbs = breaker_config cbs" "\<not> cb_poisoned ?cbs"
    using trip_at_threshold [OF assms refl, of ts] False by simp_all
  moreover have "half_open_max_probes ?cbs \<noteq> 0" "cb_enabled ?cbs"
    using calculation(3) assms by (auto simp: breaker_config_def breaker_closed_def)
  ultimately show ?thesis
    using False by (simp add: allow_request_def allow_breaker_def admit_breaker_def enter_half_open_def split_beta not_le)
qed

theorem breaker_trips_and_recovers_witness:
  "snd (allow_request (''a'', 11) (fold (cb_record_failure ''a'' None) [1, 2, 9] (circuit_breakers_new True 2 10 1))) = None \<and>
   snd (allow_request (''a'', 12) (fold (cb_record_failure ''a'' None) [1, 2, 9] (circuit_breakers_new True 2 10 1))) =
     Some (permit_new ''a'' (Some 1))"
proof -
  let ?cbs = "circuit_breakers_new True 2 10 1"
  have "breaker_closed ?cbs ''a''" and "unat (cb_failure_threshold ?cbs) = 2"
    and "half_open_generation (breaker_of ?cbs ''a'') = 0" and "open_for ?cbs = 10"
    by (simp_all add: breaker_closed_def circuit_breakers_new_def breaker_default_def unat_max)
  with breaker_trips_and_recovers [of ?cbs "''a''" _ "[1, 2, 9]"] show ?thesis by simp
qed

end
