(* ===== verification/Route_Queue.thy ===== *)
theory Route_Queue
  imports Permit_Ledger
begin

text \<open>
  The route queue limiter (\<open>edge/src/resilience/route_queue.rs\<close>): a global cap and a cap per route
  on the requests in flight, kept under one mutex.  \<open>rq_poisoned\<close> is the poison flag of the mutex;
  a poisoned limiter rejects everything and its permits release nothing.
\<close>

record route_queue_limiter =
  default_cap :: usize
  global_cap :: usize
  caps :: "string \<rightharpoonup> usize"
  rq_total :: usize
  by_route :: "string \<rightharpoonup> usize"
  rq_poisoned :: bool

datatype route_queue_rejection = GlobalCap | RouteCap

record route_queue_permit =
  rq_route :: string

definition route_queue_new :: "usize \<Rightarrow> usize \<Rightarrow> (string \<rightharpoonup> usize) \<Rightarrow> route_queue_limiter" where
  "route_queue_new dcap gcap cs =
     \<lparr>default_cap = max dcap 1, global_cap = max gcap 1, caps = cs, rq_total = 0,
      by_route = Map.empty, rq_poisoned = False\<rparr>"

definition route_cap :: "route_queue_limiter \<Rightarrow> string \<Rightarrow> usize" where
  "route_cap q r = max (case caps q r of Some c \<Rightarrow> c | None \<Rightarrow> default_cap q) 1"

definition rq_try_acquire :: "string \<Rightarrow> route_queue_limiter \<Rightarrow>
    route_queue_limiter \<times> (route_queue_rejection + route_queue_permit)" where
  "rq_try_acquire r q =
     (if rq_poisoned q then (q, Inl GlobalCap)
      else if global_cap q \<le> rq_total q then (q, Inl GlobalCap)
      else let current = (case by_route q r of Some c \<Rightarrow> c | None \<Rightarrow> 0) in
        if route_cap q r \<le> current then (q, Inl RouteCap)
        else (q\<lparr>rq_total := saturating_add (rq_total q) 1,
                by_route := (by_route q)(r \<mapsto> current + 1)\<rparr>, Inr \<lparr>rq_route = r\<rparr>))"

definition rq_permit_drop :: "route_queue_permit \<Rightarrow> route_queue_limiter \<Rightarrow> route_queue_limiter" where
  "rq_permit_drop p q =
     (if rq_poisoned q then q
      else case by_route q (rq_route p) of
        None \<Rightarrow> q
      | Some current \<Rightarrow>
          let left = saturating_sub current 1 in
          q\<lparr>by_route := (if left = 0 then (by_route q)(rq_route p := None)
                         else (by_route q)(rq_route p \<mapsto> left)),
            rq_total := saturating_sub (rq_total q) 1\<rparr>)"

text \<open>The limiter as a hander-out of permits.\<close>

definition rq_acquire :: "string \<Rightarrow> route_queue_limiter \<Rightarrow> route_queue_limiter \<times> route_queue_permit option" where
  "rq_acquire r q =
     (case rq_try_acquire r q of (q', Inl e) \<Rightarrow> (q', None) | (q', Inr p) \<Rightarrow> (q', Some p))"

definition rq_settle :: "unit \<Rightarrow> route_queue_permit \<Rightarrow> route_queue_limiter \<Rightarrow> route_queue_limiter" where
  "rq_settle u p q = rq_permit_drop p q"

section \<open>The counters and the permits that are out\<close>

definition route_count :: "route_queue_limiter \<Rightarrow> string \<Rightarrow> nat" where
  "route_count q r = (case by_route q r of Some c \<Rightarrow> unat c | None \<Rightarrow> 0)"

definition rq_limits :: "route_queue_limiter \<Rightarrow> usize \<times> usize \<times> (string \<rightharpoonup> usize)" where
  "rq_limits q = (default_cap q, global_cap q, caps q)"

definition queue_ok :: "usize \<times> usize \<times> (string \<rightharpoonup> usize) \<Rightarrow> nat \<Rightarrow> route_queue_limiter \<Rightarrow>
    route_queue_permit multiset \<Rightarrow> bool" where
  "queue_ok cfg n q out \<longleftrightarrow>
     \<not> rq_poisoned q \<and> rq_limits q = cfg \<and>
     unat (rq_total q) = size out \<and> rq_total q \<le> global_cap q \<and>
     (\<forall>r. route_count q r = count out \<lparr>rq_route = r\<rparr> \<and> by_route q r \<noteq> Some 0 \<and>
          count out \<lparr>rq_route = r\<rparr> \<le> unat (route_cap q r))"

lemma queue_okD:
  assumes "queue_ok cfg n q out"
  shows "\<not> rq_poisoned q" "unat (rq_total q) = size out" "rq_total q \<le> global_cap q"
    and "route_count q r = count out \<lparr>rq_route = r\<rparr>" "by_route q r \<noteq> Some 0"
    and "count out \<lparr>rq_route = r\<rparr> \<le> unat (route_cap q r)"
  using assms by (simp_all add: queue_ok_def)

text \<open>What an update of one route's counter does.\<close>

lemma route_count_upd:
  "route_count (q\<lparr>rq_total := t, by_route := (by_route q)(r := v)\<rparr>) r' =
     (if r' = r then (case v of Some c \<Rightarrow> unat c | None \<Rightarrow> 0) else route_count q r')"
  by (simp add: route_count_def)

lemma route_cap_upd [simp]: "route_cap (q\<lparr>rq_total := t, by_route := m\<rparr>) = route_cap q"
  by (auto simp: route_cap_def fun_eq_iff split: option.splits)

lemma rq_limits_upd [simp]: "rq_limits (q\<lparr>rq_total := t, by_route := m\<rparr>) = rq_limits q"
  by (simp add: rq_limits_def)

lemma rq_acquire_refused:
  assumes "queue_ok cfg n q out" and "rq_acquire r q = (q', None)"
  shows "queue_ok cfg (Suc n) q' out"
proof -
  have "q' = q" using assms(2) by (auto simp: rq_acquire_def rq_try_acquire_def Let_def split: if_splits prod.splits sum.splits)
  with assms(1) show ?thesis by (simp add: queue_ok_def)
qed

lemma rq_acquire_granted:
  assumes ok: "queue_ok cfg n q out" and acq: "rq_acquire r q = (q', Some p)"
  shows "queue_ok cfg (Suc n) q' (add_mset p out)"
proof -
  let ?cur = "case by_route q r of Some c \<Rightarrow> c | None \<Rightarrow> 0"
  have free: "rq_total q < global_cap q" and room: "?cur < route_cap q r"
    and p: "p = \<lparr>rq_route = r\<rparr>"
    and q': "q' = q\<lparr>rq_total := saturating_add (rq_total q) 1, by_route := (by_route q)(r \<mapsto> ?cur + 1)\<rparr>"
    using acq queue_okD(1) [OF ok]
    by (auto simp: rq_acquire_def rq_try_acquire_def Let_def not_le split: if_splits)
  have cur: "unat ?cur = route_count q r" by (simp add: route_count_def split: option.splits)
  have inc: "unat (?cur + 1) = unat ?cur + 1" "?cur + 1 \<le> route_cap q r"
    using unat_incr [OF room] by auto
  then have "?cur + 1 \<noteq> 0" by (metis Suc_eq_plus1 nat.distinct(1) unat_0)
  have "unat (rq_total q) + 1 \<le> unat (global_cap q)" using free by (simp add: word_less_nat_alt)
  then have tot: "unat (saturating_add (rq_total q) 1) = unat (rq_total q) + 1"
    using unat_bound [of "global_cap q"] by (simp add: unat_saturating_add)
  have "saturating_add (rq_total q) 1 \<le> global_cap q" using tot free by (simp add: word_le_nat_alt word_less_nat_alt)
  moreover have "route_count q' r' = count (add_mset p out) \<lparr>rq_route = r'\<rparr>" for r'
    using queue_okD(4) [OF ok, of r'] cur inc(1) unfolding q' p route_count_upd by auto
  moreover have "by_route q' r' \<noteq> Some 0" for r'
    using queue_okD(5) [OF ok, of r'] \<open>?cur + 1 \<noteq> 0\<close> by (simp add: q')
  moreover have "count (add_mset p out) \<lparr>rq_route = r'\<rparr> \<le> unat (route_cap q r')" for r'
    using queue_okD(6) [OF ok, of r'] queue_okD(4) [OF ok, of r'] inc cur by (auto simp: p word_le_nat_alt)
  ultimately show ?thesis
    using ok tot by (simp add: queue_ok_def q')
qed

lemma rq_permit_drop_ok:
  assumes ok: "queue_ok cfg n q (add_mset p out)"
  shows "queue_ok cfg (Suc n) (rq_permit_drop p q) out"
proof -
  let ?r = "rq_route p"
  have pr: "\<lparr>rq_route = ?r\<rparr> = p" by simp
  have "route_count q ?r = Suc (count out p)" using queue_okD(4) [OF ok, of ?r] by (simp add: pr)
  then obtain c where c: "by_route q ?r = Some c" "unat c = Suc (count out p)"
    by (auto simp: route_count_def split: option.splits)
  let ?left = "saturating_sub c 1"
  have left: "unat ?left = count out p" using c(2) by (simp add: unat_saturating_sub)
  let ?m = "(by_route q)(?r := if ?left = 0 then None else Some ?left)"
  have drop: "rq_permit_drop p q = q\<lparr>rq_total := saturating_sub (rq_total q) 1, by_route := ?m\<rparr>"
    using queue_okD(1) [OF ok] c(1) by (simp add: rq_permit_drop_def Let_def)
  have val: "(case (if ?left = 0 then None else Some ?left) of Some c \<Rightarrow> unat c | None \<Rightarrow> 0) = count out p"
    using left by auto
  have tot: "unat (saturating_sub (rq_total q) 1) = size out"
    using queue_okD(2) [OF ok] by (simp add: unat_saturating_sub)
  moreover have "saturating_sub (rq_total q) 1 \<le> global_cap q"
    using queue_okD(2,3) [OF ok] tot by (simp add: word_le_nat_alt)
  moreover have "route_count (rq_permit_drop p q) r = count out \<lparr>rq_route = r\<rparr>" for r
    using queue_okD(4) [OF ok, of r] unfolding drop route_count_upd val by (auto simp: pr)
  moreover have "by_route (rq_permit_drop p q) r \<noteq> Some 0" for r
    using queue_okD(5) [OF ok, of r] unfolding drop by simp
  moreover have "count out \<lparr>rq_route = r\<rparr> \<le> unat (route_cap q r)" for r
    using queue_okD(6) [OF ok, of r] by (simp split: if_splits)
  ultimately show ?thesis using ok by (simp add: queue_ok_def drop)
qed

interpretation rql: permit_ledger rq_acquire rq_settle "queue_ok cfg" "\<lambda>n. True" for cfg
proof
  show "queue_ok cfg (Suc n) s out" if "queue_ok cfg n s out" for n s out
    using that by (simp add: queue_ok_def)
qed (auto intro: rq_acquire_refused rq_acquire_granted rq_permit_drop_ok simp: rq_settle_def)

lemma queue_new_ok: "queue_ok (rq_limits (route_queue_new d g cs)) 0 (route_queue_new d g cs) {#}"
  by (simp add: queue_ok_def route_queue_new_def rq_limits_def route_count_def)

lemma count_route_out: "count (mset out) \<lparr>rq_route = r\<rparr> = length (filter (\<lambda>p. rq_route p = r) out)"
  by (induction out) auto

text \<open>
  C22. After every history of requests and dropped permits the limiter decides a request by the
  number of permits that are out: it answers \<open>GlobalCap\<close> exactly when the global cap of them are
  out, otherwise \<open>RouteCap\<close> exactly when the cap of the requested route are out for that route, and
  otherwise a permit for that route; and it keeps a counter only for routes with permits out.
\<close>

theorem route_queue_exact:
  assumes "ledger_run rq_acquire rq_settle evs (route_queue_new d g cs) = (q, out)"
  shows "snd (rq_try_acquire r q) =
      (if max (unat g) 1 \<le> length out then Inl GlobalCap
       else if max (unat (case cs r of Some c \<Rightarrow> c | None \<Rightarrow> d)) 1 \<le> length (filter (\<lambda>p. rq_route p = r) out)
       then Inl RouteCap else Inr \<lparr>rq_route = r\<rparr>) \<and>
    dom (by_route q) = set (map rq_route out)"
proof -
  have ok: "queue_ok (rq_limits (route_queue_new d g cs)) (length evs) q (mset out)"
    by (rule rql.run_ok [OF queue_new_ok _ assms]) simp
  then have lim: "global_cap q = max g 1" "default_cap q = max d 1" "caps q = cs"
    by (auto simp: queue_ok_def rq_limits_def route_queue_new_def)
  have cap: "unat (route_cap q r) = max (unat (case cs r of Some c \<Rightarrow> c | None \<Rightarrow> d)) 1"
    by (simp add: route_cap_def lim unat_max split: option.splits)
  have cnt: "unat (case by_route q r of Some c \<Rightarrow> c | None \<Rightarrow> 0) = length (filter (\<lambda>p. rq_route p = r) out)" for r
    using queue_okD(4) [OF ok, of r] by (simp add: route_count_def count_route_out split: option.splits)
  have "r \<in> dom (by_route q) \<longleftrightarrow> 0 < length (filter (\<lambda>p. rq_route p = r) out)" for r
    using queue_okD(5) [OF ok, of r] cnt [of r] by (cases "by_route q r") (auto simp: unat_eq_zero word_gt_0)
  then have "r \<in> dom (by_route q) \<longleftrightarrow> r \<in> set (map rq_route out)" for r
    by (auto simp: filter_empty_conv)
  moreover have "unat (rq_total q) = length out" using queue_okD(2) [OF ok] by simp
  ultimately show ?thesis
    using queue_okD(1) [OF ok] cap cnt [of r]
    by (auto simp: rq_try_acquire_def Let_def lim word_le_nat_alt unat_max)
qed

theorem route_queue_exact_witness:
  "\<exists>q out. ledger_run rq_acquire rq_settle [Acquire ''a'', Acquire ''b'', Settle 0 ()]
        (route_queue_new 1 5 Map.empty) = (q, out) \<and> snd (rq_try_acquire ''b'' q) = Inl RouteCap"
proof -
  let ?evs = "[Acquire ''a'', Acquire ''b'', Settle 0 ()]"
  obtain q out where run: "ledger_run rq_acquire rq_settle ?evs (route_queue_new 1 5 Map.empty) = (q, out)"
    by fastforce
  then have "out = [\<lparr>rq_route = ''b''\<rparr>]"
    by (auto simp: ledger_run_def rq_acquire_def rq_try_acquire_def route_queue_new_def rq_settle_def rq_permit_drop_def
        route_cap_def saturating_add_def Let_def word_le_nat_alt unat_max)
  with route_queue_exact [OF run, of "''b''"] run show ?thesis by auto
qed

end
