(* ===== verification/Adaptive_Admission.thy ===== *)
theory Adaptive_Admission
  imports Impulse_Prelude
begin

text \<open>
  The adaptive admission limiter (\<open>edge/src/resilience/adaptive_admission.rs\<close>).  It is lock free:
  \<open>try_acquire\<close> and \<open>observe\<close> are compare-and-exchange loops on two atomics.  A step of
  \<open>admission_step\<close> is one atomic access of one thread, so the results hold for every interleaving of
  any number of threads; the weak exchange of \<open>observe\<close> may also fail spuriously.
\<close>

section \<open>State\<close>

record adaptive_admission =
  aa_enabled :: bool
  min_limit :: usize
  max_limit :: usize
  increase_step :: usize
  decrease_step :: usize
  high_latency_ms :: u64
  current_limit :: usize
  aa_inflight :: usize

definition adaptive_admission_new ::
  "bool \<Rightarrow> usize \<Rightarrow> usize \<Rightarrow> usize \<Rightarrow> usize \<Rightarrow> u64 \<Rightarrow> adaptive_admission" where
  "adaptive_admission_new en lo hi up down high_ms =
     (let hi = max hi 1; lo = min (max lo 1) hi in
      \<lparr>aa_enabled = en, min_limit = lo, max_limit = hi, increase_step = max up 1,
       decrease_step = max down 1, high_latency_ms = max high_ms 1, current_limit = hi, aa_inflight = 0\<rparr>)"

text \<open>Where a thread is in \<open>try_acquire\<close>, in the life of its permit, or in \<open>observe\<close>.\<close>

datatype admission_thread =
    AcquireStart
  | AcquireLoaded usize
  | AcquireExchange usize
  | AcquireRefused
  | HoldingPermit
  | PermitDropped
  | ObserveStart duration bool
  | ObserveLoad bool
  | ObserveExchange bool usize usize
  | ObserveDone

section \<open>The atomic accesses\<close>

text \<open>One access of \<open>try_acquire\<close>; the comparison with the limit is local to the load of the limit.\<close>

definition acquire_start :: "adaptive_admission \<Rightarrow> adaptive_admission \<times> admission_thread" where
  "acquire_start a =
     (if \<not> aa_enabled a then (a\<lparr>aa_inflight := aa_inflight a + 1\<rparr>, HoldingPermit)
      else (a, AcquireLoaded (aa_inflight a)))"

definition acquire_load_limit :: "usize \<Rightarrow> adaptive_admission \<Rightarrow> adaptive_admission \<times> admission_thread" where
  "acquire_load_limit current a =
     (let limit = max (current_limit a) 1 in
      (a, if limit \<le> current then AcquireRefused else AcquireExchange current))"

definition acquire_exchange :: "usize \<Rightarrow> adaptive_admission \<Rightarrow> adaptive_admission \<times> admission_thread" where
  "acquire_exchange current a =
     (if aa_inflight a = current then (a\<lparr>aa_inflight := current + 1\<rparr>, HoldingPermit)
      else (a, AcquireStart))"

definition adaptive_permit_drop :: "adaptive_admission \<Rightarrow> adaptive_admission \<times> admission_thread" where
  "adaptive_permit_drop a = (a\<lparr>aa_inflight := aa_inflight a - 1\<rparr>, PermitDropped)"

definition observe_start :: "duration \<Rightarrow> bool \<Rightarrow> adaptive_admission \<Rightarrow> adaptive_admission \<times> admission_thread" where
  "observe_start latency overloaded a =
     (a, if \<not> aa_enabled a then ObserveDone
         else let latency_ms = of_nat (as_millis latency) :: u64 in
           ObserveLoad (overloaded \<or> high_latency_ms a \<le> latency_ms))"

definition next_limit :: "adaptive_admission \<Rightarrow> bool \<Rightarrow> usize \<Rightarrow> usize" where
  "next_limit a decrease cur =
     (if decrease then max (saturating_sub cur (decrease_step a)) (min_limit a)
      else min (saturating_add cur (increase_step a)) (max_limit a))"

definition observe_load :: "bool \<Rightarrow> adaptive_admission \<Rightarrow> adaptive_admission \<times> admission_thread" where
  "observe_load decrease a =
     (let cur = current_limit a; nxt = next_limit a decrease cur in
      (a, if nxt = cur then ObserveDone else ObserveExchange decrease cur nxt))"

definition observe_exchange ::
  "bool \<Rightarrow> bool \<Rightarrow> usize \<Rightarrow> usize \<Rightarrow> adaptive_admission \<Rightarrow> adaptive_admission \<times> admission_thread" where
  "observe_exchange spurious decrease cur nxt a =
     (if current_limit a = cur \<and> \<not> spurious then (a\<lparr>current_limit := nxt\<rparr>, ObserveDone)
      else (a, ObserveLoad decrease))"

text \<open>The access a thread makes next; a finished thread makes none.\<close>

fun thread_step :: "bool \<Rightarrow> admission_thread \<Rightarrow> adaptive_admission \<Rightarrow> (adaptive_admission \<times> admission_thread) option" where
  "thread_step sp AcquireStart a = Some (acquire_start a)"
| "thread_step sp (AcquireLoaded c) a = Some (acquire_load_limit c a)"
| "thread_step sp (AcquireExchange c) a = Some (acquire_exchange c a)"
| "thread_step sp AcquireRefused a = None"
| "thread_step sp HoldingPermit a = Some (adaptive_permit_drop a)"
| "thread_step sp PermitDropped a = None"
| "thread_step sp (ObserveStart d ov) a = Some (observe_start d ov a)"
| "thread_step sp (ObserveLoad dec) a = Some (observe_load dec a)"
| "thread_step sp (ObserveExchange dec c n) a = Some (observe_exchange sp dec c n a)"
| "thread_step sp ObserveDone a = None"

inductive admission_step ::
  "adaptive_admission \<times> admission_thread list \<Rightarrow> adaptive_admission \<times> admission_thread list \<Rightarrow> bool" where
  spawn_acquire: "admission_step (a, ts) (a, ts @ [AcquireStart])"
| spawn_observe: "admission_step (a, ts) (a, ts @ [ObserveStart d ov])"
| access: "i < length ts \<Longrightarrow> thread_step sp (ts ! i) a = Some (a', t') \<Longrightarrow>
    admission_step (a, ts) (a', ts[i := t'])"

inductive_cases admission_stepE: "admission_step (a, ts) (a', ts')"

text \<open>The getters; the product overflows for absurdly many requests in flight.\<close>

definition inflight_percent :: "bool \<Rightarrow> adaptive_admission \<Rightarrow> u8 option" where
  "inflight_percent dbg a =
     (let limit = max (current_limit a) 1 in
      if dbg \<and> 2 ^ 64 \<le> unat (aa_inflight a) * 100 then None
      else Some (ucast (min ((aa_inflight a * 100) div limit) 100)))"

section \<open>Permits and limits under every interleaving\<close>

definition permits_held :: "admission_thread list \<Rightarrow> nat" where
  "permits_held ts = length (filter (\<lambda>t. t = HoldingPermit) ts)"

definition thread_ok :: "adaptive_admission \<Rightarrow> admission_thread \<Rightarrow> bool" where
  "thread_ok a t =
     (case t of
        AcquireLoaded c \<Rightarrow> aa_enabled a
      | AcquireExchange c \<Rightarrow> aa_enabled a \<and> c < max_limit a
      | ObserveExchange dec c n \<Rightarrow> min_limit a \<le> n \<and> n \<le> max_limit a
      | _ \<Rightarrow> True)"

definition admission_ok :: "adaptive_admission \<times> admission_thread list \<Rightarrow> bool" where
  "admission_ok = (\<lambda>(a, ts).
     1 \<le> min_limit a \<and> min_limit a \<le> current_limit a \<and> current_limit a \<le> max_limit a \<and>
     aa_inflight a = of_nat (permits_held ts) \<and>
     (aa_enabled a \<longrightarrow> permits_held ts \<le> unat (max_limit a)) \<and>
     list_all (thread_ok a) ts)"

definition same_limits :: "adaptive_admission \<Rightarrow> adaptive_admission \<Rightarrow> bool" where
  "same_limits a a' \<longleftrightarrow> aa_enabled a' = aa_enabled a \<and> min_limit a' = min_limit a \<and> max_limit a' = max_limit a"

lemma next_limit_range:
  assumes "min_limit a \<le> c" and "c \<le> max_limit a"
  shows "min_limit a \<le> next_limit a dec c \<and> next_limit a dec c \<le> max_limit a"
proof (cases dec)
  case True
  have "unat (saturating_sub c (decrease_step a)) \<le> unat c" by (simp add: unat_saturating_sub)
  with assms True show ?thesis by (auto simp: next_limit_def word_le_nat_alt unat_max)
next
  case False
  have "unat c \<le> unat (saturating_add c (increase_step a))"
    using unat_bound [of c] by (simp add: unat_saturating_add)
  with assms False show ?thesis by (auto simp: next_limit_def word_le_nat_alt unat_min)
qed

text \<open>Every access keeps the limits in range and is right about the permit it takes or gives back.\<close>

lemma thread_step_limits:
  assumes "thread_step sp t a = Some (a', t')" and "thread_ok a t"
    and "min_limit a \<le> current_limit a" and "current_limit a \<le> max_limit a"
  shows "same_limits a a' \<and> min_limit a \<le> current_limit a' \<and> current_limit a' \<le> max_limit a \<and>
         aa_inflight a' + (if t = HoldingPermit then 1 else 0) =
           aa_inflight a + (if t' = HoldingPermit then 1 else 0)"
  using assms
  by (cases t) (auto simp: same_limits_def acquire_start_def acquire_load_limit_def acquire_exchange_def
      adaptive_permit_drop_def observe_start_def observe_load_def observe_exchange_def thread_ok_def Let_def
      split: if_splits)

lemma thread_step_thread_ok:
  assumes "thread_step sp t a = Some (a', t')" and "thread_ok a t"
    and "1 \<le> min_limit a" and "min_limit a \<le> current_limit a" and "current_limit a \<le> max_limit a"
  shows "thread_ok a' t'"
proof -
  have "max (current_limit a) 1 = current_limit a" by (rule max.absorb1 [OF order_trans [OF assms(3,4)]])
  then show ?thesis
    using assms next_limit_range [OF assms(4,5)]
    by (cases t) (auto simp: acquire_start_def acquire_load_limit_def acquire_exchange_def
        adaptive_permit_drop_def observe_start_def observe_load_def observe_exchange_def thread_ok_def Let_def
        not_le split: if_splits)
qed

lemma thread_step_room:
  assumes "thread_step sp t a = Some (a', HoldingPermit)" and "thread_ok a t" and "aa_enabled a"
  shows "aa_inflight a < max_limit a"
  using assms by (cases t) (auto simp: acquire_start_def acquire_load_limit_def acquire_exchange_def
      adaptive_permit_drop_def observe_start_def observe_load_def observe_exchange_def thread_ok_def Let_def
      split: if_splits)

lemma thread_ok_same_limits: "same_limits a a' \<Longrightarrow> thread_ok a' t = thread_ok a t"
  by (cases t) (auto simp: thread_ok_def same_limits_def)

lemma admission_step_ok:
  assumes "admission_step s s'" and "admission_ok s"
  shows "admission_ok s' \<and> same_limits (fst s) (fst s')"
  using assms
proof (induction rule: admission_step.induct)
  case (access i ts sp a a' t')
  let ?ts = "ts[i := t']"
  have ok: "thread_ok a (ts ! i)" using access by (simp add: admission_ok_def list_all_length)
  have lim: "1 \<le> min_limit a" "min_limit a \<le> current_limit a" "current_limit a \<le> max_limit a"
    and cnt: "aa_inflight a = of_nat (permits_held ts)" "aa_enabled a \<longrightarrow> permits_held ts \<le> unat (max_limit a)"
    using access.prems by (simp_all add: admission_ok_def)
  note st = thread_step_limits [OF access.hyps(2) ok lim(2,3)]
  have upd: "permits_held ?ts + (if ts ! i = HoldingPermit then 1 else 0) =
      permits_held ts + (if t' = HoldingPermit then 1 else 0)"
    unfolding permits_held_def by (rule filter_length_update [OF access.hyps(1)])
  from arg_cong [OF this, of "of_nat :: nat \<Rightarrow> usize"]
  have "of_nat (permits_held ?ts) + (if ts ! i = HoldingPermit then 1 else 0) =
      (of_nat (permits_held ts) + (if t' = HoldingPermit then 1 else 0) :: usize)"
    by (simp split: if_splits)
  then have "aa_inflight a' + (if ts ! i = HoldingPermit then 1 else 0) =
      of_nat (permits_held ?ts) + (if ts ! i = HoldingPermit then 1 else 0)"
    using st cnt(1) by argo
  then have inf: "aa_inflight a' = of_nat (permits_held ?ts)" by (rule add_right_imp_eq)
  have "permits_held ?ts \<le> unat (max_limit a)" if "aa_enabled a"
  proof (cases "t' = HoldingPermit \<and> ts ! i \<noteq> HoldingPermit")
    case True
    then have "aa_inflight a < max_limit a"
      using thread_step_room [of sp "ts ! i" a a'] access.hyps(2) ok that by simp
    moreover have "permits_held ts < 2 ^ 64" using cnt(2) that unat_bound [of "max_limit a"] by simp
    ultimately have "permits_held ts < unat (max_limit a)"
      by (simp add: cnt(1) word_less_nat_alt unat_of_nat_small)
    then show ?thesis using upd True by simp
  next
    case False
    then show ?thesis using upd cnt(2) that by (auto split: if_splits)
  qed
  moreover have "list_all (thread_ok a') ?ts"
    using access st thread_step_thread_ok [OF access.hyps(2) ok lim]
    by (auto simp: admission_ok_def list_all_iff thread_ok_same_limits dest!: set_update_subset_insert [THEN subsetD])
  ultimately show ?case using st inf lim by (auto simp: admission_ok_def same_limits_def)
qed (auto simp: admission_ok_def permits_held_def thread_ok_def same_limits_def)

lemma admission_run_ok:
  assumes "admission_step\<^sup>*\<^sup>* s s'" and "admission_ok s"
  shows "admission_ok s' \<and> same_limits (fst s) (fst s')"
  using assms
proof (induction rule: rtranclp_induct)
  case (step y z)
  then show ?case using admission_step_ok [of y z] by (auto simp: same_limits_def)
qed (simp add: same_limits_def)

lemma admission_new_ok: "admission_ok (adaptive_admission_new en lo hi up down ms, [])"
  by (auto simp: admission_ok_def adaptive_admission_new_def Let_def permits_held_def word_le_nat_alt
      unat_min unat_max)

text \<open>
  C23. Under every interleaving of the atomic accesses of any number of threads the adaptive limit
  stays between its configured bounds, the counter of requests in flight is the number of permits
  held, and with admission control enabled the permits held never exceed the configured maximum,
  although the limit is read and the counter exchanged in separate accesses.
\<close>

theorem admission_bounded_under_interleaving:
  assumes "admission_step\<^sup>*\<^sup>* (adaptive_admission_new en lo hi up down ms, []) (a, ts)"
  shows "min (max (unat lo) 1) (max (unat hi) 1) \<le> unat (current_limit a) \<and>
         unat (current_limit a) \<le> max (unat hi) 1 \<and>
         aa_inflight a = of_nat (permits_held ts) \<and>
         (if en then permits_held ts \<le> max (unat hi) 1 else True)"
proof -
  have ok: "admission_ok (a, ts)" and same: "same_limits (adaptive_admission_new en lo hi up down ms) a"
    using admission_run_ok [OF assms admission_new_ok] by simp_all
  have "aa_enabled a = en" "unat (max_limit a) = max (unat hi) 1"
    "unat (min_limit a) = min (max (unat lo) 1) (max (unat hi) 1)"
    using same by (simp_all add: same_limits_def adaptive_admission_new_def Let_def unat_max unat_min)
  then show ?thesis using ok by (auto simp: admission_ok_def word_le_nat_alt)
qed

theorem admission_bounded_under_interleaving_witness:
  "\<exists>a. admission_step\<^sup>*\<^sup>* (adaptive_admission_new True 1 1 1 1 5, []) (a, [HoldingPermit]) \<and>
     aa_inflight a = 1 \<and> unat (current_limit a) = 1"
proof -
  let ?a = "adaptive_admission_new True 1 1 1 1 5"
  have "admission_step (?a, []) (?a, [AcquireStart])" using spawn_acquire [of ?a "[]"] by simp
  moreover have "admission_step (?a, [AcquireStart]) (?a, [AcquireLoaded 0])"
    using access [of 0 "[AcquireStart]" False ?a ?a "AcquireLoaded 0"]
    by (simp add: acquire_start_def adaptive_admission_new_def)
  moreover have "admission_step (?a, [AcquireLoaded 0]) (?a, [AcquireExchange 0])"
    using access [of 0 "[AcquireLoaded 0]" False ?a ?a "AcquireExchange 0"]
    by (simp add: acquire_load_limit_def adaptive_admission_new_def)
  moreover have "admission_step (?a, [AcquireExchange 0]) (?a\<lparr>aa_inflight := 1\<rparr>, [HoldingPermit])"
    using access [of 0 "[AcquireExchange 0]" False ?a "?a\<lparr>aa_inflight := 1\<rparr>" HoldingPermit]
    by (simp add: acquire_exchange_def adaptive_admission_new_def)
  ultimately have run: "admission_step\<^sup>*\<^sup>* (?a, []) (?a\<lparr>aa_inflight := 1\<rparr>, [HoldingPermit])"
    by (meson rtranclp.rtrancl_into_rtrancl rtranclp.rtrancl_refl)
  from admission_bounded_under_interleaving [OF this] run show ?thesis
    by (intro exI [of _ "?a\<lparr>aa_inflight := 1\<rparr>"]) auto
qed

section \<open>Pressure\<close>

lemma inflight_percent_bounds:
  assumes "inflight_percent dbg a = Some p"
  shows "unat p \<le> 100"
proof -
  let ?v = "min ((aa_inflight a * 100) div max (current_limit a) 1) 100"
  have "unat ?v \<le> 100" by (simp add: unat_min)
  then have "unat (ucast ?v :: u8) = unat ?v"
    by (simp add: unsigned_ucast_eq take_bit_nat_eq_self)
  then show ?thesis using assms \<open>unat ?v \<le> 100\<close> by (auto simp: inflight_percent_def Let_def split: if_splits)
qed

text \<open>Below 2^57 requests in flight the percentage is the rounded-down quotient, capped at 100.\<close>

lemma inflight_percent_exact:
  assumes "unat (aa_inflight a) < 2 ^ 57"
  shows "\<exists>p. inflight_percent dbg a = Some p \<and>
     unat p = min (unat (aa_inflight a) * 100 div max (unat (current_limit a)) 1) 100"
proof -
  let ?v = "min ((aa_inflight a * 100) div max (current_limit a) 1) 100"
  have lt: "unat (aa_inflight a) * 100 < 2 ^ 64" using assms by simp
  then have "unat (aa_inflight a * 100) = unat (aa_inflight a) * 100" by (simp add: unat_word_ariths)
  then have v: "unat ?v = min (unat (aa_inflight a) * 100 div max (unat (current_limit a)) 1) 100"
    by (simp add: unat_min unat_div unat_max)
  have "unat ?v \<le> 100" by (simp add: unat_min)
  then have "unat (ucast ?v :: u8) = unat ?v"
    by (simp add: unsigned_ucast_eq take_bit_nat_eq_self)
  with v lt show ?thesis by (simp add: inflight_percent_def Let_def)
qed

end
