(* ===== verification/Retry_Budget.thy ===== *)
theory Retry_Budget
  imports Impulse_Prelude
begin

text \<open>
  The retry budget (\<open>edge/src/resilience/retry_budget.rs\<close>).  Retries are limited to a percentage of
  the primary requests, globally and per route, plus one.  The global counters are atomics and the
  route table is under a mutex, so \<open>allow_retry\<close> is four separate accesses: load the primaries,
  reserve a global retry, decide for the route, and give the global retry back if the route refuses.
  A step is one such access of one thread.  \<open>dbg\<close> selects builds with overflow checks, in which an
  overflowing product panics.  A poisoned mutex is recovered by \<open>lock_route_stats\<close>, so poisoning
  changes nothing.
\<close>

section \<open>State\<close>

record retry_budget =
  rb_enabled :: bool
  global_ratio_percent :: u8
  per_route_ratio_percent :: "string \<rightharpoonup> u8"
  global_primary :: u64
  global_retries :: u64
  route_stats :: "string \<rightharpoonup> u64 \<times> u64"

definition retry_budget_new :: "bool \<Rightarrow> u8 \<Rightarrow> (string \<rightharpoonup> u8) \<Rightarrow> retry_budget" where
  "retry_budget_new en ratio per_route =
     \<lparr>rb_enabled = en, global_ratio_percent = ratio, per_route_ratio_percent = per_route,
      global_primary = 0, global_retries = 0, route_stats = Map.empty\<rparr>"

datatype budget_thread =
    MarkStart string
  | MarkRoute string
  | MarkDone string
  | RetryStart string
  | RetryReserve string u64
  | RetryRoute string
  | RetryRefund string
  | RetryAllowed string
  | RetryDenied string
  | RetryPanicked string

section \<open>The accesses\<close>

definition route_entry :: "retry_budget \<Rightarrow> string \<Rightarrow> u64 \<times> u64" where
  "route_entry rb r = (case route_stats rb r of Some e \<Rightarrow> e | None \<Rightarrow> (0, 0))"

definition route_ratio :: "retry_budget \<Rightarrow> string \<Rightarrow> u8" where
  "route_ratio rb r = (case per_route_ratio_percent rb r of Some q \<Rightarrow> q | None \<Rightarrow> global_ratio_percent rb)"

text \<open>\<open>((primary * ratio as u64) / 100).saturating_add(1)\<close>\<close>

definition retry_limit :: "bool \<Rightarrow> u64 \<Rightarrow> u8 \<Rightarrow> u64 option" where
  "retry_limit dbg primary ratio =
     (if dbg \<and> 2 ^ 64 \<le> unat primary * unat ratio then None
      else Some (saturating_add ((primary * ucast ratio) div 100) 1))"

definition mark_global :: "retry_budget \<Rightarrow> retry_budget" where
  "mark_global rb = rb\<lparr>global_primary := global_primary rb + 1\<rparr>"

definition mark_route :: "string \<Rightarrow> retry_budget \<Rightarrow> retry_budget" where
  "mark_route r rb = (case route_entry rb r of (p, q) \<Rightarrow>
     rb\<lparr>route_stats := (route_stats rb)(r \<mapsto> (saturating_add p 1, q))\<rparr>)"

definition retry_start :: "bool \<Rightarrow> string \<Rightarrow> retry_budget \<Rightarrow> retry_budget \<times> budget_thread" where
  "retry_start dbg r rb =
     (rb, if \<not> rb_enabled rb then RetryAllowed r
          else case retry_limit dbg (global_primary rb) (global_ratio_percent rb) of
            None \<Rightarrow> RetryPanicked r
          | Some limit \<Rightarrow> RetryReserve r limit)"

definition retry_reserve :: "string \<Rightarrow> u64 \<Rightarrow> retry_budget \<Rightarrow> retry_budget \<times> budget_thread" where
  "retry_reserve r limit rb =
     (if global_retries rb < limit then (rb\<lparr>global_retries := global_retries rb + 1\<rparr>, RetryRoute r)
      else (rb, RetryDenied r))"

definition retry_route :: "bool \<Rightarrow> string \<Rightarrow> retry_budget \<Rightarrow> retry_budget \<times> budget_thread" where
  "retry_route dbg r rb = (case route_entry rb r of (p, q) \<Rightarrow>
     (case retry_limit dbg p (route_ratio rb r) of
        None \<Rightarrow> (rb\<lparr>route_stats := (route_stats rb)(r \<mapsto> (p, q))\<rparr>, RetryPanicked r)
      | Some limit \<Rightarrow>
          if limit \<le> q then (rb\<lparr>route_stats := (route_stats rb)(r \<mapsto> (p, q))\<rparr>, RetryRefund r)
          else (rb\<lparr>route_stats := (route_stats rb)(r \<mapsto> (p, saturating_add q 1))\<rparr>, RetryAllowed r)))"

definition retry_refund :: "string \<Rightarrow> retry_budget \<Rightarrow> retry_budget \<times> budget_thread" where
  "retry_refund r rb = (rb\<lparr>global_retries := global_retries rb - 1\<rparr>, RetryDenied r)"

fun budget_access :: "bool \<Rightarrow> budget_thread \<Rightarrow> retry_budget \<Rightarrow> (retry_budget \<times> budget_thread) option" where
  "budget_access dbg (MarkStart r) rb = Some (mark_global rb, MarkRoute r)"
| "budget_access dbg (MarkRoute r) rb = Some (mark_route r rb, MarkDone r)"
| "budget_access dbg (RetryStart r) rb = Some (retry_start dbg r rb)"
| "budget_access dbg (RetryReserve r limit) rb = Some (retry_reserve r limit rb)"
| "budget_access dbg (RetryRoute r) rb = Some (retry_route dbg r rb)"
| "budget_access dbg (RetryRefund r) rb = Some (retry_refund r rb)"
| "budget_access dbg (MarkDone r) rb = None"
| "budget_access dbg (RetryAllowed r) rb = None"
| "budget_access dbg (RetryDenied r) rb = None"
| "budget_access dbg (RetryPanicked r) rb = None"

inductive budget_step :: "bool \<Rightarrow> retry_budget \<times> budget_thread list \<Rightarrow> retry_budget \<times> budget_thread list \<Rightarrow> bool"
  for dbg where
  spawn_mark: "budget_step dbg (rb, ts) (rb, ts @ [MarkStart r])"
| spawn_retry: "budget_step dbg (rb, ts) (rb, ts @ [RetryStart r])"
| budget_access: "i < length ts \<Longrightarrow> budget_access dbg (ts ! i) rb = Some (rb', t') \<Longrightarrow>
    budget_step dbg (rb, ts) (rb', ts[i := t'])"

text \<open>The operations when no other thread interferes.\<close>

definition mark_primary :: "string \<Rightarrow> retry_budget \<Rightarrow> retry_budget" where
  "mark_primary r rb = mark_route r (mark_global rb)"

fun run_thread :: "nat \<Rightarrow> bool \<Rightarrow> budget_thread \<Rightarrow> retry_budget \<Rightarrow> retry_budget \<times> budget_thread" where
  "run_thread 0 dbg t rb = (rb, t)"
| "run_thread (Suc n) dbg t rb =
     (case budget_access dbg t rb of None \<Rightarrow> (rb, t) | Some (rb', t') \<Rightarrow> run_thread n dbg t' rb')"

definition allow_retry :: "bool \<Rightarrow> string \<Rightarrow> retry_budget \<Rightarrow> retry_budget \<times> budget_thread" where
  "allow_retry dbg r rb = run_thread 4 dbg (RetryStart r) rb"

section \<open>Counting threads\<close>

definition is_marked :: "budget_thread \<Rightarrow> bool" where
  "is_marked t \<longleftrightarrow> (case t of MarkRoute r \<Rightarrow> True | MarkDone r \<Rightarrow> True | _ \<Rightarrow> False)"

definition is_reserved :: "budget_thread \<Rightarrow> bool" where
  "is_reserved t \<longleftrightarrow> (case t of RetryRoute r \<Rightarrow> True | RetryRefund r \<Rightarrow> True | RetryAllowed r \<Rightarrow> True | _ \<Rightarrow> False)"

definition is_allowed :: "budget_thread \<Rightarrow> bool" where
  "is_allowed t \<longleftrightarrow> (case t of RetryAllowed r \<Rightarrow> True | _ \<Rightarrow> False)"

definition primaries_marked :: "budget_thread list \<Rightarrow> nat" where
  "primaries_marked ts = length (filter is_marked ts)"

definition route_primaries :: "string \<Rightarrow> budget_thread list \<Rightarrow> nat" where
  "route_primaries r ts = length (filter (\<lambda>t. t = MarkDone r) ts)"

definition retries_allowed :: "budget_thread list \<Rightarrow> nat" where
  "retries_allowed ts = length (filter is_allowed ts)"

definition route_retries_allowed :: "string \<Rightarrow> budget_thread list \<Rightarrow> nat" where
  "route_retries_allowed r ts = length (filter (\<lambda>t. t = RetryAllowed r) ts)"

text \<open>Threads that hold a global retry: those allowed, and those that wait for the route's verdict
  or are about to give it back.\<close>

definition retries_reserved :: "budget_thread list \<Rightarrow> nat" where
  "retries_reserved ts = length (filter is_reserved ts)"

lemmas count_defs = primaries_marked_def route_primaries_def retries_allowed_def route_retries_allowed_def
  retries_reserved_def

lemma retries_allowed_le: "retries_allowed ts \<le> retries_reserved ts"
  unfolding count_defs by (induction ts) (auto simp: is_allowed_def is_reserved_def split: budget_thread.splits)

definition percent_limit :: "nat \<Rightarrow> u8 \<Rightarrow> nat" where
  "percent_limit n ratio = n * unat ratio div 100 + 1"

lemma percent_limit_mono: "m \<le> n \<Longrightarrow> percent_limit m ratio \<le> percent_limit n ratio"
  by (simp add: percent_limit_def div_le_mono)

lemma retry_limit_small:
  assumes "unat primary < 2 ^ 56"
  shows "\<exists>l. retry_limit dbg primary ratio = Some l \<and> unat l = percent_limit (unat primary) ratio"
proof -
  have w: "unat (ucast ratio :: u64) = unat ratio"
    using unat_bound [of ratio] by (simp add: unsigned_ucast_eq take_bit_nat_eq_self)
  have "unat primary * unat ratio \<le> (2 ^ 56 - 1) * 255"
    using assms unat_bound [of ratio] by (intro mult_le_mono) simp_all
  then have lt: "unat primary * unat ratio < 2 ^ 64" by simp
  then have "unat (primary * ucast ratio) = unat primary * unat ratio" by (simp add: unat_word_ariths w)
  then have "unat ((primary * ucast ratio) div 100) = unat primary * unat ratio div 100" by (simp add: unat_div)
  moreover have "unat primary * unat ratio div 100 < 2 ^ 64 - 1" using lt by simp
  ultimately show ?thesis using lt by (simp add: retry_limit_def unat_saturating_add percent_limit_def)
qed

section \<open>The budget under every interleaving\<close>

definition budget_thread_ok :: "retry_budget \<Rightarrow> nat \<Rightarrow> budget_thread \<Rightarrow> bool" where
  "budget_thread_ok rb primaries t =
     (case t of
        RetryReserve r limit \<Rightarrow> rb_enabled rb \<and> unat limit \<le> percent_limit primaries (global_ratio_percent rb)
      | RetryRoute r \<Rightarrow> rb_enabled rb
      | RetryRefund r \<Rightarrow> rb_enabled rb
      | RetryPanicked r \<Rightarrow> False
      | _ \<Rightarrow> True)"

definition route_ok :: "retry_budget \<Rightarrow> budget_thread list \<Rightarrow> string \<Rightarrow> bool" where
  "route_ok rb ts r \<longleftrightarrow>
     unat (fst (route_entry rb r)) = route_primaries r ts \<and>
     (rb_enabled rb \<longrightarrow> unat (snd (route_entry rb r)) = route_retries_allowed r ts \<and>
        route_retries_allowed r ts \<le> percent_limit (route_primaries r ts) (route_ratio rb r))"

definition budget_ok :: "retry_budget \<times> budget_thread list \<Rightarrow> bool" where
  "budget_ok = (\<lambda>(rb, ts).
     unat (global_primary rb) = primaries_marked ts \<and>
     (rb_enabled rb \<longrightarrow> unat (global_retries rb) = retries_reserved ts \<and>
        retries_reserved ts \<le> percent_limit (primaries_marked ts) (global_ratio_percent rb)) \<and>
     (\<forall>r. route_ok rb ts r) \<and> list_all (budget_thread_ok rb (primaries_marked ts)) ts)"

lemma counts_bound:
  "primaries_marked ts \<le> length ts" "route_primaries r ts \<le> length ts" "retries_reserved ts \<le> length ts"
  "route_retries_allowed r ts \<le> length ts"
  unfolding count_defs by (rule length_filter_le)+

text \<open>What moving one thread from \<open>t\<close> to \<open>t'\<close> does to the counts.\<close>

lemma counts_update:
  assumes "i < length ts"
  shows "primaries_marked (ts[i := t']) + (if is_marked (ts ! i) then 1 else 0) =
      primaries_marked ts + (if is_marked t' then 1 else 0)"
    and "route_primaries r (ts[i := t']) + (if ts ! i = MarkDone r then 1 else 0) =
      route_primaries r ts + (if t' = MarkDone r then 1 else 0)"
    and "route_retries_allowed r (ts[i := t']) + (if ts ! i = RetryAllowed r then 1 else 0) =
      route_retries_allowed r ts + (if t' = RetryAllowed r then 1 else 0)"
    and "retries_reserved (ts[i := t']) + (if is_reserved (ts ! i) then 1 else 0) =
      retries_reserved ts + (if is_reserved t' then 1 else 0)"
  unfolding count_defs by (rule filter_length_update [OF assms])+

lemma thread_kinds [simp]:
  "\<not> is_marked (MarkStart r)" "is_marked (MarkRoute r)" "is_marked (MarkDone r)" "\<not> is_marked (RetryStart r)"
  "\<not> is_marked (RetryReserve r l)" "\<not> is_marked (RetryRoute r)" "\<not> is_marked (RetryRefund r)"
  "\<not> is_marked (RetryAllowed r)" "\<not> is_marked (RetryDenied r)" "\<not> is_marked (RetryPanicked r)"
  "\<not> is_reserved (MarkStart r)" "\<not> is_reserved (MarkRoute r)" "\<not> is_reserved (MarkDone r)"
  "\<not> is_reserved (RetryStart r)" "\<not> is_reserved (RetryReserve r l)" "is_reserved (RetryRoute r)"
  "is_reserved (RetryRefund r)" "is_reserved (RetryAllowed r)" "\<not> is_reserved (RetryDenied r)"
  "\<not> is_reserved (RetryPanicked r)"
  by (simp_all add: is_marked_def is_reserved_def)

definition same_ratios :: "retry_budget \<Rightarrow> retry_budget \<Rightarrow> bool" where
  "same_ratios rb rb' \<longleftrightarrow> rb_enabled rb' = rb_enabled rb \<and> global_ratio_percent rb' = global_ratio_percent rb \<and>
     per_route_ratio_percent rb' = per_route_ratio_percent rb"

lemma access_same_ratios: "budget_access dbg t rb = Some (rb', t') \<Longrightarrow> same_ratios rb rb'"
  by (cases t) (auto simp: same_ratios_def mark_global_def mark_route_def retry_start_def retry_reserve_def
      retry_route_def retry_refund_def split: if_splits option.splits prod.splits)

lemma same_ratios_route: "same_ratios rb rb' \<Longrightarrow> route_ratio rb' r = route_ratio rb r"
  by (auto simp: same_ratios_def route_ratio_def split: option.splits)

text \<open>The other threads stay as they are when the number of primaries grows.\<close>

lemma threads_ok_update:
  assumes "list_all (budget_thread_ok rb n) ts" and "same_ratios rb rb'" and "n \<le> n'"
    and "budget_thread_ok rb' n' t'"
  shows "list_all (budget_thread_ok rb' n') (ts[i := t'])"
proof -
  have "budget_thread_ok rb' n' t" if "budget_thread_ok rb n t" for t
    using that assms(2) percent_limit_mono [OF assms(3), of "global_ratio_percent rb"]
    by (cases t) (auto simp: budget_thread_ok_def same_ratios_def intro: order_trans)
  then show ?thesis
    using assms(1,4) by (auto simp: list_all_iff dest!: set_update_subset_insert [THEN subsetD])
qed

lemma route_entry_upd:
  "route_entry (rb\<lparr>route_stats := (route_stats rb)(r \<mapsto> e)\<rparr>) r' = (if r' = r then e else route_entry rb r')"
  by (simp add: route_entry_def)

lemma route_entry_global [simp]:
  "route_entry (rb\<lparr>global_primary := n\<rparr>) = route_entry rb" "route_entry (rb\<lparr>global_retries := n\<rparr>) = route_entry rb"
  by (simp_all add: route_entry_def fun_eq_iff)

lemma route_ratio_upd [simp]:
  "route_ratio (rb\<lparr>global_primary := n\<rparr>) = route_ratio rb" "route_ratio (rb\<lparr>global_retries := n\<rparr>) = route_ratio rb"
  "route_ratio (rb\<lparr>route_stats := m\<rparr>) = route_ratio rb"
  by (auto simp: route_ratio_def fun_eq_iff split: option.splits)

lemma budget_okD:
  assumes "budget_ok (rb, ts)" and "i < length ts" and "length ts < 2 ^ 56"
  shows "unat (global_primary rb) = primaries_marked ts" "primaries_marked ts < 2 ^ 56"
    and "rb_enabled rb \<Longrightarrow> unat (global_retries rb) = retries_reserved ts"
    and "rb_enabled rb \<Longrightarrow> retries_reserved ts \<le> percent_limit (primaries_marked ts) (global_ratio_percent rb)"
    and "route_ok rb ts r" "list_all (budget_thread_ok rb (primaries_marked ts)) ts"
    and "budget_thread_ok rb (primaries_marked ts) (ts ! i)"
  using assms counts_bound(1) [of ts] by (simp_all add: budget_ok_def list_all_length)

text \<open>An access that marks no primary and reaches a thread that is in order.\<close>

lemma budget_ok_access:
  assumes ok: "budget_ok (rb, ts)" and i: "i < length ts" and few: "length ts < 2 ^ 56"
    and "budget_access dbg (ts ! i) rb = Some (rb', t')"
    and prim: "primaries_marked (ts[i := t']) = primaries_marked ts" "global_primary rb' = global_primary rb"
    and retries: "rb_enabled rb \<Longrightarrow> unat (global_retries rb') = retries_reserved (ts[i := t']) \<and>
      retries_reserved (ts[i := t']) \<le> percent_limit (primaries_marked ts) (global_ratio_percent rb)"
    and routes: "\<And>r. route_ok rb' (ts[i := t']) r"
    and thread: "budget_thread_ok rb' (primaries_marked ts) t'"
  shows "budget_ok (rb', ts[i := t'])"
proof -
  have same: "same_ratios rb rb'" by (rule access_same_ratios) (rule assms(4))
  have "list_all (budget_thread_ok rb' (primaries_marked ts)) (ts[i := t'])"
    by (rule threads_ok_update [OF budget_okD(6) [OF ok i few] same order_refl thread])
  then show ?thesis
    using budget_okD [OF ok i few] prim retries routes same by (auto simp: budget_ok_def same_ratios_def)
qed

lemma mark_start_ok:
  assumes ok: "budget_ok (rb, ts)" and i: "i < length ts" and few: "length ts < 2 ^ 56" and t: "ts ! i = MarkStart r"
  shows "budget_ok (mark_global rb, ts[i := MarkRoute r])"
proof -
  note parts = budget_okD [OF ok i few]
  have "primaries_marked (ts[i := MarkRoute r]) = primaries_marked ts + 1"
    and "retries_reserved (ts[i := MarkRoute r]) = retries_reserved ts"
    and "\<And>r'. route_primaries r' (ts[i := MarkRoute r]) = route_primaries r' ts"
    and "\<And>r'. route_retries_allowed r' (ts[i := MarkRoute r]) = route_retries_allowed r' ts"
    using counts_update [OF i, where t' = "MarkRoute r"] t by simp_all
  moreover have "unat (global_primary rb + 1) = unat (global_primary rb) + 1"
    using parts(1,2) by (simp add: unat_word_ariths)
  moreover have "list_all (budget_thread_ok (mark_global rb) (primaries_marked ts + 1)) (ts[i := MarkRoute r])"
    by (rule threads_ok_update [OF parts(6)]) (simp_all add: same_ratios_def mark_global_def budget_thread_ok_def)
  ultimately show ?thesis
    using parts percent_limit_mono [of "primaries_marked ts" "primaries_marked ts + 1" "global_ratio_percent rb"]
    by (auto simp: budget_ok_def mark_global_def route_ok_def intro: order_trans)
qed

lemma mark_route_ok:
  assumes ok: "budget_ok (rb, ts)" and i: "i < length ts" and few: "length ts < 2 ^ 56" and t: "ts ! i = MarkRoute r"
  shows "budget_ok (mark_route r rb, ts[i := MarkDone r])"
proof (rule budget_ok_access [OF ok i few, of False])
  note parts = budget_okD [OF ok i few] and upd = counts_update [OF i, where t' = "MarkDone r"]
  obtain p q where e: "route_entry rb r = (p, q)" by fastforce
  have rb: "mark_route r rb = rb\<lparr>route_stats := (route_stats rb)(r \<mapsto> (saturating_add p 1, q))\<rparr>"
    by (simp add: mark_route_def e)
  show "budget_access False (ts ! i) rb = Some (mark_route r rb, MarkDone r)" by (simp add: t)
  show "primaries_marked (ts[i := MarkDone r]) = primaries_marked ts" using upd(1) t by simp
  show "global_primary (mark_route r rb) = global_primary rb" by (simp add: rb)
  have reserved: "retries_reserved (ts[i := MarkDone r]) = retries_reserved ts" using upd(4) t by simp
  then show "unat (global_retries (mark_route r rb)) = retries_reserved (ts[i := MarkDone r]) \<and>
      retries_reserved (ts[i := MarkDone r]) \<le> percent_limit (primaries_marked ts) (global_ratio_percent rb)"
    if "rb_enabled rb" using parts(3,4) that by (simp add: rb)
  show "budget_thread_ok (mark_route r rb) (primaries_marked ts) (MarkDone r)" by (simp add: budget_thread_ok_def)
  show "route_ok (mark_route r rb) (ts[i := MarkDone r]) r'" for r'
  proof (cases "r' = r")
    case True
    have cnt: "route_primaries r (ts[i := MarkDone r]) = route_primaries r ts + 1"
      "route_retries_allowed r (ts[i := MarkDone r]) = route_retries_allowed r ts"
      using upd(2) [where r = r] upd(3) [where r = r] t by simp_all
    have "unat p < 2 ^ 56" using parts(5) [of r] e few counts_bound(2) [of r ts] by (simp add: route_ok_def)
    then have "unat (saturating_add p 1) = unat p + 1" by (simp add: unat_saturating_add)
    then show ?thesis
      using parts(5) [of r] e cnt True percent_limit_mono [of "route_primaries r ts" "route_primaries r ts + 1" "route_ratio rb r"]
      unfolding rb by (auto simp: route_ok_def route_entry_upd intro: order_trans)
  next
    case False
    then show ?thesis
      using parts(5) [of r'] upd(2) [where r = r'] upd(3) [where r = r'] t unfolding rb by (simp add: route_ok_def route_entry_upd)
  qed
qed

lemma route_ok_same:
  assumes "route_ok rb ts r" and "same_ratios rb rb'" and "route_entry rb' r = route_entry rb r"
    and "route_primaries r ts' = route_primaries r ts"
    and "rb_enabled rb \<Longrightarrow> route_retries_allowed r ts' = route_retries_allowed r ts"
  shows "route_ok rb' ts' r"
  using assms same_ratios_route [OF assms(2), of r] by (auto simp: route_ok_def same_ratios_def)

text \<open>An access of \<open>allow_retry\<close> that leaves the route table and the set of allowed threads alone.\<close>

lemma budget_ok_global_access:
  assumes ok: "budget_ok (rb, ts)" and i: "i < length ts" and few: "length ts < 2 ^ 56"
    and acc: "budget_access dbg (ts ! i) rb = Some (rb', t')"
    and kinds: "\<not> is_marked (ts ! i)" "\<not> is_marked t'" "\<not> is_allowed (ts ! i)" "rb_enabled rb \<Longrightarrow> \<not> is_allowed t'"
    and rb': "rb' = rb\<lparr>global_retries := g\<rparr>"
    and retries: "rb_enabled rb \<Longrightarrow> unat g = retries_reserved (ts[i := t']) \<and>
      retries_reserved (ts[i := t']) \<le> percent_limit (primaries_marked ts) (global_ratio_percent rb)"
    and thread: "budget_thread_ok rb (primaries_marked ts) t'"
  shows "budget_ok (rb', ts[i := t'])"
proof (rule budget_ok_access [OF ok i few acc])
  note upd = counts_update [OF i, where t' = t']
  show "primaries_marked (ts[i := t']) = primaries_marked ts" using upd(1) kinds by simp
  show "budget_thread_ok rb' (primaries_marked ts) t'"
    using thread unfolding rb' by (cases t') (auto simp: budget_thread_ok_def)
  show "route_ok rb' (ts[i := t']) r" for r
  proof (rule route_ok_same [OF budget_okD(5) [OF ok i few]])
    show "same_ratios rb rb'" by (simp add: rb' same_ratios_def)
    show "route_primaries r (ts[i := t']) = route_primaries r ts"
      using upd(2) [where r = r] kinds by (auto simp: is_marked_def split: if_splits)
    show "route_retries_allowed r (ts[i := t']) = route_retries_allowed r ts" if "rb_enabled rb"
      using upd(3) [where r = r] kinds that by (auto simp: is_allowed_def split: if_splits)
  qed (simp add: rb')
qed (use rb' retries in auto)

lemma retry_start_ok:
  assumes ok: "budget_ok (rb, ts)" and i: "i < length ts" and few: "length ts < 2 ^ 56" and t: "ts ! i = RetryStart r"
    and st: "retry_start dbg r rb = (rb', t')"
  shows "budget_ok (rb', ts[i := t'])"
proof -
  note parts = budget_okD [OF ok i few]
  obtain l where l: "retry_limit dbg (global_primary rb) (global_ratio_percent rb) = Some l"
      "unat l = percent_limit (primaries_marked ts) (global_ratio_percent rb)"
    using retry_limit_small [of "global_primary rb" dbg "global_ratio_percent rb"] parts(1,2) by auto
  have t': "rb' = rb" "t' = (if rb_enabled rb then RetryReserve r l else RetryAllowed r)"
    using st l(1) by (auto simp: retry_start_def)
  show ?thesis
  proof (rule budget_ok_global_access [OF ok i few, of dbg _ _ "global_retries rb"])
    show "budget_access dbg (ts ! i) rb = Some (rb', t')" by (simp add: t st)
    show "unat (global_retries rb) = retries_reserved (ts[i := t']) \<and>
        retries_reserved (ts[i := t']) \<le> percent_limit (primaries_marked ts) (global_ratio_percent rb)" if "rb_enabled rb"
      using parts(3,4) counts_update(4) [OF i, of t'] t that by (simp add: t')
  qed (use t t' l(2) in \<open>auto simp: is_allowed_def budget_thread_ok_def\<close>)
qed

lemma retry_reserve_ok:
  assumes ok: "budget_ok (rb, ts)" and i: "i < length ts" and few: "length ts < 2 ^ 56" and t: "ts ! i = RetryReserve r l"
    and st: "retry_reserve r l rb = (rb', t')"
  shows "budget_ok (rb', ts[i := t'])"
proof -
  note parts = budget_okD [OF ok i few]
  have en: "rb_enabled rb" and l: "unat l \<le> percent_limit (primaries_marked ts) (global_ratio_percent rb)"
    using parts(7) t by (simp_all add: budget_thread_ok_def)
  let ?g = "if global_retries rb < l then global_retries rb + 1 else global_retries rb"
  have t': "rb' = rb\<lparr>global_retries := ?g\<rparr>" "t' = (if global_retries rb < l then RetryRoute r else RetryDenied r)"
    using st by (auto simp: retry_reserve_def split: if_splits)
  show ?thesis
  proof (rule budget_ok_global_access [OF ok i few, of dbg _ _ ?g])
    show "budget_access dbg (ts ! i) rb = Some (rb', t')" by (simp add: t st)
    show "unat ?g = retries_reserved (ts[i := t']) \<and>
        retries_reserved (ts[i := t']) \<le> percent_limit (primaries_marked ts) (global_ratio_percent rb)"
      using parts(3,4) [OF en] counts_update(4) [OF i, of t'] t l unat_incr(1) [of "global_retries rb" l]
      by (auto simp: t' word_less_nat_alt)
  qed (use t t' en in \<open>auto simp: is_allowed_def budget_thread_ok_def\<close>)
qed

lemma retry_refund_ok:
  assumes ok: "budget_ok (rb, ts)" and i: "i < length ts" and few: "length ts < 2 ^ 56" and t: "ts ! i = RetryRefund r"
    and st: "retry_refund r rb = (rb', t')"
  shows "budget_ok (rb', ts[i := t'])"
proof -
  note parts = budget_okD [OF ok i few]
  have en: "rb_enabled rb" using parts(7) t by (simp add: budget_thread_ok_def)
  have t': "rb' = rb\<lparr>global_retries := global_retries rb - 1\<rparr>" "t' = RetryDenied r"
    using st by (simp_all add: retry_refund_def)
  have less: "retries_reserved (ts[i := t']) + 1 = retries_reserved ts"
    using counts_update(4) [OF i, of t'] t t'(2) by simp
  then have "0 < global_retries rb" using parts(3) [OF en] by (metis add_gr_0 unat_gt_0 word_neq_0_conv zero_less_one)
  note dec = unat_decr(1) [OF this]
  show ?thesis
  proof (rule budget_ok_global_access [OF ok i few, of dbg _ _ "global_retries rb - 1"])
    show "budget_access dbg (ts ! i) rb = Some (rb', t')" by (simp add: t st)
    show "unat (global_retries rb - 1) = retries_reserved (ts[i := t']) \<and>
        retries_reserved (ts[i := t']) \<le> percent_limit (primaries_marked ts) (global_ratio_percent rb)"
      using parts(3,4) [OF en] less dec by simp
  qed (use t t' in \<open>auto simp: is_allowed_def budget_thread_ok_def\<close>)
qed

lemma retry_route_ok:
  assumes ok: "budget_ok (rb, ts)" and i: "i < length ts" and few: "length ts < 2 ^ 56" and t: "ts ! i = RetryRoute r"
    and st: "retry_route dbg r rb = (rb', t')"
  shows "budget_ok (rb', ts[i := t'])"
proof (rule budget_ok_access [OF ok i few, of dbg])
  note parts = budget_okD [OF ok i few] and upd = counts_update [OF i, where t' = t']
  have en: "rb_enabled rb" using parts(7) t by (simp add: budget_thread_ok_def)
  obtain p q where e: "route_entry rb r = (p, q)" by fastforce
  have pq: "unat p = route_primaries r ts" "unat q = route_retries_allowed r ts"
    using parts(5) [of r] e en by (simp_all add: route_ok_def)
  then have "unat p < 2 ^ 56" using counts_bound(2) [of r ts] few by simp
  then obtain l where l: "retry_limit dbg p (route_ratio rb r) = Some l" "unat l = percent_limit (unat p) (route_ratio rb r)"
    using retry_limit_small by blast
  let ?q = "if l \<le> q then q else saturating_add q 1"
  have rb': "rb' = rb\<lparr>route_stats := (route_stats rb)(r \<mapsto> (p, ?q))\<rparr>"
    and t': "t' = (if l \<le> q then RetryRefund r else RetryAllowed r)"
    using st e l(1) by (auto simp: retry_route_def split: if_splits)
  show "budget_access dbg (ts ! i) rb = Some (rb', t')" by (simp add: t st)
  have kinds: "\<not> is_marked t'" "is_reserved t'" "t' \<noteq> MarkDone r'" for r' by (simp_all add: t')
  show "primaries_marked (ts[i := t']) = primaries_marked ts" using upd(1) t kinds by simp
  show "global_primary rb' = global_primary rb" by (simp add: rb')
  have "retries_reserved (ts[i := t']) = retries_reserved ts" using upd(4) t kinds by simp
  then show "unat (global_retries rb') = retries_reserved (ts[i := t']) \<and>
      retries_reserved (ts[i := t']) \<le> percent_limit (primaries_marked ts) (global_ratio_percent rb)"
    using parts(3,4) [OF en] by (simp add: rb')
  show "budget_thread_ok rb' (primaries_marked ts) t'" using en by (simp add: budget_thread_ok_def t' rb')
  have same: "same_ratios rb rb'" by (simp add: rb' same_ratios_def)
  have prim: "route_primaries r' (ts[i := t']) = route_primaries r' ts" for r'
    using upd(2) [where r = r'] t kinds by simp
  show "route_ok rb' (ts[i := t']) r'" for r'
  proof (cases "r' = r \<and> \<not> l \<le> q")
    case True
    have "q < l" using True by (simp add: not_le)
    then have "unat q + 1 \<le> unat l" by (simp add: word_less_nat_alt)
    moreover have "unat (saturating_add q 1) = unat q + 1"
      using calculation unat_bound [of l] by (simp add: unat_saturating_add)
    ultimately show ?thesis
      using True pq l(2) prim [of r] upd(3) [where r = r] t unfolding rb'
      by (simp add: route_ok_def route_entry_upd t')
  next
    case False
    show ?thesis
    proof (rule route_ok_same [OF parts(5) same _ prim])
      show "route_entry rb' r' = route_entry rb r'" using False e by (auto simp: rb' route_entry_upd)
      show "route_retries_allowed r' (ts[i := t']) = route_retries_allowed r' ts"
        using upd(3) [where r = r'] t False by (auto simp: t' split: if_splits)
    qed
  qed
qed

lemma budget_step_ok:
  assumes "budget_step dbg s s'" and "budget_ok s" and "length (snd s) < 2 ^ 56"
  shows "budget_ok s' \<and> same_ratios (fst s) (fst s')"
  using assms
proof (induction rule: budget_step.induct)
  case (budget_access i ts rb rb' t')
  then have ok: "budget_ok (rb, ts)" and few: "length ts < 2 ^ 56" by simp_all
  note i = budget_access.hyps(1)
  have "budget_ok (rb', ts[i := t'])"
  proof (cases "ts ! i")
    case (MarkStart r)
    then show ?thesis using mark_start_ok [OF ok i few] budget_access.hyps(2) by simp
  next
    case (MarkRoute r)
    then show ?thesis using mark_route_ok [OF ok i few] budget_access.hyps(2) by simp
  next
    case (RetryStart r)
    then show ?thesis using retry_start_ok [OF ok i few] budget_access.hyps(2) by simp
  next
    case (RetryReserve r l)
    then show ?thesis using retry_reserve_ok [OF ok i few] budget_access.hyps(2) by simp
  next
    case (RetryRoute r)
    then show ?thesis using retry_route_ok [OF ok i few] budget_access.hyps(2) by simp
  next
    case (RetryRefund r)
    then show ?thesis using retry_refund_ok [OF ok i few] budget_access.hyps(2) by simp
  qed (use budget_access.hyps(2) in auto)
  then show ?case using access_same_ratios [OF budget_access.hyps(2)] by simp
qed (auto simp: budget_ok_def route_ok_def count_defs same_ratios_def budget_thread_ok_def is_marked_def is_reserved_def)

lemma budget_step_length: "budget_step dbg s s' \<Longrightarrow> length (snd s) \<le> length (snd s')"
  by (induction rule: budget_step.induct) auto

lemma budget_run_ok:
  assumes "(budget_step dbg)\<^sup>*\<^sup>* s s'" and "budget_ok s" and "length (snd s') < 2 ^ 56"
  shows "budget_ok s' \<and> same_ratios (fst s) (fst s')"
  using assms
proof (induction rule: rtranclp_induct)
  case (step y z)
  then have "length (snd y) < 2 ^ 56" using budget_step_length [OF step.hyps(2)] by simp
  then show ?case using step budget_step_ok [OF step.hyps(2)] by (auto simp: same_ratios_def)
qed (simp add: same_ratios_def)

lemma budget_new_ok: "budget_ok (retry_budget_new en ratio per_route, [])"
  by (simp add: budget_ok_def retry_budget_new_def route_ok_def route_entry_def count_defs percent_limit_def)

text \<open>
  C24. Under every interleaving of fewer than 2^56 primary requests and retries, in builds with and
  without overflow checks, the retries that are granted stay within the budget: globally at most the
  configured percentage of the primaries counted so far, plus one, and for every route at most that
  route's percentage of its own primaries, plus one.  A retry refused by its route is not charged to
  the global budget, and no access panics.
\<close>

theorem retry_budget_respected:
  assumes "(budget_step dbg)\<^sup>*\<^sup>* (retry_budget_new True ratio per_route, []) (rb, ts)" and "length ts < 2 ^ 56"
  shows "retries_allowed ts \<le> primaries_marked ts * unat ratio div 100 + 1 \<and>
         route_retries_allowed r ts \<le>
           route_primaries r ts * unat (case per_route r of Some q \<Rightarrow> q | None \<Rightarrow> ratio) div 100 + 1 \<and>
         unat (global_retries rb) = retries_reserved ts \<and>
         RetryPanicked r \<notin> set ts"
proof -
  have ok: "budget_ok (rb, ts)" and same: "same_ratios (retry_budget_new True ratio per_route) rb"
    using budget_run_ok [OF assms(1) budget_new_ok] assms(2) by simp_all
  have cfg: "rb_enabled rb" "global_ratio_percent rb = ratio" "per_route_ratio_percent rb = per_route"
    using same by (simp_all add: same_ratios_def retry_budget_new_def)
  then have "route_ratio rb r = (case per_route r of Some q \<Rightarrow> q | None \<Rightarrow> ratio)"
    by (simp add: route_ratio_def split: option.splits)
  moreover have "RetryPanicked r \<notin> set ts"
    using ok by (auto simp: budget_ok_def list_all_iff budget_thread_ok_def dest: bspec [where x = "RetryPanicked r"])
  ultimately show ?thesis
    using ok cfg retries_allowed_le [of ts] by (auto simp: budget_ok_def route_ok_def percent_limit_def dest: spec [of _ r])
qed

lemma single_thread_run:
  "(budget_step dbg)\<^sup>*\<^sup>* (rb, [t]) (fst (run_thread n dbg t rb), [snd (run_thread n dbg t rb)])"
proof (induction n arbitrary: t rb)
  case (Suc n)
  show ?case
  proof (cases "budget_access dbg t rb")
    case (Some p)
    obtain rb' t' where p: "p = (rb', t')" by fastforce
    have "budget_step dbg (rb, [t]) (rb', [t'])"
      using budget_access [of 0 "[t]" dbg rb rb' t'] Some p by simp
    then show ?thesis using Suc.IH [of rb' t'] Some p by (simp add: converse_rtranclp_into_rtranclp)
  qed simp
qed simp

lemma allow_retry_unfold: "allow_retry dbg r rb = run_thread (Suc (Suc (Suc (Suc 0)))) dbg (RetryStart r) rb"
  by (simp only: allow_retry_def eval_nat_numeral BitM.simps)

theorem retry_budget_respected_witness:
  "\<exists>rb. (budget_step True)\<^sup>*\<^sup>* (retry_budget_new True 20 Map.empty, []) (rb, [RetryAllowed ''a'']) \<and>
     unat (global_retries rb) = 1"
proof -
  let ?rb = "retry_budget_new True 20 Map.empty"
  let ?fin = "run_thread (Suc (Suc (Suc 0))) True (RetryStart ''a'') ?rb"
  have "snd ?fin = RetryAllowed ''a''"
    by (simp add: retry_budget_new_def retry_start_def retry_limit_def retry_reserve_def
        retry_route_def route_entry_def route_ratio_def saturating_add_def)
  moreover have "budget_step True (?rb, []) (?rb, [RetryStart ''a''])"
    using spawn_retry [of True ?rb "[]" "''a''"] by simp
  ultimately have run: "(budget_step True)\<^sup>*\<^sup>* (?rb, []) (fst ?fin, [RetryAllowed ''a''])"
    using single_thread_run [of True ?rb "RetryStart ''a''" "Suc (Suc (Suc 0))"] by (metis converse_rtranclp_into_rtranclp)
  have "retries_reserved [RetryAllowed ''a''] = 1" by (simp add: retries_reserved_def)
  with retry_budget_respected [OF run, of "''a''"] run show ?thesis by auto
qed

text \<open>
  A retry that no other thread interferes with is allowed exactly when both the global and the
  route's budget have room; then both are charged by one, and otherwise all counters are as before.
\<close>

theorem allow_retry_exact:
  assumes "rb_enabled rb" and "unat (global_primary rb) < 2 ^ 56" and "unat (fst (route_entry rb r)) < 2 ^ 56"
  shows "case allow_retry dbg r rb of (rb', verdict) \<Rightarrow>
     if unat (global_retries rb) < percent_limit (unat (global_primary rb)) (global_ratio_percent rb) \<and>
        unat (snd (route_entry rb r)) < percent_limit (unat (fst (route_entry rb r))) (route_ratio rb r)
     then verdict = RetryAllowed r \<and> global_retries rb' = global_retries rb + 1 \<and>
          route_entry rb' = (route_entry rb)(r := (fst (route_entry rb r), snd (route_entry rb r) + 1))
     else verdict = RetryDenied r \<and> global_retries rb' = global_retries rb \<and> route_entry rb' = route_entry rb"
proof -
  obtain g where g: "retry_limit dbg (global_primary rb) (global_ratio_percent rb) = Some g"
      "unat g = percent_limit (unat (global_primary rb)) (global_ratio_percent rb)"
    using retry_limit_small [OF assms(2)] by blast
  obtain p q where e: "route_entry rb r = (p, q)" by fastforce
  obtain l where l: "retry_limit dbg p (route_ratio rb r) = Some l" "unat l = percent_limit (unat p) (route_ratio rb r)"
    using retry_limit_small [of p] assms(3) e by auto
  have "saturating_add q 1 = q + 1" if "q < l"
    using that unat_bound [of l] by (simp add: saturating_add_def word_less_nat_alt)
  then have route: "retry_route dbg r rb' =
      (if l \<le> q then (rb'\<lparr>route_stats := (route_stats rb')(r \<mapsto> (p, q))\<rparr>, RetryRefund r)
       else (rb'\<lparr>route_stats := (route_stats rb')(r \<mapsto> (p, q + 1))\<rparr>, RetryAllowed r))"
    if "rb' = rb\<lparr>global_retries := n\<rparr>" for rb' n
    using that e l(1) by (auto simp: retry_route_def not_le)
  have entry: "route_entry (rb\<lparr>global_retries := n, route_stats := (route_stats rb)(r \<mapsto> v)\<rparr>) = (route_entry rb)(r := v)"
    "route_entry (rb\<lparr>route_stats := (route_stats rb)(r \<mapsto> v)\<rparr>) = (route_entry rb)(r := v)" for n v
    by (auto simp: route_entry_def fun_eq_iff)
  have same: "(route_entry rb)(r := (p, q)) = route_entry rb" using e by (metis fun_upd_triv)
  show ?thesis
    using assms(1) g e l entry same
    by (simp add: allow_retry_unfold retry_start_def retry_reserve_def retry_refund_def route
        word_less_nat_alt word_le_nat_alt)
qed

theorem allow_retry_exact_witness:
  "snd (allow_retry True ''a'' (retry_budget_new True 20 Map.empty)) = RetryAllowed ''a'' \<and>
   snd (allow_retry True ''a'' (fst (allow_retry True ''a'' (retry_budget_new True 20 Map.empty)))) = RetryDenied ''a''"
proof -
  let ?rb = "retry_budget_new True 20 Map.empty"
  obtain rb' v where run: "allow_retry True ''a'' ?rb = (rb', v)" by fastforce
  have first: "v = RetryAllowed ''a''" "global_retries rb' = 1" "route_entry rb' = (route_entry ?rb)(''a'' := (0, 1))"
    using allow_retry_exact [of ?rb "''a''" True] run
    by (simp_all add: retry_budget_new_def route_entry_def percent_limit_def)
  have kept: "rb_enabled rb'" "global_primary rb' = 0"
    using run by (auto simp: allow_retry_unfold retry_budget_new_def retry_start_def retry_limit_def
        retry_reserve_def retry_route_def route_entry_def route_ratio_def saturating_add_def)
  from allow_retry_exact [of rb' "''a''" True] first kept run show ?thesis
    by (auto simp: percent_limit_def split: prod.splits)
qed

end
