(* ===== verification/Runtime_Resilience.thy ===== *)
theory Runtime_Resilience
  imports Resilience_Config Brownout Circuit_Breaker Route_Queue Adaptive_Admission Retry_Budget
begin

text \<open>
  The resilience runtime built from the policies (\<open>edge/src/resilience/runtime.rs\<close>) and the
  normalisation of CONNECT authorities (\<open>edge/src/resilience/connect.rs\<close>).  The runtime holds one
  instance of each limiter and the request guards.  Its scoped rate limits and quota fields are not
  part of this record.
\<close>

section \<open>CONNECT authorities\<close>

definition parse_port :: "string \<Rightarrow> nat option" where
  "parse_port s = (case parse_unsigned 65536 s of Some p \<Rightarrow> if 0 < p then Some p else None | None \<Rightarrow> None)"

definition normalize_connect_authority :: "string \<Rightarrow> string option" where
  "normalize_connect_authority authority =
     (let t = trim authority in
      if t = [] \<or> list_ex is_whitespace t then None
      else case strip_prefix ''['' t of
        Some rest \<Rightarrow> do {
          e \<leftarrow> find_char CHR '']'' rest;
          let host = take e rest;
          if host = [] then None
          else let suffix = drop (Suc e) rest in
            if \<not> starts_with '':'' suffix \<or> length suffix \<le> 1 then None
            else do {
              port \<leftarrow> parse_port (drop 1 suffix);
              Some (''['' @ to_ascii_lowercase (trim_end_matches CHR ''.'' host) @ '']:'' @ dec_string port)
            }
        }
      | None \<Rightarrow> do {
          (host, port) \<leftarrow> rsplit_once CHR '':'' t;
          if host = [] \<or> CHR '':'' \<in> set host then None
          else do {
            port \<leftarrow> parse_port port;
            Some (to_ascii_lowercase (trim_end_matches CHR ''.'' host) @ '':'' @ dec_string port)
          }
        })"

definition connect_authority_port :: "string \<Rightarrow> nat option" where
  "connect_authority_port n =
     (if starts_with ''['' n then do {
        e \<leftarrow> find_char CHR '']'' n;
        port \<leftarrow> strip_prefix '':'' (drop (Suc e) n);
        parse_unsigned 65536 port
      }
      else do {
        (host, port) \<leftarrow> rsplit_once CHR '':'' n;
        parse_unsigned 65536 port
      })"

section \<open>The runtime\<close>

record runtime_resilience =
  rr_adaptive_admission :: adaptive_admission
  rr_route_queue :: route_queue_limiter
  rr_circuit_breakers :: circuit_breakers
  rr_retry_budget :: retry_budget
  rr_brownout :: brownout_controller
  rr_shed_retry_after_seconds :: u32
  rr_allow_0rtt :: bool
  rr_max_headers_count :: usize
  rr_max_headers_bytes :: usize
  rr_enforce_authority_host_match :: bool
  rr_allow_connect :: bool
  rr_hedging_enabled :: bool
  rr_hedging_delay :: duration
  rr_hedge_safe_methods :: "string set"
  rr_early_data_safe_methods :: "string set"
  rr_allowed_methods :: "string set"
  rr_denied_path_prefixes :: "string list"
  rr_connect_allowed_ports :: "nat set"
  rr_connect_allowed_authorities :: "string set"
  rr_route_allowlist :: "string set"

definition millis_or_max :: "duration \<Rightarrow> u64" where
  "millis_or_max d = (if as_millis d < 2 ^ 64 then of_nat (as_millis d) else - 1)"

definition from_policies :: "admission_policy \<Rightarrow> runtime_resilience" where
  "from_policies ap =
     (let a = ap_adaptive_admission ap; q = ap_route_queue ap; cb = ap_circuit_breaker ap;
          rb = ap_retry_budget ap; bo = ap_brownout ap; hg = ap_hedging ap; pr = ap_protocol ap in
      \<lparr>rr_adaptive_admission = adaptive_admission_new (aap_enabled a) (aap_min_limit a)
         (max (aap_max_limit a) (aap_min_limit a)) (aap_increase_step a) (aap_decrease_step a)
         (millis_or_max (aap_high_latency a)),
       rr_route_queue = route_queue_new (rqp_default_cap q) (rqp_global_cap q) (map_of (rqp_caps q)),
       rr_circuit_breakers = circuit_breakers_new (cbp_enabled cb) (cbp_failure_threshold cb) (cbp_open cb)
         (cbp_half_open_max_probes cb),
       rr_retry_budget = retry_budget_new (rbp_enabled rb) (rbp_ratio_percent rb) (map_of (rbp_per_route_ratio_percent rb)),
       rr_brownout = brownout_new (bop_enabled bo) (bop_trigger_inflight_percent bo)
         (bop_recover_inflight_percent bo) (bop_core_routes bo),
       rr_shed_retry_after_seconds = rqp_shed_retry_after_seconds q,
       rr_allow_0rtt = allow_0rtt pr,
       rr_max_headers_count = max (max_headers_count pr) 1,
       rr_max_headers_bytes = max (max_headers_bytes pr) 1,
       rr_enforce_authority_host_match = enforce_authority_host_match pr,
       rr_allow_connect = allow_connect pr,
       rr_hedging_enabled = hgp_enabled hg,
       rr_hedging_delay = hgp_delay hg,
       rr_hedge_safe_methods = set (map to_ascii_uppercase (hgp_safe_methods hg)),
       rr_early_data_safe_methods = set (map to_ascii_uppercase (early_data_safe_methods pr)),
       rr_allowed_methods = set (map to_ascii_uppercase (allowed_methods pr)),
       rr_denied_path_prefixes = denied_path_prefixes pr,
       rr_connect_allowed_ports = set (map unat (connect_allowed_ports pr)),
       rr_connect_allowed_authorities =
         set (List.map_filter normalize_connect_authority (connect_allowed_authorities pr)),
       rr_route_allowlist = set (hgp_route_allowlist hg)\<rparr>)"

definition hedging_route_enabled_for :: "runtime_resilience \<Rightarrow> string \<Rightarrow> bool" where
  "hedging_route_enabled_for rr route \<longleftrightarrow>
     (if \<not> rr_hedging_enabled rr \<or> brownout_is_active (rr_brownout rr) then False
      else rr_route_allowlist rr = {} \<or> route \<in> rr_route_allowlist rr)"

definition hedging_method_allowed :: "runtime_resilience \<Rightarrow> string \<Rightarrow> bool" where
  "hedging_method_allowed rr m \<longleftrightarrow> to_ascii_uppercase m \<in> rr_hedge_safe_methods rr"

definition hedging_allowed_for :: "runtime_resilience \<Rightarrow> string \<Rightarrow> string \<Rightarrow> bool \<Rightarrow> bool" where
  "hedging_allowed_for rr m route bodyless \<longleftrightarrow>
     hedging_route_enabled_for rr route \<and> bodyless \<and> hedging_method_allowed rr m"

definition early_data_allowed_for :: "runtime_resilience \<Rightarrow> string \<Rightarrow> bool" where
  "early_data_allowed_for rr m \<longleftrightarrow> rr_allow_0rtt rr \<and> to_ascii_uppercase m \<in> rr_early_data_safe_methods rr"

definition method_allowed :: "runtime_resilience \<Rightarrow> string \<Rightarrow> bool" where
  "method_allowed rr m \<longleftrightarrow> rr_allowed_methods rr = {} \<or> to_ascii_uppercase m \<in> rr_allowed_methods rr"

definition path_denied :: "runtime_resilience \<Rightarrow> string \<Rightarrow> bool" where
  "path_denied rr path \<longleftrightarrow> list_ex (\<lambda>p. starts_with p path) (rr_denied_path_prefixes rr)"

definition connect_allowed :: "runtime_resilience \<Rightarrow> string \<Rightarrow> bool" where
  "connect_allowed rr authority =
     (if \<not> rr_allow_connect rr then False
      else case normalize_connect_authority authority of
        None \<Rightarrow> False
      | Some n \<Rightarrow>
          (case connect_authority_port n of
             None \<Rightarrow> False
           | Some port \<Rightarrow>
               if rr_connect_allowed_ports rr \<noteq> {} \<and> port \<notin> rr_connect_allowed_ports rr then False
               else if rr_connect_allowed_authorities rr = {} then True
               else n \<in> rr_connect_allowed_authorities rr))"

section \<open>Facts about authorities\<close>

lemma parse_port_ok: "port_ok s \<longleftrightarrow> parse_port s \<noteq> None"
  by (auto simp: port_ok_def parse_port_def split: option.splits)

lemma parse_port_range: "parse_port s = Some p \<Longrightarrow> 0 < p \<and> p < 65536"
  by (auto simp: parse_port_def split: option.splits if_splits dest: parse_unsigned_bound)

lemma validator_ok_iff: "validator_connect_authority_ok v \<longleftrightarrow> normalize_connect_authority v \<noteq> None"
  by (auto simp: validator_connect_authority_ok_def normalize_connect_authority_def Let_def parse_port_ok
      split: option.splits if_splits bind_splits)

text \<open>
  The validator accepts a CONNECT authority of the configuration exactly when the runtime can
  normalise it, so no entry of a validated allowlist is silently dropped.
\<close>

theorem validator_accepts_normalizable:
  "validator_connect_authority_ok v \<longleftrightarrow> normalize_connect_authority v \<noteq> None"
  by (rule validator_ok_iff)

text \<open>The shape of a normalised authority.\<close>

lemma normalize_connect_authority_shape:
  assumes "normalize_connect_authority v = Some n"
  obtains (bracket) h p where "n = ''['' @ h @ '']:'' @ dec_string p" "CHR '']'' \<notin> set h" "parse_unsigned 65536 (dec_string p) = Some p"
      "0 < p" "to_ascii_lowercase h = h" "trim_end_matches CHR ''.'' h = h" "\<forall>c \<in> set h. \<not> is_whitespace c"
    | (plain) h p where "n = h @ '':'' @ dec_string p" "CHR '':'' \<notin> set h" "\<not> starts_with ''['' h" "parse_unsigned 65536 (dec_string p) = Some p"
      "0 < p" "to_ascii_lowercase h = h" "trim_end_matches CHR ''.'' h = h" "\<forall>c \<in> set h. \<not> is_whitespace c"
proof -
  define t where "t = trim v"
  have ws: "\<forall>c \<in> set t. \<not> is_whitespace c"
    using assms by (auto simp: normalize_connect_authority_def Let_def t_def list_ex_iff split: if_splits)
  have lower: "trim_end_matches CHR ''.'' (to_ascii_lowercase (trim_end_matches CHR ''.'' host)) =
      to_ascii_lowercase (trim_end_matches CHR ''.'' host)" for host
  proof -
    have "trim_end_matches CHR ''.'' (to_ascii_lowercase s) = to_ascii_lowercase (trim_end_matches CHR ''.'' s)" for s
      by (simp add: trim_end_matches_def to_ascii_lowercase_def rev_map dropWhile_map o_def)
    then show ?thesis by (simp add: trim_end_matches_idem)
  qed
  have clean: "\<forall>c \<in> set (to_ascii_lowercase (trim_end_matches CHR ''.'' host)). \<not> is_whitespace c"
    if "set host \<subseteq> set t" for host
    using that ws trim_end_matches_set [of "CHR ''.''" host] by (auto simp: to_ascii_lowercase_def)
  show thesis
  proof (cases "strip_prefix ''['' t")
    case (Some rest)
    then obtain e p where e: "find_char CHR '']'' rest = Some e" and p: "parse_port (drop 1 (drop (Suc e) rest)) = Some p"
      and n: "n = ''['' @ to_ascii_lowercase (trim_end_matches CHR ''.'' (take e rest)) @ '']:'' @ dec_string p"
      using assms by (auto simp: normalize_connect_authority_def Let_def t_def split: if_splits bind_splits)
    have "CHR '']'' \<notin> set (to_ascii_lowercase (trim_end_matches CHR ''.'' (take e rest)))"
      using find_char_split(2) [OF e] trim_end_matches_set [of "CHR ''.''" "take e rest"] set_lowercase_iff by auto
    moreover have "set (take e rest) \<subseteq> set t"
      using Some by (auto simp: strip_prefix_def prefix_def split: if_splits dest: in_set_takeD)
    ultimately show thesis
      using bracket [OF n] parse_port_range [OF p] parse_dec_string lower clean by simp
  next
    case None
    then obtain host port p where sp: "rsplit_once CHR '':'' t = Some (host, port)" and p: "parse_port port = Some p"
      and host: "host \<noteq> []" "CHR '':'' \<notin> set host"
      and n: "n = to_ascii_lowercase (trim_end_matches CHR ''.'' host) @ '':'' @ dec_string p"
      using assms by (auto simp: normalize_connect_authority_def Let_def t_def split: if_splits bind_splits)
    have "CHR '':'' \<notin> set (to_ascii_lowercase (trim_end_matches CHR ''.'' host))"
      using host(2) trim_end_matches_set [of "CHR ''.''" host] set_lowercase_iff by auto
    moreover have "\<not> starts_with ''['' (to_ascii_lowercase (trim_end_matches CHR ''.'' host))"
    proof -
      have "\<not> prefix ''['' host" using None rsplit_once_Some(1) [OF sp] by (auto simp: strip_prefix_def prefix_def split: if_splits)
      then show ?thesis
        using trim_end_matches_prefix [of "CHR ''.''" host]
        by (auto simp: starts_with_def to_ascii_lowercase_def prefix_def Cons_eq_map_conv)
    qed
    moreover have "set host \<subseteq> set t" using rsplit_once_Some(1) [OF sp] by auto
    ultimately show thesis
      using plain [OF n] parse_port_range [OF p] parse_dec_string lower clean by simp
  qed
qed

lemma normalized_port:
  assumes "normalize_connect_authority v = Some n"
  shows "\<exists>p. connect_authority_port n = Some p \<and> 0 < p \<and> p < 65536"
  using assms
proof (cases rule: normalize_connect_authority_shape)
  case (bracket h p)
  have n: "n = (CHR ''['' # h) @ CHR '']'' # ('':'' @ dec_string p)" using bracket(1) by simp
  have "find_char CHR '']'' n = Some (Suc (length h))"
    unfolding n using find_char_first [of "CHR '']''" "CHR ''['' # h"] bracket(2) by simp
  then show ?thesis
    using bracket(3,4) parse_unsigned_bound [OF bracket(3)]
    by (simp add: connect_authority_port_def starts_with_def n strip_prefix_def)
next
  case (plain h p)
  have "\<not> starts_with ''['' n" using plain(1,3) by (cases h) (auto simp: starts_with_def)
  moreover have "rsplit_once CHR '':'' n = Some (h, dec_string p)"
    using rsplit_once_last [OF dec_string_no_colon] plain(1) by simp
  ultimately show ?thesis
    using plain(4,5) parse_unsigned_bound [OF plain(4)] by (simp add: connect_authority_port_def)
qed

lemma parse_port_dec: "parse_unsigned 65536 (dec_string p) = Some p \<Longrightarrow> 0 < p \<Longrightarrow> parse_port (dec_string p) = Some p"
  by (simp add: parse_port_def)

text \<open>
  C25. A normalised CONNECT authority carries a port between 1 and 65535 that
  \<open>connect_authority_port\<close> reads back, and normalising it again changes nothing; the one exception
  is a host that consists of dots only, which normalises to an authority without a host.
\<close>

theorem connect_normalization_stable:
  assumes "normalize_connect_authority v = Some n"
  shows "(\<exists>p. connect_authority_port n = Some p \<and> 0 < p \<and> p < 65536) \<and>
    (normalize_connect_authority n = Some n \<or> starts_with '':'' n \<or> starts_with ''[]'' n)"
proof -
  have "normalize_connect_authority n = Some n \<or> starts_with '':'' n \<or> starts_with ''[]'' n"
    using assms
  proof (cases rule: normalize_connect_authority_shape)
    case (bracket h p)
    have ws: "\<forall>c \<in> set n. \<not> is_whitespace c"
      using bracket(1,7) dec_string_no_space [of p] by (auto simp: is_whitespace_def char_code_def)
    have n: "n = CHR ''['' # h @ CHR '']'' # CHR '':'' # dec_string p" using bracket(1) by simp
    have "find_char CHR '']'' (h @ CHR '']'' # CHR '':'' # dec_string p) = Some (length h)"
      by (rule find_char_first [OF bracket(2)])
    moreover have "strip_prefix ''['' n = Some (h @ CHR '']'' # CHR '':'' # dec_string p)" "n \<noteq> []"
      by (simp_all add: n strip_prefix_def)
    moreover have "parse_port (dec_string p) = Some p" by (rule parse_port_dec [OF bracket(3,4)])
    ultimately have "normalize_connect_authority n = Some n" if "h \<noteq> []"
      using that ws trim_idle [OF ws] bracket(5,6) dec_string_digits [of p]
      by (simp add: normalize_connect_authority_def Let_def list_ex_iff starts_with_def) (simp add: n)
    then show ?thesis by (cases "h = []") (auto simp: n starts_with_def)
  next
    case (plain h p)
    have ws: "\<forall>c \<in> set n. \<not> is_whitespace c"
      using plain(1,8) dec_string_no_space [of p] by (auto simp: is_whitespace_def char_code_def)
    have "strip_prefix ''['' n = None"
      using plain(1,3) by (cases h) (auto simp: starts_with_def strip_prefix_def)
    moreover have "rsplit_once CHR '':'' n = Some (h, dec_string p)"
      using rsplit_once_last [OF dec_string_no_colon] plain(1) by simp
    moreover have "n \<noteq> []" using plain(1) by simp
    ultimately have "normalize_connect_authority n = Some n" if "h \<noteq> []"
      using that ws trim_idle [OF ws] plain(2,4-7)
      by (simp add: normalize_connect_authority_def Let_def list_ex_iff parse_port_dec) (simp add: plain(1))
    then show ?thesis using plain(1) by (cases "h = []") (auto simp: starts_with_def)
  qed
  with normalized_port [OF assms] show ?thesis by blast
qed

theorem connect_normalization_stable_witness:
  "normalize_connect_authority '' A.b.:0443'' = Some ''a.b:443'' \<and>
   normalize_connect_authority ''a.b:443'' = Some ''a.b:443''"
proof -
  have "normalize_connect_authority '' A.b.:0443'' = Some ''a.b:443''"
    by (simp add: normalize_connect_authority_def str_eval rsplit_once_def trim_end_matches_def parse_port_def
        parse_unsigned_def is_digit_def dec_value_def dec_string.simps digit_char_def Let_def char_of_eq_iff)
  with connect_normalization_stable [OF this] show ?thesis by (simp add: starts_with_def)
qed

section \<open>Request guards of an accepted configuration\<close>

text \<open>
  C26. With a validated allowlist, CONNECT is allowed exactly for the configured targets: the method
  must be enabled, the authority must normalise, its port must be listed if any port is, and the
  normalised authority must be that of a configured entry if there is any entry.
\<close>

theorem connect_allowlist_enforced:
  assumes "list_all validator_connect_authority_ok (connect_allowed_authorities (ap_protocol ap))"
  shows "connect_allowed (from_policies ap) a \<longleftrightarrow>
     allow_connect (ap_protocol ap) \<and>
     (\<exists>n port. normalize_connect_authority a = Some n \<and> connect_authority_port n = Some port \<and>
        (connect_allowed_ports (ap_protocol ap) = [] \<or> port \<in> unat ` set (connect_allowed_ports (ap_protocol ap))) \<and>
        (connect_allowed_authorities (ap_protocol ap) = [] \<or>
         (\<exists>c \<in> set (connect_allowed_authorities (ap_protocol ap)). normalize_connect_authority c = Some n)))"
proof -
  let ?auths = "connect_allowed_authorities (ap_protocol ap)"
  have "List.map_filter normalize_connect_authority ?auths = [] \<longleftrightarrow> ?auths = []"
    using assms by (cases ?auths) (auto simp: List.map_filter_simps validator_ok_iff split: option.splits)
  moreover have "n \<in> set (List.map_filter normalize_connect_authority ?auths) \<longleftrightarrow>
      (\<exists>c \<in> set ?auths. normalize_connect_authority c = Some n)" for n
    by (auto simp: List.map_filter_def image_iff)
  ultimately show ?thesis
    by (auto simp: connect_allowed_def from_policies_def Let_def split: option.splits)
qed

theorem connect_allowlist_enforced_witness:
  "\<exists>ap. connect_allowed_authorities (ap_protocol ap) = [''a.b:443''] \<and>
     connect_allowed (from_policies ap) '' A.b.:0443'' \<and> \<not> connect_allowed (from_policies ap) ''c:443''"
proof -
  have n: "normalize_connect_authority ''a.b:443'' = Some ''a.b:443''"
      "normalize_connect_authority '' A.b.:0443'' = Some ''a.b:443''" "normalize_connect_authority ''c:443'' = Some ''c:443''"
    and port: "connect_authority_port ''a.b:443'' = Some 443"
    by (simp_all add: normalize_connect_authority_def connect_authority_port_def starts_with_def str_eval rsplit_once_def
        trim_end_matches_def parse_port_def parse_unsigned_def is_digit_def dec_value_def dec_string.simps digit_char_def
        Let_def char_of_eq_iff)
  define ap :: admission_policy where "ap = \<lparr>ap_adaptive_admission = undefined, ap_route_queue = undefined,
    ap_circuit_breaker = undefined, ap_hedging = undefined, ap_retry_budget = undefined, ap_brownout = undefined,
    ap_watchdog = undefined, ap_protocol = protocol_policy_default\<lparr>allow_connect := True,
      connect_allowed_authorities := [''a.b:443'']\<rparr>\<rparr>"
  have pr: "allow_connect (ap_protocol ap)" "connect_allowed_authorities (ap_protocol ap) = [''a.b:443'']"
      "connect_allowed_ports (ap_protocol ap) = []"
    by (simp_all add: ap_def protocol_policy_default_def)
  then have "list_all validator_connect_authority_ok (connect_allowed_authorities (ap_protocol ap))"
    by (simp add: validator_ok_iff n)
  note iff = connect_allowlist_enforced [OF this]
  show ?thesis by (rule exI [of _ ap]) (simp add: iff pr n port)
qed

text \<open>The weaker check of the policy normalisation alone does not suffice: an allowlist of entries
  that the runtime cannot normalise becomes empty, and an empty allowlist allows every target.\<close>

lemma unnormalizable_allowlist_opens:
  assumes "allow_connect (ap_protocol ap)" and "connect_allowed_authorities (ap_protocol ap) = [''[]:443'']"
    and "connect_allowed_ports (ap_protocol ap) = []" and "normalize_connect_authority a = Some n"
  shows "policy_connect_authority_ok ''[]:443'' \<and> connect_allowed (from_policies ap) a"
proof -
  have "policy_connect_authority_ok ''[]:443''"
    by (simp add: policy_connect_authority_ok_def port_ok_def rsplit_once_def str_eval parse_unsigned_def is_digit_def
        dec_value_def)
  moreover have "normalize_connect_authority ''[]:443'' = None"
    by (simp add: normalize_connect_authority_def str_eval Let_def)
  ultimately show ?thesis
    using assms normalized_port [OF assms(4)]
    by (auto simp: connect_allowed_def from_policies_def Let_def List.map_filter_simps)
qed

text \<open>
  C27. Once a configuration is accepted, requests are taken from replayable early data only for GET
  and HEAD, whatever the spelling of the method.
\<close>

theorem early_data_replay_safe:
  assumes "admission_policy_normalize r global_limit = Inr ap" and "early_data_allowed_for (from_policies ap) m"
  shows "to_ascii_uppercase m = ''GET'' \<or> to_ascii_uppercase m = ''HEAD''"
proof -
  let ?early = "normalize_string_vec (early_data_safe_methods (rc_protocol r))"
  have pol: "ap_protocol ap = protocol_policy_of (rc_protocol r)" by (rule admission_normalizeD(8) [OF assms(1)])
  then have "allow_0rtt (rc_protocol r)" and m: "to_ascii_uppercase m \<in> to_ascii_uppercase ` set ?early"
    using assms(2) by (auto simp: early_data_allowed_for_def from_policies_def Let_def protocol_policy_of_def)
  then have "early_data_methods_are_safe ?early"
    using admission_normalizeD(3) [OF assms(1)] by (simp add: protocol_checks_def Let_def)
  moreover have "trim x = x" if "x \<in> set ?early" for x using that by (auto simp: normalize_string_vec_def)
  ultimately show ?thesis using m by (auto simp: early_data_methods_are_safe_def list_all_iff)
qed

text \<open>The default configuration, with early data switched on, is accepted.\<close>

definition early_data_config :: resilience_config where
  "early_data_config = resilience_default\<lparr>rc_protocol := protocol_policy_default\<lparr>allow_0rtt := True\<rparr>\<rparr>"

lemma early_data_config_accepted: "\<exists>ap. admission_policy_normalize early_data_config 1024 = Inr ap"
proof -
  have "normalize_string_vec [''GET'', ''HEAD''] = [''GET'', ''HEAD'']" by (simp add: normalize_string_vec_def str_eval)
  moreover have "is_valid_http_token ''GET''" "is_valid_http_token ''HEAD''"
    by (simp_all add: is_valid_http_token_def str_eval)
  moreover have "early_data_methods_are_safe [''GET'', ''HEAD'']"
    by (simp add: early_data_methods_are_safe_def str_eval)
  moreover have "normalize_string_vec [] = []" by (simp add: normalize_string_vec_def)
  ultimately have "list_all (\<lambda>c. \<not> fst c) (protocol_checks (rc_protocol early_data_config))"
    by (simp add: early_data_config_def resilience_default_def protocol_policy_default_def protocol_checks_def
        require_nonzero_def nonempty_strings_def Let_def)
  then have "first_error (adaptive_checks (rc_adaptive_admission early_data_config) 1024 @
      route_queue_checks (rc_route_queue early_data_config) @ protocol_checks (rc_protocol early_data_config) @
      brownout_checks (rc_brownout early_data_config)) = None"
    unfolding first_error_None
    by (simp add: early_data_config_def resilience_default_def adaptive_admission_default_def route_queue_default_def
        brownout_default_def adaptive_checks_def route_queue_checks_def brownout_checks_def require_nonzero_def)
  then show ?thesis
    by (simp add: admission_policy_normalize_def) (simp add: early_data_config_def resilience_default_def
        normalize_circuit_breaker_policy_def circuit_breaker_default_def normalize_hedging_policy_def hedging_default_def
        normalize_retry_budget_policy_def retry_budget_default_def normalize_watchdog_policy_def watchdog_default_def
        require_nonzero_def first_error_def)
qed

theorem early_data_replay_safe_witness:
  "\<exists>ap. admission_policy_normalize early_data_config 1024 = Inr ap \<and>
     early_data_allowed_for (from_policies ap) ''get'' \<and> \<not> early_data_allowed_for (from_policies ap) ''POST''"
proof -
  obtain ap where ap: "admission_policy_normalize early_data_config 1024 = Inr ap"
    using early_data_config_accepted by blast
  have "ap_protocol ap = protocol_policy_of (protocol_policy_default\<lparr>allow_0rtt := True\<rparr>)"
    using admission_normalizeD(8) [OF ap] by (simp add: early_data_config_def)
  then have "early_data_allowed_for (from_policies ap) ''get''"
    by (simp add: early_data_allowed_for_def from_policies_def Let_def protocol_policy_of_def protocol_policy_default_def
        normalize_string_vec_def str_eval char_of_eq_iff)
  moreover have "\<not> early_data_allowed_for (from_policies ap) ''POST''"
    using early_data_replay_safe [OF ap, of "''POST''"] by (auto simp: str_eval)
  ultimately show ?thesis using ap by blast
qed

text \<open>
  C28. In an accepted configuration brownout has hysteresis: after any sequence of pressure samples
  a route outside the core set is shed exactly when some sample reached the trigger percentage and
  no later one fell to the recovery percentage.
\<close>

theorem brownout_hysteresis:
  assumes "admission_policy_normalize r global_limit = Inr ap" and "boc_enabled (rc_brownout r)"
  shows "brownout_route_allowed (observe_all samples (rr_brownout (from_policies ap))) route \<longleftrightarrow>
     \<not> pressed (boc_trigger_inflight_percent (rc_brownout r)) (boc_recover_inflight_percent (rc_brownout r)) (rev samples) \<or>
     route \<in> set (normalize_string_vec (boc_core_routes (rc_brownout r)))"
proof -
  let ?c = "rc_brownout r" and ?b = "rr_brownout (from_policies ap)"
  have chk: "boc_trigger_inflight_percent ?c \<le> 100" "boc_recover_inflight_percent ?c \<le> 100"
      "boc_recover_inflight_percent ?c < boc_trigger_inflight_percent ?c"
    using admission_normalizeD(4) [OF assms(1)] by (auto simp: brownout_checks_def)
  then have b: "?b = \<lparr>bo_enabled = True, trigger_inflight_percent = boc_trigger_inflight_percent ?c,
      recover_inflight_percent = boc_recover_inflight_percent ?c,
      core_routes = set (normalize_string_vec (boc_core_routes ?c)), bo_active = False\<rparr>"
    using admission_normalizeD(7) [OF assms(1)] assms(2)
    by (simp add: from_policies_def Let_def brownout_new_def brownout_policy_of_def min_absorb1)
  have "bo_active (observe_all samples ?b) =
      pressed (boc_trigger_inflight_percent ?c) (boc_recover_inflight_percent ?c) (rev samples)"
    using active_iff_pressed [of ?b samples] chk(3) by (simp add: b)
  then show ?thesis
    by (auto simp: brownout_route_allowed_def brownout_is_active_def observe_all_config b)
qed

theorem brownout_hysteresis_witness:
  "\<exists>ap. admission_policy_normalize early_data_config 1024 = Inr ap \<and>
     \<not> brownout_route_allowed (observe_all [95, 70] (rr_brownout (from_policies ap))) ''r'' \<and>
     brownout_route_allowed (observe_all [95, 60] (rr_brownout (from_policies ap))) ''r''"
proof -
  obtain ap where ap: "admission_policy_normalize early_data_config 1024 = Inr ap"
    using early_data_config_accepted by blast
  have c: "rc_brownout early_data_config = brownout_default"
    by (simp add: early_data_config_def resilience_default_def)
  from brownout_hysteresis [OF ap] show ?thesis
    by (intro exI [of _ ap]) (simp add: ap c brownout_default_def normalize_string_vec_def word_le_nat_alt word_less_nat_alt)
qed

end
