(* ===== verification/Request_Validation.thy ===== *)
theory Request_Validation
  imports Runtime_Resilience Routing_Host
begin

text \<open>
  Validation of request headers before admission (\<open>edge/src/quic_listener/validation.rs\<close>) and the
  WebSocket detection it uses (\<open>bridge/src/websocket.rs\<close>).  A header is a pair of byte strings.
  \<open>http::uri::Authority\<close> comes from the \<open>http\<close> crate: the host and the port that a successful
  parse gives are the parameter \<open>pa\<close>.  A rejection is the status, the body and whether the
  request was denied by policy.
\<close>

section \<open>Rejections\<close>

type_synonym h3_header = "string \<times> string"
type_synonym rejection = "nat \<times> string \<times> bool"
type_synonym authority_parser = "string \<Rightarrow> (string \<times> nat option) option"

definition line :: "string \<Rightarrow> string" where
  "line s = s @ [char_of (10 :: nat)]"

definition bad_request :: "string \<Rightarrow> rejection" where
  "bad_request msg = (400, line msg, False)"

record request_validation_result =
  rv_method :: string
  rv_path :: string
  rv_authority :: "string option"
  rv_content_length :: "nat option"
  rv_websocket_tunnel :: bool

section \<open>WebSocket requests\<close>

datatype h3_websocket_request_kind = WebsocketNone | ExtendedConnect

definition utf8_ok :: "string \<Rightarrow> bool" where
  "utf8_ok v = valid_utf8 (map char_code v)"

definition h3_websocket_request_kind_of :: "string \<Rightarrow> h3_header list \<Rightarrow> h3_websocket_request_kind" where
  "h3_websocket_request_kind_of m hs =
     (let protocol_is_websocket = list_ex (\<lambda>(n, v). eq_ignore_ascii_case n '':protocol'' \<and>
            utf8_ok v \<and> eq_ignore_ascii_case v ''websocket'') hs in
      if eq_ignore_ascii_case m ''CONNECT'' \<and> protocol_is_websocket then ExtendedConnect else WebsocketNone)"

definition h3_websocket_tunnel_requested :: "string \<Rightarrow> h3_header list \<Rightarrow> bool" where
  "h3_websocket_tunnel_requested m hs \<longleftrightarrow> h3_websocket_request_kind_of m hs \<noteq> WebsocketNone"

definition legacy_websocket_upgrade_requested :: "string \<Rightarrow> h3_header list \<Rightarrow> bool" where
  "legacy_websocket_upgrade_requested m hs \<longleftrightarrow>
     eq_ignore_ascii_case m ''GET'' \<and>
     list_ex (\<lambda>(n, v). eq_ignore_ascii_case n ''upgrade'' \<and> utf8_ok v \<and> eq_ignore_ascii_case v ''websocket'') hs \<and>
     list_ex (\<lambda>(n, v). eq_ignore_ascii_case n ''connection'' \<and> utf8_ok v \<and>
       list_ex (\<lambda>part. eq_ignore_ascii_case (trim part) ''upgrade'') (split_char CHR '','' v)) hs"

section \<open>Header values\<close>

definition strict_header_value :: "string \<Rightarrow> rejection \<Rightarrow> rejection + string" where
  "strict_header_value v err = (if utf8_ok v then Inr v else Inl err)"

definition parse_content_length_value :: "string \<Rightarrow> nat option" where
  "parse_content_length_value raw =
     (if \<not> utf8_ok raw then None
      else let v = trim raw in
        if v = [] \<or> \<not> list_all is_digit v then None else parse_unsigned (2 ^ 64) v)"

definition merge_content_length :: "nat option \<Rightarrow> nat \<Rightarrow> rejection + nat option" where
  "merge_content_length current next =
     (case current of
        None \<Rightarrow> Inr (Some next)
      | Some existing \<Rightarrow>
          if existing = next then Inr (Some existing)
          else Inl (bad_request ''conflicting content-length header''))"

fun content_length_loop :: "string list \<Rightarrow> nat option \<Rightarrow> rejection + nat option" where
  "content_length_loop [] cl = Inr cl"
| "content_length_loop (v # vs) cl =
     (case parse_content_length_value v of
        None \<Rightarrow> Inl (bad_request ''invalid content-length header'')
      | Some n \<Rightarrow> (case merge_content_length cl n of Inl e \<Rightarrow> Inl e | Inr cl' \<Rightarrow> content_length_loop vs cl'))"

definition parse_h3_content_length :: "h3_header list \<Rightarrow> rejection + nat option" where
  "parse_h3_content_length hs =
     content_length_loop (map snd (filter (\<lambda>h. eq_ignore_ascii_case (fst h) ''content-length'') hs)) None"

definition extract_header_value :: "h3_header list \<Rightarrow> string \<Rightarrow> string option" where
  "extract_header_value hs name =
     (case find (\<lambda>h. eq_ignore_ascii_case (fst h) name) hs of
        None \<Rightarrow> None
      | Some h \<Rightarrow> if utf8_ok (snd h) \<and> trim (snd h) \<noteq> [] then Some (trim (snd h)) else None)"

section \<open>Authorities\<close>

record normalized_authority =
  na_original :: string
  na_host :: string
  na_port :: "nat option"

definition parse_authority_value :: "authority_parser \<Rightarrow> string \<Rightarrow> normalized_authority option" where
  "parse_authority_value pa v =
     (let t = trim v in
      if t = [] \<or> t \<noteq> v \<or> CHR ''@'' \<in> set t \<or> list_ex is_whitespace t then None
      else case pa t of
        None \<Rightarrow> None
      | Some (h, port) \<Rightarrow>
          let host = to_ascii_lowercase (trim_end_matches CHR ''.'' h) in
          if host = [] then None else Some \<lparr>na_original = t, na_host = host, na_port = port\<rparr>)"

definition authorities_match :: "normalized_authority \<Rightarrow> normalized_authority \<Rightarrow> bool" where
  "authorities_match a h \<longleftrightarrow>
     na_host a = na_host h \<and> (case (na_port a, na_port h) of (Some l, Some r) \<Rightarrow> l = r | _ \<Rightarrow> True)"

section \<open>The parts of a request\<close>

record request_part_errors =
  rpe_invalid_method :: string
  rpe_invalid_path :: string
  rpe_invalid_authority :: string
  rpe_invalid_host :: string
  rpe_authority_mismatch :: string
  rpe_connect_path_not_allowed :: string
  rpe_connect_authority_required :: string

definition is_ascii_whitespace :: "char \<Rightarrow> bool" where
  "is_ascii_whitespace c \<longleftrightarrow> char_code c \<in> {9, 10, 12, 13, 32}"

definition validate_request_parts ::
    "authority_parser \<Rightarrow> string \<Rightarrow> string \<Rightarrow> string option \<Rightarrow> string option \<Rightarrow> nat option \<Rightarrow> bool \<Rightarrow>
     runtime_resilience \<Rightarrow> request_part_errors \<Rightarrow> rejection + request_validation_result" where
  "validate_request_parts pa m path authority host cl tunnel rr errs =
     (let is_connect = eq_ignore_ascii_case m ''CONNECT'';
          parsed_authority = Option.bind authority (parse_authority_value pa);
          parsed_host = Option.bind host (parse_authority_value pa);
          connect_authority = (case parsed_authority of Some a \<Rightarrow> Some a | None \<Rightarrow> parsed_host) in
      case first_error
        [(trim m = [] \<or> list_ex is_ascii_whitespace m, bad_request (rpe_invalid_method errs)),
         (request_path_is_ambiguous path, bad_request ''ambiguous request path''),
         (is_connect \<and> tunnel \<and> (path = [] \<or> \<not> starts_with ''/'' path), bad_request (rpe_invalid_path errs)),
         (is_connect \<and> \<not> tunnel \<and> path \<noteq> [] \<and> path \<noteq> ''/'', bad_request (rpe_connect_path_not_allowed errs)),
         (\<not> is_connect \<and> (path = [] \<or> \<not> starts_with ''/'' path), bad_request (rpe_invalid_path errs)),
         (authority \<noteq> None \<and> parsed_authority = None, bad_request (rpe_invalid_authority errs)),
         (host \<noteq> None \<and> parsed_host = None, bad_request (rpe_invalid_host errs)),
         (rr_enforce_authority_host_match rr \<and>
            (case (parsed_authority, parsed_host) of (Some a, Some h) \<Rightarrow> \<not> authorities_match a h | _ \<Rightarrow> False),
          bad_request (rpe_authority_mismatch errs)),
         (\<not> method_allowed rr m, (405, line ''request method blocked by policy'', True)),
         (is_connect \<and> connect_authority = None, bad_request (rpe_connect_authority_required errs)),
         (is_connect \<and> (case connect_authority of Some a \<Rightarrow> na_port a = None | None \<Rightarrow> False),
          bad_request (rpe_connect_authority_required errs)),
         (is_connect \<and> (case connect_authority of Some a \<Rightarrow> \<not> connect_allowed rr (na_original a) | None \<Rightarrow> False),
          (403, line ''CONNECT target denied by policy'', True)),
         ((\<not> is_connect \<or> tunnel) \<and> path_denied rr path, (403, line ''request path blocked by policy'', True))] of
        Some e \<Rightarrow> Inl e
      | None \<Rightarrow> Inr \<lparr>rv_method = m, rv_path = path,
          rv_authority = (case authority of Some a \<Rightarrow> Some a | None \<Rightarrow> host),
          rv_content_length = cl, rv_websocket_tunnel = tunnel\<rparr>)"

section \<open>HTTP/3 header lists\<close>

datatype header_slot =
  SlotMethod | SlotPath | SlotAuthority | SlotHost | SlotConnection | SlotUpgrade | SlotScheme | SlotProtocol
  | SlotUnknownPseudo | SlotOther

definition header_slot_of :: "string \<Rightarrow> header_slot" where
  "header_slot_of n =
     (if n = '':method'' then SlotMethod
      else if n = '':path'' then SlotPath
      else if n = '':authority'' then SlotAuthority
      else if n = ''host'' then SlotHost
      else if n = ''connection'' then SlotConnection
      else if n = ''upgrade'' then SlotUpgrade
      else if n = '':scheme'' then SlotScheme
      else if n = '':protocol'' then SlotProtocol
      else if starts_with '':'' n then SlotUnknownPseudo
      else SlotOther)"

record h3_acc =
  ha_header_bytes :: nat
  ha_method :: "string option"
  ha_path :: "string option"
  ha_authority :: "string option"
  ha_host :: "string option"
  ha_scheme :: "string option"
  ha_protocol :: "string option"
  ha_upgrade :: bool

definition h3_acc_init :: h3_acc where
  "h3_acc_init = \<lparr>ha_header_bytes = 0, ha_method = None, ha_path = None, ha_authority = None, ha_host = None,
     ha_scheme = None, ha_protocol = None, ha_upgrade = False\<rparr>"

text \<open>\<open>usize::saturating_add\<close> on lengths.\<close>

definition usize_max :: nat where
  "usize_max = 2 ^ 64 - 1"

definition sat_add_len :: "nat \<Rightarrow> nat \<Rightarrow> nat" where
  "sat_add_len a b = min (a + b) usize_max"

definition once_value :: "string option \<Rightarrow> string \<Rightarrow> string \<Rightarrow> rejection + string" where
  "once_value slot name v =
     (if slot \<noteq> None then Inl (bad_request (''duplicate '' @ name @ '' header''))
      else strict_header_value v (bad_request (''invalid '' @ name @ '' header'')))"

definition h3_header_step :: "runtime_resilience \<Rightarrow> h3_header \<Rightarrow> h3_acc \<Rightarrow> rejection + h3_acc" where
  "h3_header_step rr h a0 =
     (let n = fst h; v = snd h;
          bytes = sat_add_len (ha_header_bytes a0) (length n + length v);
          a = a0\<lparr>ha_header_bytes := bytes\<rparr> in
      if bytes > unat (rr_max_headers_bytes rr) then Inl (431, line ''request headers exceed size limit'', False)
      else case header_slot_of n of
        SlotMethod \<Rightarrow> map_sum id (\<lambda>v. a\<lparr>ha_method := Some v\<rparr>) (once_value (ha_method a) '':method'' v)
      | SlotPath \<Rightarrow> map_sum id (\<lambda>v. a\<lparr>ha_path := Some v\<rparr>) (once_value (ha_path a) '':path'' v)
      | SlotAuthority \<Rightarrow> map_sum id (\<lambda>v. a\<lparr>ha_authority := Some v\<rparr>) (once_value (ha_authority a) '':authority'' v)
      | SlotHost \<Rightarrow> map_sum id (\<lambda>v. a\<lparr>ha_host := Some v\<rparr>) (once_value (ha_host a) ''host'' v)
      | SlotConnection \<Rightarrow>
          map_sum id
            (\<lambda>v. if list_ex (\<lambda>part. eq_ignore_ascii_case (trim part) ''upgrade'') (split_char CHR '','' v)
                 then a\<lparr>ha_upgrade := True\<rparr> else a)
            (strict_header_value v (bad_request ''invalid connection header''))
      | SlotUpgrade \<Rightarrow>
          map_sum id (\<lambda>v. a\<lparr>ha_upgrade := True\<rparr>) (strict_header_value v (bad_request ''invalid upgrade header''))
      | SlotScheme \<Rightarrow>
          (case once_value (ha_scheme a) '':scheme'' v of
             Inl e \<Rightarrow> Inl e
           | Inr v \<Rightarrow>
               if \<not> eq_ignore_ascii_case v ''http'' \<and> \<not> eq_ignore_ascii_case v ''https''
               then Inl (bad_request ''invalid :scheme header'')
               else Inr (a\<lparr>ha_scheme := Some v\<rparr>))
      | SlotProtocol \<Rightarrow> map_sum id (\<lambda>v. a\<lparr>ha_protocol := Some v\<rparr>) (once_value (ha_protocol a) '':protocol'' v)
      | SlotUnknownPseudo \<Rightarrow> Inl (bad_request ''unsupported pseudo-header'')
      | SlotOther \<Rightarrow> Inr a)"

fun h3_headers_loop :: "runtime_resilience \<Rightarrow> h3_header list \<Rightarrow> h3_acc \<Rightarrow> rejection + h3_acc" where
  "h3_headers_loop rr [] a = Inr a"
| "h3_headers_loop rr (h # hs) a =
     (case h3_header_step rr h a of Inl e \<Rightarrow> Inl e | Inr a' \<Rightarrow> h3_headers_loop rr hs a')"

text \<open>The path a request is routed by: classic CONNECT has none and gets \<open>/\<close>.\<close>

fun h3_path :: "bool \<Rightarrow> bool \<Rightarrow> string option \<Rightarrow> rejection + string" where
  "h3_path True True (Some path) = Inr path"
| "h3_path True True None = Inl (bad_request ''missing :path header'')"
| "h3_path True False (Some path) = Inl (bad_request ''invalid CONNECT :path header'')"
| "h3_path True False None = Inr ''/''"
| "h3_path False _ (Some path) = Inr path"
| "h3_path False _ None = Inl (bad_request ''missing :path header'')"

definition h3_part_errors :: request_part_errors where
  "h3_part_errors = \<lparr>rpe_invalid_method = ''invalid :method header'', rpe_invalid_path = ''invalid :path header'',
     rpe_invalid_authority = ''invalid :authority header'', rpe_invalid_host = ''invalid host header'',
     rpe_authority_mismatch = '':authority and host headers must match'',
     rpe_connect_path_not_allowed = ''invalid CONNECT :path header'',
     rpe_connect_authority_required = ''CONNECT requires authority host:port''\<rparr>"

definition h3_scheme_error :: "bool \<Rightarrow> bool \<Rightarrow> bool \<Rightarrow> rejection option" where
  "h3_scheme_error is_connect tunnel has_scheme =
     (if \<not> is_connect \<and> \<not> has_scheme \<or> is_connect \<and> tunnel \<and> \<not> has_scheme
      then Some (bad_request ''missing :scheme header'')
      else if is_connect \<and> \<not> tunnel \<and> has_scheme then Some (bad_request ''invalid CONNECT :scheme header'')
      else None)"

definition validate_request_headers ::
    "authority_parser \<Rightarrow> h3_header list \<Rightarrow> runtime_resilience \<Rightarrow> rejection + request_validation_result" where
  "validate_request_headers pa hs rr =
     (if length hs > unat (rr_max_headers_count rr) then Inl (431, line ''too many request headers'', False)
      else case h3_headers_loop rr hs h3_acc_init of
        Inl e \<Rightarrow> Inl e
      | Inr a \<Rightarrow>
          (case parse_h3_content_length hs of
             Inl e \<Rightarrow> Inl e
           | Inr cl \<Rightarrow>
               (case ha_method a of
                  None \<Rightarrow> Inl (bad_request ''missing :method header'')
                | Some m \<Rightarrow>
                    let tunnel = h3_websocket_tunnel_requested m hs;
                        is_connect = eq_ignore_ascii_case m ''CONNECT'' in
                    if ha_protocol a \<noteq> None \<and> \<not> tunnel then Inl (bad_request ''unsupported pseudo-header'')
                    else if ha_upgrade a then Inl (bad_request ''HTTP/3 does not support Upgrade requests'')
                    else case h3_scheme_error is_connect tunnel (ha_scheme a \<noteq> None) of
                      Some e \<Rightarrow> Inl e
                    | None \<Rightarrow>
                        (case h3_path is_connect tunnel (ha_path a) of
                           Inl e \<Rightarrow> Inl e
                         | Inr path \<Rightarrow>
                             validate_request_parts pa m path (ha_authority a) (ha_host a) cl tunnel rr h3_part_errors))))"

section \<open>HTTP/1.1 and HTTP/2 requests\<close>

text \<open>What validation reads of \<open>http::Request\<close>: the header map as its entries in iteration order,
  with lower-case names.\<close>

record http_request =
  hr_method :: string
  hr_uri_path :: string
  hr_uri_authority :: "string option"
  hr_path_and_query :: "string option"
  hr_headers :: "h3_header list"

text \<open>\<open>HeaderValue::to_str\<close> accepts visible ASCII, spaces and tabs.\<close>

definition to_str_ok :: "string \<Rightarrow> bool" where
  "to_str_ok v = list_all (\<lambda>c. char_code c = 9 \<or> 32 \<le> char_code c \<and> char_code c < 127) v"

definition header_values :: "string \<Rightarrow> h3_header list \<Rightarrow> string list" where
  "header_values name hs = map snd (filter (\<lambda>h. fst h = name) hs)"

definition parse_http_content_length :: "h3_header list \<Rightarrow> rejection + nat option" where
  "parse_http_content_length hs = content_length_loop (header_values ''content-length'' hs) None"

fun http_size_loop :: "nat \<Rightarrow> h3_header list \<Rightarrow> nat \<Rightarrow> bool" where
  "http_size_loop limit [] bytes = True"
| "http_size_loop limit ((n, v) # hs) bytes =
     (let bytes = sat_add_len bytes (length n + length v) in
      if bytes > limit then False else http_size_loop limit hs bytes)"

definition http_part_errors :: request_part_errors where
  "http_part_errors = \<lparr>rpe_invalid_method = ''invalid method header'', rpe_invalid_path = ''invalid path header'',
     rpe_invalid_authority = ''invalid authority'', rpe_invalid_host = ''invalid host header'',
     rpe_authority_mismatch = ''authority and host headers must match'',
     rpe_connect_path_not_allowed = ''invalid CONNECT path'',
     rpe_connect_authority_required = ''CONNECT requires authority host:port''\<rparr>"

definition validate_http_request ::
    "authority_parser \<Rightarrow> http_request \<Rightarrow> runtime_resilience \<Rightarrow> rejection + request_validation_result" where
  "validate_http_request pa req rr =
     (if sat_add_len (length (hr_headers req)) 2 > unat (rr_max_headers_count rr)
      then Inl (431, line ''too many request headers'', False)
      else
        let bytes0 = length (hr_method req) + length (hr_uri_path req);
            authority = hr_uri_authority req;
            host_values = header_values ''host'' (hr_headers req) in
        if host_values \<noteq> [] \<and> \<not> to_str_ok (hd host_values) then Inl (bad_request ''invalid host header'')
        else
          let host = (if host_values = [] then None else Some (hd host_values));
              bytes1 = (case authority of Some a \<Rightarrow> sat_add_len bytes0 (length a) | None \<Rightarrow> bytes0);
              bytes2 = (case host of Some h \<Rightarrow> sat_add_len bytes1 (length ''host'' + length h) | None \<Rightarrow> bytes1) in
          if \<not> http_size_loop (unat (rr_max_headers_bytes rr)) (hr_headers req) bytes2
          then Inl (431, line ''request headers exceed size limit'', False)
          else
            let path = (case hr_path_and_query req of Some pq \<Rightarrow> pq | None \<Rightarrow> ''/'') in
            case parse_http_content_length (hr_headers req) of
              Inl e \<Rightarrow> Inl e
            | Inr cl \<Rightarrow> validate_request_parts pa (hr_method req) path authority host cl False rr http_part_errors)"

section \<open>Trace context\<close>

definition is_hexdigit :: "char \<Rightarrow> bool" where
  "is_hexdigit c \<longleftrightarrow> hex_digit c \<noteq> None"

definition parse_traceparent :: "string \<Rightarrow> (string \<times> string) option" where
  "parse_traceparent v =
     (case split_char CHR ''-'' v of
        [version, trace_id, parent, flags] \<Rightarrow>
          if version \<noteq> ''00'' then None
          else
            let trace_valid = (length trace_id = 32 \<and> list_all is_hexdigit trace_id \<and> trace_id \<noteq> replicate 32 CHR ''0'');
                span_valid = (length parent = 16 \<and> list_all is_hexdigit parent \<and> parent \<noteq> replicate 16 CHR ''0'');
                flags_valid = (length flags = 2 \<and> list_all is_hexdigit flags) in
            if \<not> (trace_valid \<and> span_valid \<and> flags_valid) then None
            else Some (to_ascii_lowercase trace_id, to_ascii_lowercase parent)
      | _ \<Rightarrow> None)"

section \<open>What the header loop has seen\<close>

definition slot_values :: "header_slot \<Rightarrow> h3_header list \<Rightarrow> string list" where
  "slot_values k hs = map snd (filter (\<lambda>h. header_slot_of (fst h) = k) hs)"

definition opt_list :: "'a option \<Rightarrow> 'a list" where
  "opt_list x = (case x of None \<Rightarrow> [] | Some v \<Rightarrow> [v])"

definition headers_size :: "h3_header list \<Rightarrow> nat" where
  "headers_size hs = sum_list (map (\<lambda>h. length (fst h) + length (snd h)) hs)"

definition upgrade_token :: "string \<Rightarrow> bool" where
  "upgrade_token v \<longleftrightarrow> list_ex (\<lambda>part. eq_ignore_ascii_case (trim part) ''upgrade'') (split_char CHR '','' v)"

definition acc_ok :: "runtime_resilience \<Rightarrow> h3_header list \<Rightarrow> h3_acc \<Rightarrow> bool" where
  "acc_ok rr hs a \<longleftrightarrow>
     slot_values SlotMethod hs = opt_list (ha_method a) \<and> slot_values SlotPath hs = opt_list (ha_path a) \<and>
     slot_values SlotAuthority hs = opt_list (ha_authority a) \<and> slot_values SlotHost hs = opt_list (ha_host a) \<and>
     slot_values SlotScheme hs = opt_list (ha_scheme a) \<and> slot_values SlotProtocol hs = opt_list (ha_protocol a) \<and>
     slot_values SlotUnknownPseudo hs = [] \<and>
     ha_upgrade a = (slot_values SlotUpgrade hs \<noteq> [] \<or> list_ex upgrade_token (slot_values SlotConnection hs)) \<and>
     ha_header_bytes a = min (headers_size hs) usize_max \<and> ha_header_bytes a \<le> unat (rr_max_headers_bytes rr)"

lemma slot_values_snoc: "slot_values k (hs @ [h]) = slot_values k hs @ (if header_slot_of (fst h) = k then [snd h] else [])"
  by (simp add: slot_values_def)

lemma headers_size_snoc: "headers_size (hs @ [h]) = headers_size hs + (length (fst h) + length (snd h))"
  by (simp add: headers_size_def)

lemma once_value_Inr: "once_value slot name v = Inr w \<longleftrightarrow> slot = None \<and> utf8_ok v \<and> w = v"
  by (auto simp: once_value_def strict_header_value_def)

lemma strict_header_value_Inr: "strict_header_value v e = Inr w \<longleftrightarrow> utf8_ok v \<and> w = v"
  by (auto simp: strict_header_value_def)

lemma map_sum_Inr: "map_sum id f x = Inr y \<longleftrightarrow> (\<exists>z. x = Inr z \<and> y = f z)"
  by (cases x) auto

lemma case_sum_Inr: "(case x of Inl e \<Rightarrow> Inl e | Inr v \<Rightarrow> f v) = Inr y \<longleftrightarrow> (\<exists>z. x = Inr z \<and> f z = Inr y)"
  by (cases x) auto

lemmas result_simps = once_value_Inr strict_header_value_Inr map_sum_Inr case_sum_Inr

lemma sat_add_len_min: "sat_add_len (min a usize_max) b = min (a + b) usize_max"
  by (simp add: sat_add_len_def)

text \<open>An accepted header fills one empty slot, or none.\<close>

definition slot_effect :: "header_slot \<Rightarrow> string \<Rightarrow> h3_acc \<Rightarrow> h3_acc \<Rightarrow> bool" where
  "slot_effect k v a a' =
     (case k of
        SlotMethod \<Rightarrow> ha_method a = None \<and> a' = a\<lparr>ha_method := Some v\<rparr>
      | SlotPath \<Rightarrow> ha_path a = None \<and> a' = a\<lparr>ha_path := Some v\<rparr>
      | SlotAuthority \<Rightarrow> ha_authority a = None \<and> a' = a\<lparr>ha_authority := Some v\<rparr>
      | SlotHost \<Rightarrow> ha_host a = None \<and> a' = a\<lparr>ha_host := Some v\<rparr>
      | SlotConnection \<Rightarrow> a' = (if upgrade_token v then a\<lparr>ha_upgrade := True\<rparr> else a)
      | SlotUpgrade \<Rightarrow> a' = a\<lparr>ha_upgrade := True\<rparr>
      | SlotScheme \<Rightarrow> ha_scheme a = None \<and> a' = a\<lparr>ha_scheme := Some v\<rparr>
      | SlotProtocol \<Rightarrow> ha_protocol a = None \<and> a' = a\<lparr>ha_protocol := Some v\<rparr>
      | SlotUnknownPseudo \<Rightarrow> False
      | SlotOther \<Rightarrow> a' = a)"

lemma h3_header_step_Inr:
  assumes "h3_header_step rr h a = Inr a'"
  defines "b \<equiv> sat_add_len (ha_header_bytes a) (length (fst h) + length (snd h))"
  shows "b \<le> unat (rr_max_headers_bytes rr)"
    and "slot_effect (header_slot_of (fst h)) (snd h) (a\<lparr>ha_header_bytes := b\<rparr>) a'"
proof -
  have le: "\<not> unat (rr_max_headers_bytes rr) < b"
  proof
    assume "unat (rr_max_headers_bytes rr) < b"
    from assms(1) [unfolded h3_header_step_def Let_def b_def [symmetric] if_P [OF this]] show False by simp
  qed
  then show "b \<le> unat (rr_max_headers_bytes rr)" by simp
  show "slot_effect (header_slot_of (fst h)) (snd h) (a\<lparr>ha_header_bytes := b\<rparr>) a'"
    using assms(1) [unfolded h3_header_step_def Let_def b_def [symmetric] if_not_P [OF le] upgrade_token_def [symmetric]]
    unfolding slot_effect_def
    by (cases "header_slot_of (fst h)"; simp only: header_slot.case; simp add: result_simps split: if_splits)
qed

lemma h3_header_step_ok:
  assumes ok: "acc_ok rr hs a" and step: "h3_header_step rr h a = Inr a'"
  shows "acc_ok rr (hs @ [h]) a'"
proof -
  define b where "b = sat_add_len (ha_header_bytes a) (length (fst h) + length (snd h))"
  have "ha_header_bytes a = min (headers_size hs) usize_max" using ok by (simp only: acc_ok_def)
  then have b: "b = min (headers_size (hs @ [h])) usize_max"
    unfolding b_def by (simp only: headers_size_snoc sat_add_len_min)
  note eff = h3_header_step_Inr [OF step, folded b_def]
  from ok eff show ?thesis unfolding acc_ok_def slot_values_snoc b [symmetric]
    by (cases "header_slot_of (fst h)") (simp_all add: slot_effect_def opt_list_def)
qed

lemma h3_headers_loop_ok:
  "acc_ok rr done a \<Longrightarrow> h3_headers_loop rr hs a = Inr a' \<Longrightarrow> acc_ok rr (done @ hs) a'"
proof (induction hs arbitrary: "done" a)
  case (Cons h hs)
  then obtain b where b: "h3_header_step rr h a = Inr b" "h3_headers_loop rr hs b = Inr a'"
    by (auto simp: case_sum_Inr)
  from Cons.IH [OF h3_header_step_ok [OF Cons.prems(1) b(1)] b(2)] show ?case by simp
qed simp

lemma acc_ok_init: "acc_ok rr [] h3_acc_init"
  by (simp add: acc_ok_def h3_acc_init_def slot_values_def opt_list_def headers_size_def)

section \<open>Content length\<close>

lemma content_length_loop_Inr:
  "content_length_loop vs cl = Inr r \<longleftrightarrow>
     (case cl of
        Some n \<Rightarrow> r = Some n \<and> (\<forall>v \<in> set vs. parse_content_length_value v = Some n)
      | None \<Rightarrow> (case vs of
          [] \<Rightarrow> r = None
        | v # vs' \<Rightarrow> \<exists>n. r = Some n \<and> (\<forall>v \<in> set vs. parse_content_length_value v = Some n)))"
proof (induction vs arbitrary: cl)
  case Nil
  then show ?case by (auto split: option.splits)
next
  case (Cons v vs)
  then show ?case
    by (cases "parse_content_length_value v"; cases cl) (auto simp: merge_content_length_def)
qed

section \<open>Accepted requests\<close>

lemma header_slot_iff:
  "header_slot_of n = SlotMethod \<longleftrightarrow> n = '':method''" "header_slot_of n = SlotPath \<longleftrightarrow> n = '':path''"
  "header_slot_of n = SlotAuthority \<longleftrightarrow> n = '':authority''" "header_slot_of n = SlotHost \<longleftrightarrow> n = ''host''"
  "header_slot_of n = SlotScheme \<longleftrightarrow> n = '':scheme''" "header_slot_of n = SlotProtocol \<longleftrightarrow> n = '':protocol''"
  "header_slot_of n = SlotUpgrade \<longleftrightarrow> n = ''upgrade''"
  by (auto simp: header_slot_of_def)

lemma slot_header_values:
  "slot_values SlotMethod hs = header_values '':method'' hs" "slot_values SlotPath hs = header_values '':path'' hs"
  "slot_values SlotAuthority hs = header_values '':authority'' hs" "slot_values SlotHost hs = header_values ''host'' hs"
  "slot_values SlotScheme hs = header_values '':scheme'' hs" "slot_values SlotProtocol hs = header_values '':protocol'' hs"
  "slot_values SlotUpgrade hs = header_values ''upgrade'' hs"
  by (simp_all add: slot_values_def header_values_def header_slot_iff)

lemma opt_list_length: "length (opt_list x) \<le> Suc 0"
  by (simp add: opt_list_def split: option.split)

lemma validate_request_headers_InrD:
  assumes "validate_request_headers pa hs rr = Inr req"
  obtains a cl m path where "length hs \<le> unat (rr_max_headers_count rr)" and "acc_ok rr hs a"
    and "parse_h3_content_length hs = Inr cl" and "ha_method a = Some m" and "\<not> ha_upgrade a"
    and "h3_path (eq_ignore_ascii_case m ''CONNECT'') (h3_websocket_tunnel_requested m hs) (ha_path a) = Inr path"
    and "h3_scheme_error (eq_ignore_ascii_case m ''CONNECT'') (h3_websocket_tunnel_requested m hs) (ha_scheme a \<noteq> None) = None"
    and "validate_request_parts pa m path (ha_authority a) (ha_host a) cl (h3_websocket_tunnel_requested m hs) rr
           h3_part_errors = Inr req"
proof -
  have if_Inl: "(if c then Inl e else x) = Inr y \<longleftrightarrow> \<not> c \<and> x = Inr y" for c and e :: 'e and x :: "'e + 'y" and y by simp
  have case_None: "(case z of None \<Rightarrow> Inl e | Some m \<Rightarrow> f m) = Inr y \<longleftrightarrow> (\<exists>m. z = Some m \<and> f m = Inr y)"
    for z and e :: 'e and f :: "'z \<Rightarrow> 'e + 'y" and y by (cases z) simp_all
  have case_Some: "(case z of None \<Rightarrow> x | Some e \<Rightarrow> Inl e) = Inr y \<longleftrightarrow> z = None \<and> x = Inr y"
    for z and x :: "'e + 'y" and y by (cases z) simp_all
  from assms [unfolded validate_request_headers_def Let_def if_Inl case_sum_Inr case_None case_Some]
  obtain a cl m path where "length hs \<le> unat (rr_max_headers_count rr)" and a: "h3_headers_loop rr hs h3_acc_init = Inr a"
    and "parse_h3_content_length hs = Inr cl" and "ha_method a = Some m" and "\<not> ha_upgrade a"
    and "h3_path (eq_ignore_ascii_case m ''CONNECT'') (h3_websocket_tunnel_requested m hs) (ha_path a) = Inr path"
    and "h3_scheme_error (eq_ignore_ascii_case m ''CONNECT'') (h3_websocket_tunnel_requested m hs) (ha_scheme a \<noteq> None) = None"
    and "validate_request_parts pa m path (ha_authority a) (ha_host a) cl (h3_websocket_tunnel_requested m hs) rr
           h3_part_errors = Inr req"
    unfolding not_less by blast
  with h3_headers_loop_ok [OF acc_ok_init a] show ?thesis by (intro that) simp_all
qed

lemma validate_request_parts_InrD:
  assumes "validate_request_parts pa m path authority host cl tunnel rr errs = Inr req"
  defines "target \<equiv> (case authority of Some a \<Rightarrow> Some a | None \<Rightarrow> host)"
  shows "req = \<lparr>rv_method = m, rv_path = path, rv_authority = target, rv_content_length = cl, rv_websocket_tunnel = tunnel\<rparr>"
    and "\<not> request_path_is_ambiguous path" and "method_allowed rr m"
    and "eq_ignore_ascii_case m ''CONNECT'' \<and> \<not> tunnel \<or> starts_with ''/'' path \<and> \<not> path_denied rr path"
    and "eq_ignore_ascii_case m ''CONNECT'' \<Longrightarrow> \<exists>a. target = Some a \<and> connect_allowed rr a"
    and "rr_enforce_authority_host_match rr \<Longrightarrow> authority = Some a \<Longrightarrow> host = Some h \<Longrightarrow>
      \<exists>na nh. parse_authority_value pa a = Some na \<and> parse_authority_value pa h = Some nh \<and> authorities_match na nh"
proof -
  have orig: "na_original na = v" if "parse_authority_value pa v = Some na" for v na
    using that by (auto simp: parse_authority_value_def Let_def split: if_splits option.splits)
  note checks = checks_InrD [OF assms(1) [unfolded validate_request_parts_def Let_def]]
  note ok = checks [THEN conjunct1, unfolded first_error_None list.pred_inject fst_conv]
  show "req = \<lparr>rv_method = m, rv_path = path, rv_authority = target, rv_content_length = cl, rv_websocket_tunnel = tunnel\<rparr>"
    using checks by (simp add: target_def)
  show "\<not> request_path_is_ambiguous path" "method_allowed rr m" using ok by blast+
  show "eq_ignore_ascii_case m ''CONNECT'' \<and> \<not> tunnel \<or> starts_with ''/'' path \<and> \<not> path_denied rr path"
    using ok by blast
  show "\<exists>na nh. parse_authority_value pa a = Some na \<and> parse_authority_value pa h = Some nh \<and> authorities_match na nh"
    if "rr_enforce_authority_host_match rr" "authority = Some a" "host = Some h"
    using ok that by (auto split: option.splits)
  show "\<exists>a. target = Some a \<and> connect_allowed rr a" if "eq_ignore_ascii_case m ''CONNECT''"
  proof (cases authority)
    case None
    with ok that obtain na where "Option.bind host (parse_authority_value pa) = Some na" "connect_allowed rr (na_original na)"
      by (auto split: option.splits)
    with None orig show ?thesis by (auto simp: target_def split: bind_splits)
  next
    case (Some v)
    with ok that obtain na where "parse_authority_value pa v = Some na" "connect_allowed rr (na_original na)"
      by (auto split: option.splits)
    with Some orig show ?thesis by (auto simp: target_def)
  qed
qed

definition content_length_values :: "h3_header list \<Rightarrow> string list" where
  "content_length_values hs = map snd (filter (\<lambda>h. eq_ignore_ascii_case (fst h) ''content-length'') hs)"

lemma parse_h3_content_length_Inr:
  "parse_h3_content_length hs = Inr cl \<Longrightarrow>
   (cl = None \<longleftrightarrow> content_length_values hs = []) \<and> (\<forall>v \<in> set (content_length_values hs). parse_content_length_value v = cl)"
  unfolding parse_h3_content_length_def content_length_values_def [symmetric] content_length_loop_Inr
  by (auto split: list.splits)

lemma no_unknown_pseudo:
  assumes "slot_values SlotUnknownPseudo hs = []" and "h \<in> set hs" and "starts_with '':'' (fst h)"
  shows "fst h \<in> {'':method'', '':path'', '':authority'', '':scheme'', '':protocol''}"
proof (rule ccontr)
  assume "fst h \<notin> {'':method'', '':path'', '':authority'', '':scheme'', '':protocol''}"
  moreover have "fst h \<noteq> ''host''" "fst h \<noteq> ''connection''" "fst h \<noteq> ''upgrade''"
    using assms(3) by (auto simp: starts_with_def)
  ultimately have "header_slot_of (fst h) = SlotUnknownPseudo" using assms(3) by (simp add: header_slot_of_def)
  with assms(1,2) show False by (auto simp: slot_values_def filter_empty_conv)
qed

section \<open>A concrete request\<close>

definition demo_parser :: authority_parser where
  "demo_parser s = Some (s, None)"

definition demo_headers :: "h3_header list" where
  "demo_headers = [('':method'', ''GET''), ('':scheme'', ''https''), ('':path'', ''/api''), ('':authority'', ''a.example'')]"

lemma char_of_a: "char_of (97 :: nat) = CHR ''a''"
  by (simp add: char_of_eq_iff)

lemma demo_path_plain: "\<not> request_path_is_ambiguous ''/api''" "\<not> request_path_is_ambiguous ''/%61dmin''"
  by (simp_all add: char_of_a request_path_is_ambiguous_def contains_str_def backslash_def hex_digit_def char_code_def
      split_once_def sublist_Cons_right char_of_eq_iff Let_def)

lemma demo_request_accepted:
  assumes "4 \<le> unat (rr_max_headers_count rr)" and "60 \<le> unat (rr_max_headers_bytes rr)"
    and "rr_allowed_methods rr = {}" and "rr_denied_path_prefixes rr = []"
  shows "validate_request_headers demo_parser demo_headers rr =
    Inr \<lparr>rv_method = ''GET'', rv_path = ''/api'', rv_authority = Some ''a.example'', rv_content_length = None, rv_websocket_tunnel = False\<rparr>"
proof -
  have utf8: "utf8_ok ''GET''" "utf8_ok ''https''" "utf8_ok ''/api''" "utf8_ok ''a.example''"
    by (simp_all add: utf8_ok_def char_code_def)
  have slots: "header_slot_of '':method'' = SlotMethod" "header_slot_of '':scheme'' = SlotScheme"
    "header_slot_of '':path'' = SlotPath" "header_slot_of '':authority'' = SlotAuthority"
    by (simp_all add: header_slot_of_def)
  have sat: "sat_add_len a b = a + b" if "a + b < 100" for a b
    using that by (simp add: sat_add_len_def usize_max_def)
  have "h3_headers_loop rr demo_headers h3_acc_init =
    Inr (h3_acc_init\<lparr>ha_header_bytes := 50, ha_method := Some ''GET'', ha_scheme := Some ''https'', ha_path := Some ''/api'',
      ha_authority := Some ''a.example''\<rparr>)"
    using assms(2) by (simp add: demo_headers_def h3_header_step_def slots sat h3_acc_init_def once_value_def
        strict_header_value_def utf8 Let_def)
  moreover have "parse_h3_content_length demo_headers = Inr None"
    by (simp add: parse_h3_content_length_def demo_headers_def str_eval char_of_eq_iff)
  moreover have "\<not> h3_websocket_tunnel_requested ''GET'' demo_headers" and get: "\<not> eq_ignore_ascii_case ''GET'' ''CONNECT''"
    by (simp_all add: h3_websocket_tunnel_requested_def h3_websocket_request_kind_of_def Let_def str_eval char_of_eq_iff)
  moreover have "trim ''a.example'' = ''a.example''" "trim ''GET'' = ''GET''" by (simp_all add: str_eval)
  then have "validate_request_parts demo_parser ''GET'' ''/api'' (Some ''a.example'') None None False rr h3_part_errors =
    Inr \<lparr>rv_method = ''GET'', rv_path = ''/api'', rv_authority = Some ''a.example'', rv_content_length = None, rv_websocket_tunnel = False\<rparr>"
    using assms(3,4) get demo_path_plain(1)
    by (simp add: validate_request_parts_def first_error_def parse_authority_value_def demo_parser_def starts_with_def
        method_allowed_def path_denied_def is_ascii_whitespace_def char_code_def is_whitespace_def trim_end_matches_def
        to_ascii_lowercase_def)
  ultimately show ?thesis
    using assms(1) by (simp add: validate_request_headers_def h3_acc_init_def h3_scheme_error_def Let_def, simp add: demo_headers_def)
qed

text \<open>
  C35. The framing of an accepted HTTP/3 request is unambiguous: the limits on the number and the size
  of the headers hold, the method is given exactly once and every other pseudo-header and the host at
  most once, no unknown pseudo-header and no \<open>upgrade\<close> header (in lower case, as the names of HTTP/3 headers
  are) is present, the authority is the one given, and all content-length headers agree on the
  length that is reported.
\<close>

theorem accepted_headers_unambiguous:
  assumes "validate_request_headers pa hs rr = Inr req"
  shows "length hs \<le> unat (rr_max_headers_count rr) \<and>
    min (headers_size hs) usize_max \<le> unat (rr_max_headers_bytes rr) \<and>
    header_values '':method'' hs = [rv_method req] \<and>
    (\<forall>n \<in> {'':path'', '':authority'', '':scheme'', '':protocol'', ''host''}. length (header_values n hs) \<le> 1) \<and>
    (\<forall>h \<in> set hs. starts_with '':'' (fst h) \<longrightarrow>
       fst h \<in> {'':method'', '':path'', '':authority'', '':scheme'', '':protocol''}) \<and>
    header_values ''upgrade'' hs = [] \<and>
    opt_list (rv_authority req) = take 1 (header_values '':authority'' hs @ header_values ''host'' hs) \<and>
    (rv_content_length req = None \<longleftrightarrow> content_length_values hs = []) \<and>
    (\<forall>v \<in> set (content_length_values hs). parse_content_length_value v = rv_content_length req)"
proof -
  obtain a cl m path where len: "length hs \<le> unat (rr_max_headers_count rr)" and ok: "acc_ok rr hs a"
    and cl: "parse_h3_content_length hs = Inr cl" and m: "ha_method a = Some m" and up: "\<not> ha_upgrade a"
    and parts: "validate_request_parts pa m path (ha_authority a) (ha_host a) cl
      (h3_websocket_tunnel_requested m hs) rr h3_part_errors = Inr req"
    by (rule validate_request_headers_InrD [OF assms])
  note req = validate_request_parts_InrD(1) [OF parts]
  note ok' = ok [unfolded acc_ok_def slot_header_values]
  from ok' m have one: "header_values '':method'' hs = [rv_method req]" by (simp add: req opt_list_def)
  have auth: "opt_list (rv_authority req) = take 1 (header_values '':authority'' hs @ header_values ''host'' hs)"
    using ok' by (cases "ha_authority a"; cases "ha_host a") (simp_all add: req opt_list_def)
  have most: "\<forall>n \<in> {'':path'', '':authority'', '':scheme'', '':protocol'', ''host''}. length (header_values n hs) \<le> 1"
    using ok' by (simp only: ball_simps) (simp add: opt_list_length)
  have pseudo: "\<forall>h \<in> set hs. starts_with '':'' (fst h) \<longrightarrow>
      fst h \<in> {'':method'', '':path'', '':authority'', '':scheme'', '':protocol''}"
    using no_unknown_pseudo ok by (auto simp only: acc_ok_def)
  have upgrade: "header_values ''upgrade'' hs = []" using ok' up by simp
  have size: "min (headers_size hs) usize_max \<le> unat (rr_max_headers_bytes rr)" using ok' by (elim conjE) simp
  have "rv_content_length req = cl" by (simp add: req)
  then show ?thesis
    using len size one most pseudo upgrade auth parse_h3_content_length_Inr [OF cl] by (intro conjI) simp_all
qed

text \<open>The default protocol policy accepts the request above.\<close>

lemma demo_request_accepted_default:
  obtains ap where "admission_policy_normalize early_data_config 1024 = Inr ap"
    and "validate_request_headers demo_parser demo_headers (from_policies ap) =
      Inr \<lparr>rv_method = ''GET'', rv_path = ''/api'', rv_authority = Some ''a.example'', rv_content_length = None, rv_websocket_tunnel = False\<rparr>"
proof -
  obtain ap where ap: "admission_policy_normalize early_data_config 1024 = Inr ap"
    using early_data_config_accepted by blast
  have "ap_protocol ap = protocol_policy_of (protocol_policy_default\<lparr>allow_0rtt := True\<rparr>)"
    using admission_normalizeD(8) [OF ap] by (simp add: early_data_config_def)
  then have "4 \<le> unat (rr_max_headers_count (from_policies ap))" "60 \<le> unat (rr_max_headers_bytes (from_policies ap))"
    "rr_allowed_methods (from_policies ap) = {}" "rr_denied_path_prefixes (from_policies ap) = []"
    by (simp_all add: from_policies_def Let_def protocol_policy_of_def protocol_policy_default_def unat_max normalize_string_vec_def)
  from that [OF ap demo_request_accepted [OF this]] show ?thesis .
qed

theorem accepted_headers_unambiguous_witness:
  "\<exists>ap req. admission_policy_normalize early_data_config 1024 = Inr ap \<and>
     validate_request_headers demo_parser demo_headers (from_policies ap) = Inr req \<and>
     header_values '':method'' demo_headers = [rv_method req] \<and> content_length_values demo_headers = []"
proof -
  obtain ap where ap: "admission_policy_normalize early_data_config 1024 = Inr ap"
    and acc: "validate_request_headers demo_parser demo_headers (from_policies ap) =
      Inr \<lparr>rv_method = ''GET'', rv_path = ''/api'', rv_authority = Some ''a.example'', rv_content_length = None, rv_websocket_tunnel = False\<rparr>"
    by (rule demo_request_accepted_default)
  from accepted_headers_unambiguous [OF acc] ap acc show ?thesis by simp
qed

text \<open>
  C36. An accepted HTTP/3 request satisfies every configured policy: its method is allowed, its path is
  not ambiguous, a path that is routed starts with a slash and has no denied prefix, the target of a
  CONNECT is on the allowlist, and authority and host agree where that is enforced.
\<close>

theorem accepted_request_authorized:
  assumes "validate_request_headers pa hs rr = Inr req"
  shows "method_allowed rr (rv_method req) \<and> \<not> request_path_is_ambiguous (rv_path req) \<and>
    (if eq_ignore_ascii_case (rv_method req) ''CONNECT'' \<and> \<not> rv_websocket_tunnel req
     then rv_path req = ''/'' \<and> header_values '':path'' hs = [] \<and> header_values '':scheme'' hs = []
     else header_values '':path'' hs = [rv_path req] \<and> starts_with ''/'' (rv_path req) \<and> \<not> path_denied rr (rv_path req) \<and>
       header_values '':scheme'' hs \<noteq> []) \<and>
    (eq_ignore_ascii_case (rv_method req) ''CONNECT'' \<longrightarrow>
       (\<exists>a. rv_authority req = Some a \<and> connect_allowed rr a)) \<and>
    (\<forall>a h. rr_enforce_authority_host_match rr \<and> header_values '':authority'' hs = [a] \<and> header_values ''host'' hs = [h] \<longrightarrow>
       (\<exists>na nh. parse_authority_value pa a = Some na \<and> parse_authority_value pa h = Some nh \<and> authorities_match na nh))"
proof -
  obtain a cl m path where ok: "acc_ok rr hs a" and m: "ha_method a = Some m"
    and path: "h3_path (eq_ignore_ascii_case m ''CONNECT'') (h3_websocket_tunnel_requested m hs) (ha_path a) = Inr path"
    and scheme: "h3_scheme_error (eq_ignore_ascii_case m ''CONNECT'') (h3_websocket_tunnel_requested m hs) (ha_scheme a \<noteq> None) = None"
    and parts: "validate_request_parts pa m path (ha_authority a) (ha_host a) cl
      (h3_websocket_tunnel_requested m hs) rr h3_part_errors = Inr req"
    by (rule validate_request_headers_InrD [OF assms])
  note ok' = ok [unfolded acc_ok_def slot_header_values]
  note D = validate_request_parts_InrD [OF parts]
  define c t where "c = eq_ignore_ascii_case m ''CONNECT''" and "t = h3_websocket_tunnel_requested m hs"
  have req: "rv_method req = m" "rv_path req = path" "rv_websocket_tunnel req = t" by (simp_all add: D(1) t_def)
  have vals: "header_values '':path'' hs = opt_list (ha_path a)" "header_values '':scheme'' hs = opt_list (ha_scheme a)"
    "header_values '':authority'' hs = opt_list (ha_authority a)" "header_values ''host'' hs = opt_list (ha_host a)"
    using ok' by blast+
  have scheme': "if c \<and> \<not> t then ha_scheme a = None else ha_scheme a \<noteq> None"
    using scheme unfolding c_def [symmetric] t_def [symmetric] h3_scheme_error_def by (auto split: if_splits)
  have path': "if c \<and> \<not> t then path = ''/'' \<and> ha_path a = None else ha_path a = Some path"
    using path unfolding c_def [symmetric] t_def [symmetric]
    by (cases "(c, t, ha_path a)" rule: h3_path.cases) simp_all
  have match: "\<exists>na nh. parse_authority_value pa x = Some na \<and> parse_authority_value pa h = Some nh \<and> authorities_match na nh"
    if "rr_enforce_authority_host_match rr" "opt_list (ha_authority a) = [x]" "opt_list (ha_host a) = [h]" for x h
    using D(6) [OF that(1)] that(2,3) by (auto simp: opt_list_def split: option.splits)
  have D4: "c \<and> \<not> t \<or> starts_with ''/'' path \<and> \<not> path_denied rr path" using D(4) unfolding c_def t_def .
  show ?thesis unfolding req vals c_def [symmetric]
  proof (intro conjI)
    show "if c \<and> \<not> t then path = ''/'' \<and> opt_list (ha_path a) = [] \<and> opt_list (ha_scheme a) = []
      else opt_list (ha_path a) = [path] \<and> starts_with ''/'' path \<and> \<not> path_denied rr path \<and> opt_list (ha_scheme a) \<noteq> []"
      using path' scheme' D4 by (cases "c \<and> \<not> t") (auto simp: opt_list_def)
    show "c \<longrightarrow> (\<exists>a. rv_authority req = Some a \<and> connect_allowed rr a)" using D(1,5) unfolding c_def by auto
  qed (use D(2,3) match in blast)+
qed


theorem accepted_request_authorized_witness:
  "\<exists>ap req. admission_policy_normalize early_data_config 1024 = Inr ap \<and>
     validate_request_headers demo_parser demo_headers (from_policies ap) = Inr req \<and>
     method_allowed (from_policies ap) (rv_method req) \<and> header_values '':path'' demo_headers = [''/api'']"
proof -
  obtain ap where ap: "admission_policy_normalize early_data_config 1024 = Inr ap"
    and acc: "validate_request_headers demo_parser demo_headers (from_policies ap) =
      Inr \<lparr>rv_method = ''GET'', rv_path = ''/api'', rv_authority = Some ''a.example'', rv_content_length = None, rv_websocket_tunnel = False\<rparr>"
    by (rule demo_request_accepted_default)
  have "\<not> eq_ignore_ascii_case ''GET'' ''CONNECT''" by (simp add: str_eval char_of_eq_iff)
  with accepted_request_authorized [OF acc] ap acc show ?thesis by simp
qed

section \<open>Rejections\<close>

definition rejection_ok :: "rejection \<Rightarrow> bool" where
  "rejection_ok e \<longleftrightarrow> fst e \<in> {400, 403, 405, 431} \<and> (snd (snd e) \<longleftrightarrow> fst e \<in> {403, 405})"

definition res_ok :: "rejection + 'a \<Rightarrow> bool" where
  "res_ok x \<longleftrightarrow> (\<forall>e. x = Inl e \<longrightarrow> rejection_ok e)"

named_theorems res_intros \<open>results that reject only with a classified status\<close>

lemma bad_request_ok [res_intros]: "rejection_ok (bad_request msg)"
  by (simp add: rejection_ok_def bad_request_def)

lemma too_large_ok [res_intros]: "rejection_ok (431, body, False)"
  by (simp add: rejection_ok_def)

lemma res_ok_Inl [res_intros]: "rejection_ok e \<Longrightarrow> res_ok (Inl e)"
  by (simp add: res_ok_def)

lemma res_ok_Inr [res_intros]: "res_ok (Inr v)"
  by (simp add: res_ok_def)

lemma res_ok_if [res_intros]: "res_ok x \<Longrightarrow> res_ok y \<Longrightarrow> res_ok (if c then x else y)"
  by simp

lemma res_ok_bind [res_intros]:
  "res_ok x \<Longrightarrow> (\<And>v. res_ok (f v)) \<Longrightarrow> res_ok (case x of Inl e \<Rightarrow> Inl e | Inr v \<Rightarrow> f v)"
  by (cases x) (simp_all add: res_ok_def)

lemma res_ok_map [res_intros]: "res_ok x \<Longrightarrow> res_ok (map_sum id f x)"
  by (cases x) (simp_all add: res_ok_def)

lemma res_ok_option [res_intros]: "res_ok x \<Longrightarrow> (\<And>v. z = Some v \<Longrightarrow> res_ok (f v)) \<Longrightarrow> res_ok (case z of None \<Rightarrow> x | Some v \<Rightarrow> f v)"
  by (cases z) simp_all

lemma first_error_pred: "first_error cs = Some e \<Longrightarrow> list_all (P \<circ> snd) cs \<Longrightarrow> P e"
  by (induction cs) (auto simp: first_error_def split: if_splits)

lemma validate_request_parts_res [res_intros]:
  "res_ok (validate_request_parts pa m path authority host cl tunnel rr errs)"
  unfolding validate_request_parts_def Let_def
  by (intro res_intros) (erule first_error_pred, simp add: rejection_ok_def bad_request_def)

lemma merge_content_length_res [res_intros]: "res_ok (merge_content_length cl n)"
  unfolding merge_content_length_def by (intro res_intros)

lemma content_length_loop_res: "res_ok (content_length_loop vs cl)"
proof (induction vs arbitrary: cl)
  case (Cons v vs)
  show ?case unfolding content_length_loop.simps by (intro res_intros Cons.IH)
qed (simp add: res_ok_Inr)

lemma parse_h3_content_length_res [res_intros]: "res_ok (parse_h3_content_length hs)"
  unfolding parse_h3_content_length_def by (rule content_length_loop_res)

lemma parse_http_content_length_res [res_intros]: "res_ok (parse_http_content_length hs)"
  unfolding parse_http_content_length_def by (rule content_length_loop_res)

lemma strict_header_value_res [res_intros]: "res_ok (strict_header_value v (bad_request msg))"
  unfolding strict_header_value_def by (intro res_intros)

lemma once_value_res [res_intros]: "res_ok (once_value slot name v)"
  unfolding once_value_def by (intro res_intros)

lemma h3_header_step_res [res_intros]: "res_ok (h3_header_step rr h a)"
  unfolding h3_header_step_def Let_def
  by (cases "header_slot_of (fst h)"; simp only: header_slot.case; intro res_intros)

lemma h3_headers_loop_res [res_intros]: "res_ok (h3_headers_loop rr hs a)"
proof (induction hs arbitrary: a)
  case (Cons h hs)
  show ?case unfolding h3_headers_loop.simps by (intro res_intros Cons.IH)
qed (simp add: res_ok_Inr)

lemma h3_path_res [res_intros]: "res_ok (h3_path c t p)"
  by (cases "(c, t, p)" rule: h3_path.cases) (simp_all add: res_ok_def bad_request_ok)

lemma h3_scheme_error_ok [res_intros]: "h3_scheme_error c t s = Some e \<Longrightarrow> rejection_ok e"
  by (auto simp: h3_scheme_error_def bad_request_ok split: if_splits)

lemma validate_request_headers_res: "res_ok (validate_request_headers pa hs rr)"
  unfolding validate_request_headers_def Let_def by (intro res_intros)

lemma validate_http_request_res: "res_ok (validate_http_request pa req rr)"
  unfolding validate_http_request_def Let_def by (intro res_intros)

text \<open>
  C37. Every rejected request, over HTTP/3 or over HTTP/1.1 and HTTP/2, is answered with one of the
  statuses 400, 403, 405 and 431, and it counts as denied by policy exactly for 403 and 405.
\<close>

theorem rejections_classified:
  assumes "validate_request_headers pa hs rr = Inl (status, body, denied) \<or>
           validate_http_request pa req rr = Inl (status, body, denied)"
  shows "status \<in> {400, 403, 405, 431} \<and> (denied \<longleftrightarrow> status \<in> {403, 405})"
proof -
  have "rejection_ok (status, body, denied)"
    using assms validate_request_headers_res [of pa hs rr] validate_http_request_res [of pa req rr]
    unfolding res_ok_def by blast
  then show ?thesis by (simp add: rejection_ok_def)
qed

theorem rejections_classified_witness:
  "\<exists>ap status body denied. admission_policy_normalize early_data_config 1024 = Inr ap \<and>
     validate_request_headers demo_parser [('':bogus'', [])] (from_policies ap) = Inl (status, body, denied) \<and>
     status = 400 \<and> \<not> denied"
proof -
  obtain ap where ap: "admission_policy_normalize early_data_config 1024 = Inr ap"
    using early_data_config_accepted by blast
  have "ap_protocol ap = protocol_policy_of (protocol_policy_default\<lparr>allow_0rtt := True\<rparr>)"
    using admission_normalizeD(8) [OF ap] by (simp add: early_data_config_def)
  then have limits: "1 \<le> unat (rr_max_headers_count (from_policies ap))" "10 \<le> unat (rr_max_headers_bytes (from_policies ap))"
    by (simp_all add: from_policies_def Let_def protocol_policy_of_def protocol_policy_default_def unat_max)
  have "header_slot_of '':bogus'' = SlotUnknownPseudo" by (simp add: header_slot_of_def starts_with_def)
  moreover have "sat_add_len 0 (length '':bogus'' + length ([] :: string)) \<le> length '':bogus'' + length ([] :: string)"
    by (simp only: sat_add_len_def add_0 min.cobounded1)
  then have "\<not> unat (rr_max_headers_bytes (from_policies ap)) < sat_add_len 0 (length '':bogus'' + length ([] :: string))"
    using limits(2) by simp
  ultimately have "h3_header_step (from_policies ap) ('':bogus'', []) h3_acc_init = Inl (400, line ''unsupported pseudo-header'', False)"
    by (simp add: h3_header_step_def h3_acc_init_def bad_request_def Let_def)
  then have rej: "validate_request_headers demo_parser [('':bogus'', [])] (from_policies ap) =
      Inl (400, line ''unsupported pseudo-header'', False)"
    using limits by (simp add: validate_request_headers_def)
  with rejections_classified [OF disjI1 [OF rej]] ap show ?thesis by blast
qed

text \<open>Percent escapes are decoded to detect ambiguity only.  A path that is not ambiguous may still
  decode to one that the policy denies: the deny list, like the route index, sees the raw bytes.\<close>

lemma encoded_path_not_denied:
  assumes "rr_denied_path_prefixes rr = [''/admin'']"
  shows "\<not> request_path_is_ambiguous ''/%61dmin''" and "percent_decode ''/%61dmin'' = Some ''/admin''"
    and "path_denied rr ''/admin''" and "\<not> path_denied rr ''/%61dmin''"
  using assms by (simp_all add: demo_path_plain path_denied_def starts_with_def char_of_a hex_digit_def char_code_def)

end
