(* ===== verification/Lb_Backend.thy ===== *)
theory Lb_Backend
  imports Impulse_Prelude
begin

text \<open>
  The per-backend health state machine of \<open>crates/lb/src/backend.rs\<close>: a backend is healthy,
  cooling down after an ejection, or half-open (probing) with a bounded number of probe
  permits.  \<open>active_requests\<close>, an atomic counter in the source, is a word.
\<close>

section \<open>Configuration and state\<close>

record health_check =
  hc_path :: string
  hc_interval :: u64
  hc_timeout_ms :: u64
  hc_failure_threshold :: u32
  hc_success_threshold :: u32
  hc_cooldown_ms :: u64

record backend_config =
  bc_id :: string
  bc_address :: string
  bc_weight :: u32
  bc_health_check :: "health_check option"

datatype health_failure_reason = HttpStatus5xx | Timeout | Transport | Tls | CircuitOpen

datatype health_transition = BecameHealthy | BecameUnhealthy

datatype health_state =
    Healthy
  | Probing (successes: u32) (remaining_budget: u32)
  | Unhealthy (until: instant)

record backend_state =
  address :: string
  weight :: u32
  health_check :: "health_check option"
  consecutive_failures :: u32
  health_state :: health_state
  active_requests :: usize
  ewma_latency_ms :: "real option"

definition backend_state_new :: "backend_config \<Rightarrow> backend_state" where
  "backend_state_new b =
     \<lparr>address = bc_address b,
      weight = max (bc_weight b) 1,
      health_check = bc_health_check b,
      consecutive_failures = 0,
      health_state = Healthy,
      active_requests = 0,
      ewma_latency_ms = None\<rparr>"

section \<open>Queries\<close>

definition is_healthy :: "backend_state \<Rightarrow> bool" where
  "is_healthy b = (case health_state b of Healthy \<Rightarrow> True | _ \<Rightarrow> False)"

definition is_probing :: "backend_state \<Rightarrow> bool" where
  "is_probing b = (case health_state b of Probing _ _ \<Rightarrow> True | _ \<Rightarrow> False)"

definition has_active_health_check :: "backend_state \<Rightarrow> bool" where
  "has_active_health_check b =
     (case health_check b of None \<Rightarrow> False | Some hc \<Rightarrow> 0 < hc_interval hc)"

definition cooldown_until :: "backend_state \<Rightarrow> instant option" where
  "cooldown_until b = (case health_state b of Unhealthy u \<Rightarrow> Some u | _ \<Rightarrow> None)"

definition cooldown_duration :: "backend_state \<Rightarrow> duration" where
  "cooldown_duration b =
     from_millis (case health_check b of None \<Rightarrow> 10000 | Some hc \<Rightarrow> hc_cooldown_ms hc)"

definition probe_budget :: "backend_state \<Rightarrow> u32" where
  "probe_budget b =
     (case health_check b of None \<Rightarrow> 1 | Some hc \<Rightarrow> max (hc_success_threshold hc) 1)"

definition success_threshold :: "backend_state \<Rightarrow> u32" where
  "success_threshold b =
     max (case health_check b of None \<Rightarrow> 1 | Some hc \<Rightarrow> hc_success_threshold hc) 1"

definition failure_threshold :: "backend_state \<Rightarrow> u32" where
  "failure_threshold b =
     (case health_check b of None \<Rightarrow> 3 | Some hc \<Rightarrow> hc_failure_threshold hc)"

section \<open>Transitions\<close>

definition record_probing_success ::
  "u32 \<Rightarrow> backend_state \<Rightarrow> health_transition option \<times> backend_state" where
  "record_probing_success threshold b =
     (case health_state b of
        Probing s budget \<Rightarrow>
          (let next_successes = saturating_add s 1 in
           if threshold \<le> next_successes
           then (Some BecameHealthy, b\<lparr>consecutive_failures := 0, health_state := Healthy\<rparr>)
           else (None, b\<lparr>health_state := Probing next_successes budget\<rparr>))
      | _ \<Rightarrow> (None, b))"

definition record_success ::
  "instant \<Rightarrow> backend_state \<Rightarrow> health_transition option \<times> backend_state" where
  "record_success now b =
     (case health_state b of
        Healthy \<Rightarrow> (None, b\<lparr>consecutive_failures := 0\<rparr>)
      | Unhealthy u \<Rightarrow>
          (if now < u then (None, b)
           else record_probing_success (success_threshold b)
                  (b\<lparr>consecutive_failures := 0, health_state := Probing 0 (probe_budget b)\<rparr>))
      | Probing _ _ \<Rightarrow> record_probing_success (success_threshold b) b)"

definition record_failure ::
  "instant \<Rightarrow> health_failure_reason \<Rightarrow> backend_state \<Rightarrow> health_transition option \<times> backend_state"
where
  "record_failure now reason b =
     (if is_probing b
      then (None, b\<lparr>consecutive_failures := 0,
                     health_state := Unhealthy (now + cooldown_duration b)\<rparr>)
      else let failures = saturating_add (consecutive_failures b) 1 in
        if failures < failure_threshold b
        then (None, b\<lparr>consecutive_failures := failures\<rparr>)
        else (Some BecameUnhealthy,
              b\<lparr>consecutive_failures := 0,
                health_state := Unhealthy (now + cooldown_duration b)\<rparr>))"

definition readmit_if_expired :: "instant \<Rightarrow> backend_state \<Rightarrow> bool \<times> backend_state" where
  "readmit_if_expired now b =
     (case health_state b of
        Unhealthy u \<Rightarrow>
          (if u \<le> now
           then (True, b\<lparr>consecutive_failures := 0, health_state := Probing 0 (probe_budget b)\<rparr>)
           else (False, b))
      | _ \<Rightarrow> (False, b))"

definition try_acquire_probe_permit :: "backend_state \<Rightarrow> bool \<times> backend_state" where
  "try_acquire_probe_permit b =
     (case health_state b of
        Probing s budget \<Rightarrow>
          (if 0 < budget then (True, b\<lparr>health_state := Probing s (budget - 1)\<rparr>) else (False, b))
      | _ \<Rightarrow> (False, b))"

section \<open>Behaviour of the state machine\<close>

named_theorems backend_defs \<open>definitions of the backend state machine\<close>

lemmas [backend_defs] =
  is_healthy_def is_probing_def has_active_health_check_def cooldown_until_def
  record_probing_success_def record_success_def record_failure_def readmit_if_expired_def
  try_acquire_probe_permit_def Let_def

text \<open>What the health operations never touch.\<close>

definition same_identity :: "backend_state \<Rightarrow> backend_state \<Rightarrow> bool" where
  "same_identity b b' \<longleftrightarrow>
     address b' = address b \<and> weight b' = weight b \<and> health_check b' = health_check b"

lemma same_identity_refl [simp]: "same_identity b b"
  by (simp add: same_identity_def)

lemma same_identity_trans: "same_identity a b \<Longrightarrow> same_identity b c \<Longrightarrow> same_identity a c"
  by (simp add: same_identity_def)

lemma record_success_frame:
  "record_success now b = (t, b') \<Longrightarrow>
     same_identity b b' \<and> active_requests b' = active_requests b \<and>
     ewma_latency_ms b' = ewma_latency_ms b"
  by (auto simp: backend_defs same_identity_def split: health_state.splits if_splits)

lemma record_failure_frame:
  "record_failure now r b = (t, b') \<Longrightarrow>
     same_identity b b' \<and> active_requests b' = active_requests b \<and>
     ewma_latency_ms b' = ewma_latency_ms b"
  by (auto simp: backend_defs same_identity_def split: health_state.splits if_splits)

lemma readmit_if_expired_frame:
  "readmit_if_expired now b = (t, b') \<Longrightarrow>
     same_identity b b' \<and> active_requests b' = active_requests b \<and>
     ewma_latency_ms b' = ewma_latency_ms b"
  by (auto simp: backend_defs same_identity_def split: health_state.splits if_splits)

lemma try_acquire_frame:
  "try_acquire_probe_permit b = (t, b') \<Longrightarrow>
     same_identity b b' \<and> active_requests b' = active_requests b \<and>
     ewma_latency_ms b' = ewma_latency_ms b"
  by (auto simp: backend_defs same_identity_def split: health_state.splits if_splits)

lemma identity_queries:
  assumes "same_identity b b'"
  shows "has_active_health_check b' = has_active_health_check b"
    and "cooldown_duration b' = cooldown_duration b"
    and "probe_budget b' = probe_budget b"
    and "success_threshold b' = success_threshold b"
    and "failure_threshold b' = failure_threshold b"
  using assms
  by (simp_all add: same_identity_def has_active_health_check_def cooldown_duration_def
      probe_budget_def success_threshold_def failure_threshold_def)

lemma not_healthy_and_probing [simp]: "is_healthy b \<Longrightarrow> \<not> is_probing b"
  by (simp add: backend_defs split: health_state.splits)

lemma cooldown_until_iff:
  "cooldown_until b = Some u \<longleftrightarrow> health_state b = Unhealthy u"
  by (simp add: backend_defs split: health_state.splits)

lemma health_trichotomy:
  "is_healthy b \<or> is_probing b \<or> (\<exists>u. cooldown_until b = Some u)"
  by (simp add: backend_defs split: health_state.splits)

text \<open>A success reports a transition exactly when the backend becomes healthy, and a failure
  never makes a backend healthy.\<close>

lemma record_success_transition:
  "record_success now b = (t, b') \<Longrightarrow>
     (t = Some BecameHealthy \<longleftrightarrow> \<not> is_healthy b \<and> is_healthy b') \<and> t \<noteq> Some BecameUnhealthy"
  by (auto simp: backend_defs split: health_state.splits if_splits)

lemma record_success_keeps_healthy:
  "record_success now b = (t, b') \<Longrightarrow> is_healthy b \<Longrightarrow> is_healthy b'"
  by (auto simp: backend_defs split: health_state.splits if_splits)

lemma record_failure_not_healthier:
  "record_failure now r b = (t, b') \<Longrightarrow> is_healthy b' \<Longrightarrow> is_healthy b"
  by (auto simp: backend_defs split: health_state.splits if_splits)

lemma record_failure_not_probing:
  "record_failure now r b = (t, b') \<Longrightarrow> \<not> is_probing b'"
  by (auto simp: backend_defs split: health_state.splits if_splits)

lemma record_failure_until:
  "record_failure now r b = (t, b') \<Longrightarrow> cooldown_until b' = Some u \<Longrightarrow>
     u = now + cooldown_duration b \<or> cooldown_until b = Some u"
  by (auto simp: backend_defs split: health_state.splits if_splits)

lemma record_success_until:
  "record_success now b = (t, b') \<Longrightarrow> cooldown_until b' = Some u \<Longrightarrow> cooldown_until b = Some u"
  by (auto simp: backend_defs split: health_state.splits if_splits)

lemma readmit_if_expired_result:
  "readmit_if_expired now b = (r, b') \<Longrightarrow>
     (r \<longleftrightarrow> (\<exists>u. cooldown_until b = Some u \<and> u \<le> now)) \<and>
     (r \<longrightarrow> is_probing b' \<and> health_state b' = Probing 0 (probe_budget b)) \<and> (\<not> r \<longrightarrow> b' = b)"
  by (auto simp: backend_defs split: health_state.splits if_splits)

lemma try_acquire_keeps_class:
  "try_acquire_probe_permit b = (r, b') \<Longrightarrow>
     is_healthy b' = is_healthy b \<and> is_probing b' = is_probing b \<and>
     cooldown_until b' = cooldown_until b"
  by (auto simp: backend_defs split: health_state.splits if_splits)

end
