(* ===== verification/Membership_Index.thy ===== *)
theory Membership_Index
  imports Impulse_Prelude
begin

text \<open>
  Index sets: a vector of members with an inverse position table, updated by \<open>push\<close> and
  \<open>swap_remove\<close>.  The backend pool keeps two of them (healthy and probing members).  The
  list-level facts come first; the locale \<open>membership_index\<close> is the contract the pool
  relies on, and its lemmas are the ones the pool proofs use.
\<close>

section \<open>A vector and its position table\<close>

definition idx_ok :: "nat \<Rightarrow> nat list \<Rightarrow> nat option list \<Rightarrow> bool" where
  "idx_ok n xs pos \<longleftrightarrow>
     length pos = n \<and> (\<forall>x \<in> set xs. x < n) \<and>
     (\<forall>i < n. \<forall>k. pos ! i = Some k \<longleftrightarrow> k < length xs \<and> xs ! k = i)"

lemma idx_okI:
  assumes "length pos = n" and "\<And>k. k < length xs \<Longrightarrow> xs ! k < n"
    and "\<And>i k. i < n \<Longrightarrow> pos ! i = Some k \<longleftrightarrow> k < length xs \<and> xs ! k = i"
  shows "idx_ok n xs pos"
  using assms by (auto simp: idx_ok_def in_set_conv_nth)

lemma idx_okD:
  assumes "idx_ok n xs pos"
  shows "length pos = n" and "\<And>k. k < length xs \<Longrightarrow> xs ! k < n"
    and "\<And>i k. i < n \<Longrightarrow> pos ! i = Some k \<longleftrightarrow> k < length xs \<and> xs ! k = i"
  using assms by (auto simp: idx_ok_def)

lemma idx_ok_None:
  assumes "idx_ok n xs pos" and "i < n"
  shows "pos ! i = None \<longleftrightarrow> i \<notin> set xs"
proof
  assume "pos ! i = None"
  then have "\<And>k. k < length xs \<Longrightarrow> xs ! k \<noteq> i" using idx_okD(3) [OF assms] by auto
  then show "i \<notin> set xs" by (auto simp: in_set_conv_nth)
next
  assume "i \<notin> set xs"
  then have "\<And>k. pos ! i \<noteq> Some k" using idx_okD(3) [OF assms] by (auto simp: in_set_conv_nth)
  then show "pos ! i = None" by (cases "pos ! i") auto
qed

lemma idx_ok_distinct:
  assumes "idx_ok n xs pos"
  shows "distinct xs"
proof (rule distinct_conv_nth [THEN iffD2], intro allI impI)
  fix i j assume "i < length xs" "j < length xs" "i \<noteq> j"
  then show "xs ! i \<noteq> xs ! j"
    using idx_okD(2,3) [OF assms] by (metis option.inject)
qed

lemma idx_ok_swapped:
  assumes "idx_ok n xs pos" and "k < length xs" and "k < length (butlast (xs[k := last xs]))"
  shows "butlast (xs[k := last xs]) ! k < length pos"
proof -
  have "last xs \<in> set xs" using assms(2) by (cases xs) auto
  then show ?thesis
    using assms nth_list_update_eq [of k xs] by (auto simp: idx_ok_def nth_butlast)
qed

lemma idx_ok_empty: "idx_ok n [] (replicate n None)"
  by (rule idx_okI) auto

lemma idx_ok_push:
  assumes ok: "idx_ok n xs pos" and i: "i < n" and new: "pos ! i = None"
  shows "idx_ok n (xs @ [i]) (pos[i := Some (length xs)])"
proof (rule idx_okI)
  note D = idx_okD [OF ok]
  have fresh: "\<And>k. k < length xs \<Longrightarrow> xs ! k \<noteq> i"
    using D(3) [OF i] new by auto
  show "length (pos[i := Some (length xs)]) = n" using D(1) by simp
  show "\<And>k. k < length (xs @ [i]) \<Longrightarrow> (xs @ [i]) ! k < n"
    using D(2) i by (auto simp: nth_append less_Suc_eq)
  fix j k assume j: "j < n"
  show "pos[i := Some (length xs)] ! j = Some k \<longleftrightarrow> k < length (xs @ [i]) \<and> (xs @ [i]) ! k = j"
    using D(1) D(3) [OF j] fresh j i
    by (cases "i = j") (auto simp: nth_append nth_list_update less_Suc_eq)
qed

definition swap_pos :: "nat option list \<Rightarrow> nat list \<Rightarrow> nat \<Rightarrow> nat \<Rightarrow> nat option list" where
  "swap_pos pos ys k i =
     (if k < length ys then pos[ys ! k := Some k] else pos)[i := None]"

lemma nth_swap_removed:
  "k < length xs \<Longrightarrow> l < length xs - 1 \<Longrightarrow>
     butlast (xs[k := last xs]) ! l = (if l = k then last xs else xs ! l)"
  by (auto simp: nth_butlast nth_list_update)

lemma idx_ok_remove:
  assumes ok: "idx_ok n xs pos" and i: "i < n" and k: "pos ! i = Some k"
  shows "idx_ok n (butlast (xs[k := last xs])) (swap_pos pos (butlast (xs[k := last xs])) k i)"
proof -
  note D = idx_okD [OF ok]
  define ys where "ys = butlast (xs[k := last xs])"
  define m where "m = last xs"
  have kx: "k < length xs" "xs ! k = i" using D(3) [OF i] k by auto
  then have lx: "length ys = length xs - 1" "xs \<noteq> []" by (auto simp: ys_def)
  have m: "m = xs ! (length xs - 1)" using lx(2) by (simp add: m_def last_conv_nth)
  have mn: "m < n" using D(2) [of "length xs - 1"] m kx by simp
  have ysn: "\<And>l. l < length ys \<Longrightarrow> ys ! l = (if l = k then m else xs ! l)"
    unfolding ys_def m_def using nth_swap_removed [OF kx(1)] by simp
  have pm: "pos ! m = Some (length xs - 1)" using D(3) [OF mn] m lx(2) by simp
  have mi: "m = i \<longleftrightarrow> k = length xs - 1"
  proof
    assume "m = i"
    then show "k = length xs - 1" using pm k by simp
  next
    assume "k = length xs - 1"
    then show "m = i" using m kx(2) by simp
  qed
  have "idx_ok n ys (swap_pos pos ys k i)"
  proof (rule idx_okI)
    show "length (swap_pos pos ys k i) = n" using D(1) by (simp add: swap_pos_def)
    show "\<And>l. l < length ys \<Longrightarrow> ys ! l < n" using ysn mn D(2) lx(1) by simp
    fix j l assume j: "j < n"
    have pj: "pos ! j = Some l \<longleftrightarrow> l < length xs \<and> xs ! l = j" using D(3) [OF j] .
    have new: "swap_pos pos ys k i ! j =
        (if j = i then None else if k < length ys \<and> j = m then Some k else pos ! j)"
      using j D(1) ysn mn by (auto simp: swap_pos_def nth_list_update)
    show "swap_pos pos ys k i ! j = Some l \<longleftrightarrow> l < length ys \<and> ys ! l = j"
    proof (cases "j = i")
      case True
      have "\<not> (l < length ys \<and> ys ! l = i)"
        using ysn [of l] mi lx(1) D(3) [OF i, of l] k by (auto split: if_splits)
      then show ?thesis using new True by simp
    next
      case ji: False
      show ?thesis
      proof (cases "k < length ys \<and> j = m")
        case True
        have "ys ! l = m \<longleftrightarrow> l = k" if "l < length ys"
          using ysn [OF that] that lx(1) D(3) [OF mn, of l] pm by auto
        then show ?thesis using new ji True by auto
      next
        case False
        have "j \<noteq> m" using False ji mi lx(1) kx(1) by auto
        have "(l < length xs \<and> xs ! l = j) \<longleftrightarrow> (l < length ys \<and> ys ! l = j)"
        proof
          assume l: "l < length xs \<and> xs ! l = j"
          then have "l \<noteq> length xs - 1" "l \<noteq> k" using \<open>j \<noteq> m\<close> m ji kx(2) by auto
          then show "l < length ys \<and> ys ! l = j" using l ysn [of l] lx(1) by auto
        next
          assume l: "l < length ys \<and> ys ! l = j"
          then have "l \<noteq> k" using ysn [of l] \<open>j \<noteq> m\<close> by auto
          then show "l < length xs \<and> xs ! l = j" using l ysn [of l] lx(1) by auto
        qed
        then show ?thesis using new ji False pj by auto
      qed
    qed
  qed
  then show ?thesis by (simp add: ys_def)
qed

lemma set_swap_removed:
  assumes "distinct xs" and "k < length xs"
  shows "set (butlast (xs[k := last xs])) = set xs - {xs ! k}"
proof -
  obtain zs z where xs: "xs = zs @ [z]" using assms(2) by (cases xs rule: rev_cases) auto
  show ?thesis
  proof (cases "k = length zs")
    case True
    then show ?thesis using assms(1) by (auto simp: xs)
  next
    case False
    then have k: "k < length zs" using assms(2) by (simp add: xs)
    have "set (zs[k := z]) = insert z (set zs - {zs ! k})"
      using assms(1) k by (simp add: xs set_update_distinct)
    then show ?thesis using assms(1) k by (auto simp: xs nth_append list_update_append)
  qed
qed

section \<open>The contract\<close>

text \<open>
  \<open>members\<close> and \<open>rest\<close> read a state, \<open>size_of\<close> is the number of indices; \<open>ins\<close> and
  \<open>del\<close> are the updates as the program writes them (a flag and the new state, \<open>None\<close>
  for a panic).
\<close>

locale membership_index =
  fixes size_of :: "'p \<Rightarrow> nat"
    and members :: "'p \<Rightarrow> nat list"
    and inv_ok :: "'p \<Rightarrow> bool"
    and rest :: "'p \<Rightarrow> 'r"
    and ins :: "nat \<Rightarrow> 'p \<Rightarrow> (bool \<times> 'p) option"
    and del :: "nat \<Rightarrow> 'p \<Rightarrow> (bool \<times> 'p) option"
  assumes ins_ok: "inv_ok p \<Longrightarrow> i < size_of p \<Longrightarrow> i \<notin> set (members p) \<Longrightarrow>
      \<exists>p'. ins i p = Some (True, p') \<and> inv_ok p' \<and> size_of p' = size_of p \<and>
           rest p' = rest p \<and> members p' = members p @ [i]"
    and del_ok: "inv_ok p \<Longrightarrow> i < size_of p \<Longrightarrow> i \<in> set (members p) \<Longrightarrow>
      \<exists>p'. del i p = Some (True, p') \<and> inv_ok p' \<and> size_of p' = size_of p \<and>
           rest p' = rest p \<and> set (members p') = set (members p) - {i}"
    and ins_dup: "inv_ok p \<Longrightarrow> i < size_of p \<Longrightarrow> i \<in> set (members p) \<Longrightarrow> ins i p = Some (False, p)"
    and del_absent: "inv_ok p \<Longrightarrow> i < size_of p \<Longrightarrow> i \<notin> set (members p) \<Longrightarrow> del i p = Some (False, p)"
begin

lemma asserted_ins:
  assumes "inv_ok p" and "i < size_of p" and "i \<notin> set (members p)"
  shows "\<exists>p'. debug_assert True (ins i) p = Some p' \<and> inv_ok p' \<and> size_of p' = size_of p \<and>
              rest p' = rest p \<and> members p' = members p @ [i]"
  using ins_ok [OF assms] by (auto simp: debug_assert_def)

lemma asserted_del:
  assumes "inv_ok p" and "i < size_of p" and "i \<in> set (members p)"
  shows "\<exists>p'. debug_assert True (del i) p = Some p' \<and> inv_ok p' \<and> size_of p' = size_of p \<and>
              rest p' = rest p \<and> set (members p') = set (members p) - {i}"
  using del_ok [OF assms] by (auto simp: debug_assert_def)

text \<open>The update after a status change: inserted when the flag became true, deleted when it
  became false, untouched otherwise.\<close>

lemma sync_members:
  assumes "inv_ok p" and "i < size_of p" and "i \<in> set (members p) \<longleftrightarrow> was"
  shows "\<exists>p'. (if was \<noteq> flag
               then (if flag then debug_assert True (ins i) p else debug_assert True (del i) p)
               else Some p) = Some p' \<and> inv_ok p' \<and> size_of p' = size_of p \<and> rest p' = rest p \<and>
              set (members p') = (if flag then insert i (set (members p)) else set (members p) - {i}) \<and>
              (was = flag \<longrightarrow> p' = p)"
proof (cases "was = flag")
  case True
  with assms show ?thesis by (intro exI [of _ p]) auto
next
  case False
  show ?thesis
  proof (cases flag)
    case True
    with False assms have "i \<notin> set (members p)" by simp
    from asserted_ins [OF assms(1,2) this] True False show ?thesis by auto
  next
    case flag: False
    with False assms have "i \<in> set (members p)" by simp
    from asserted_del [OF assms(1,2) this] flag False show ?thesis by auto
  qed
qed

end

end
