(* ===== verification/Lb_Pool.thy ===== *)
theory Lb_Pool
  imports Lb_Backend Membership_Index
begin

text \<open>
  The backend pool of \<open>crates/lb/src/backend_pool.rs\<close>: the backends, the two index sets
  (healthy and probing members, each a vector with its inverse position table), the
  membership epoch that strategy caches are keyed by, and the pending re-admission time.

  Every call that updates an index set is written \<open>debug_assert!(self.mark_...(index))\<close> in
  the source.  \<open>debug_assert!\<close> evaluates its argument only when \<open>debug_assertions\<close> is on,
  so the operations take that build setting as their first argument \<open>dbg\<close>.
\<close>

section \<open>State\<close>

record backend_pool =
  backends :: "backend_state list"
  healthy :: "nat list"
  healthy_pos :: "nat option list"
  probing :: "nat list"
  probing_pos :: "nat option list"
  membership_epoch :: u64
  earliest_readmit :: "instant option"
  next_probing_cursor :: nat

definition ewma_alpha :: real where "ewma_alpha = 2 / 10"
definition failure_penalty_latency_ms :: real where "failure_penalty_latency_ms = 1000"
definition min_latency_sample_ms :: real where "min_latency_sample_ms = 1"
definition max_latency_sample_ms :: real where "max_latency_sample_ms = 60000"

fun index_healthy :: "nat \<Rightarrow> backend_state list \<Rightarrow> nat list \<Rightarrow> nat option list
    \<Rightarrow> nat list \<times> nat option list" where
  "index_healthy idx [] hl hp = (hl, hp)"
| "index_healthy idx (b # bs) hl hp =
     (if is_healthy b then index_healthy (Suc idx) bs (hl @ [idx]) (hp[idx := Some (length hl)])
      else index_healthy (Suc idx) bs hl hp)"

definition new_from_states :: "backend_state list \<Rightarrow> backend_pool" where
  "new_from_states bs =
     (let (hl, hp) = index_healthy 0 bs [] (replicate (length bs) None) in
      \<lparr>backends = bs, healthy = hl, healthy_pos = hp, probing = [],
       probing_pos = replicate (length bs) None, membership_epoch = 0,
       earliest_readmit = None, next_probing_cursor = 0\<rparr>)"

section \<open>Index sets\<close>

definition mark_healthy :: "nat \<Rightarrow> backend_pool \<Rightarrow> (bool \<times> backend_pool) option" where
  "mark_healthy index p =
     (if length (backends p) \<le> index then Some (False, p)
      else do {
        slot \<leftarrow> vec_get (healthy_pos p) index;
        if slot \<noteq> None then Some (False, p)
        else do {
          hp \<leftarrow> vec_set (healthy_pos p) index (Some (length (healthy p)));
          Some (True, p\<lparr>healthy := healthy p @ [index], healthy_pos := hp\<rparr>)
        }
      })"

definition mark_probing :: "nat \<Rightarrow> backend_pool \<Rightarrow> (bool \<times> backend_pool) option" where
  "mark_probing index p =
     (if length (backends p) \<le> index then Some (False, p)
      else do {
        slot \<leftarrow> vec_get (probing_pos p) index;
        if slot \<noteq> None then Some (False, p)
        else do {
          pp \<leftarrow> vec_set (probing_pos p) index (Some (length (probing p)));
          Some (True, p\<lparr>probing := probing p @ [index], probing_pos := pp\<rparr>)
        }
      })"

definition mark_unhealthy :: "bool \<Rightarrow> nat \<Rightarrow> backend_pool \<Rightarrow> (bool \<times> backend_pool) option" where
  "mark_unhealthy dbg index p =
     (if length (backends p) \<le> index then Some (False, p)
      else do {
        slot \<leftarrow> vec_get (healthy_pos p) index;
        case slot of
          None \<Rightarrow> Some (False, p)
        | Some pos \<Rightarrow> do {
            (removed, hl) \<leftarrow> swap_remove (healthy p) pos;
            _ \<leftarrow> (if dbg \<and> removed \<noteq> index then None else Some ());
            hp \<leftarrow> (if pos < length hl then vec_set (healthy_pos p) (hl ! pos) (Some pos)
                   else Some (healthy_pos p));
            hp' \<leftarrow> vec_set hp index None;
            Some (True, p\<lparr>healthy := hl, healthy_pos := hp'\<rparr>)
          }
      })"

definition mark_not_probing :: "bool \<Rightarrow> nat \<Rightarrow> backend_pool \<Rightarrow> (bool \<times> backend_pool) option" where
  "mark_not_probing dbg index p =
     (if length (backends p) \<le> index then Some (False, p)
      else do {
        slot \<leftarrow> vec_get (probing_pos p) index;
        case slot of
          None \<Rightarrow> Some (False, p)
        | Some pos \<Rightarrow> do {
            (removed, pl) \<leftarrow> swap_remove (probing p) pos;
            _ \<leftarrow> (if dbg \<and> removed \<noteq> index then None else Some ());
            pp \<leftarrow> (if pos < length pl then vec_set (probing_pos p) (pl ! pos) (Some pos)
                   else Some (probing_pos p));
            pp' \<leftarrow> vec_set pp index None;
            Some (True, p\<lparr>probing := pl, probing_pos := pp',
                          next_probing_cursor :=
                            (if pl = [] then 0 else next_probing_cursor p mod length pl)\<rparr>)
          }
      })"

section \<open>Health feedback\<close>

text \<open>The two blocks shared by \<open>mark_success\<close> and \<open>mark_failure_with_reason\<close>.\<close>

definition sync_healthy :: "bool \<Rightarrow> nat \<Rightarrow> bool \<Rightarrow> bool \<Rightarrow> backend_pool \<Rightarrow> backend_pool option" where
  "sync_healthy dbg index was is p =
     (if was \<noteq> is then do {
        q \<leftarrow> (if is then debug_assert dbg (mark_healthy index) p
              else debug_assert dbg (mark_unhealthy dbg index) p);
        Some (q\<lparr>membership_epoch := membership_epoch q + 1\<rparr>)
      } else Some p)"

definition sync_probing :: "bool \<Rightarrow> nat \<Rightarrow> bool \<Rightarrow> bool \<Rightarrow> backend_pool \<Rightarrow> backend_pool option" where
  "sync_probing dbg index was is p =
     (if was \<noteq> is then
        (if is then debug_assert dbg (mark_probing index) p
         else debug_assert dbg (mark_not_probing dbg index) p)
      else Some p)"

definition note_readmit :: "backend_state \<Rightarrow> backend_pool \<Rightarrow> backend_pool" where
  "note_readmit b p =
     (if \<not> has_active_health_check b then
        (case cooldown_until b of
           None \<Rightarrow> p
         | Some u \<Rightarrow>
             p\<lparr>earliest_readmit :=
                 Some (case earliest_readmit p of None \<Rightarrow> u | Some e \<Rightarrow> min e u)\<rparr>)
      else p)"

definition mark_success ::
  "bool \<Rightarrow> instant \<Rightarrow> nat \<Rightarrow> backend_pool \<Rightarrow> (health_transition option \<times> backend_pool) option" where
  "mark_success dbg now index p =
     (if length (backends p) \<le> index then Some (None, p)
      else
        let b = backends p ! index;
            (transition, b') = record_success now b;
            p1 = p\<lparr>backends := (backends p)[index := b']\<rparr>
        in do {
          p2 \<leftarrow> sync_healthy dbg index (is_healthy b) (is_healthy b') p1;
          p3 \<leftarrow> sync_probing dbg index (is_probing b) (is_probing b') p2;
          Some (transition, p3)
        })"

definition mark_request_success ::
  "bool \<Rightarrow> instant \<Rightarrow> nat \<Rightarrow> backend_pool \<Rightarrow> (health_transition option \<times> backend_pool) option" where
  "mark_request_success dbg now index p =
     (if length (backends p) \<le> index then Some (None, p)
      else if has_active_health_check (backends p ! index) then Some (None, p)
      else mark_success dbg now index p)"

definition mark_failure_with_reason ::
  "bool \<Rightarrow> instant \<Rightarrow> nat \<Rightarrow> health_failure_reason \<Rightarrow> backend_pool
     \<Rightarrow> (health_transition option \<times> backend_pool) option" where
  "mark_failure_with_reason dbg now index reason p =
     (if length (backends p) \<le> index then Some (None, p)
      else
        let b = backends p ! index;
            (transition, b') = record_failure now reason b;
            p1 = p\<lparr>backends := (backends p)[index := b']\<rparr>
        in do {
          p2 \<leftarrow> sync_healthy dbg index (is_healthy b) (is_healthy b') p1;
          let p2' = (if is_healthy b \<noteq> is_healthy b' \<and> \<not> is_healthy b'
                     then note_readmit b' p2 else p2);
          p3 \<leftarrow> sync_probing dbg index (is_probing b) (is_probing b') p2';
          let p4 = (if is_probing b \<noteq> is_probing b' then note_readmit b' p3 else p3);
          Some (transition, p4)
        })"

definition mark_failure ::
  "bool \<Rightarrow> instant \<Rightarrow> nat \<Rightarrow> backend_pool \<Rightarrow> (health_transition option \<times> backend_pool) option" where
  "mark_failure dbg now index p = mark_failure_with_reason dbg now index HttpStatus5xx p"

definition mark_request_failure ::
  "bool \<Rightarrow> instant \<Rightarrow> nat \<Rightarrow> health_failure_reason \<Rightarrow> backend_pool
     \<Rightarrow> (health_transition option \<times> backend_pool) option" where
  "mark_request_failure dbg now index reason p =
     (if index < length (backends p) \<and> has_active_health_check (backends p ! index)
      then Some (None, p)
      else mark_failure_with_reason dbg now index reason p)"

section \<open>Latency samples and request accounting\<close>

definition record_latency_sample :: "real \<Rightarrow> backend_state \<Rightarrow> backend_state" where
  "record_latency_sample observed_ms b =
     b\<lparr>ewma_latency_ms := Some (case ewma_latency_ms b of
          Some previous \<Rightarrow> ewma_alpha * observed_ms + (1 - ewma_alpha) * previous
        | None \<Rightarrow> observed_ms)\<rparr>"

definition record_failure_latency_penalty :: "nat \<Rightarrow> duration \<Rightarrow> backend_pool \<Rightarrow> backend_pool" where
  "record_failure_latency_penalty index latency p =
     (case vec_get (backends p) index of
        None \<Rightarrow> p
      | Some b \<Rightarrow>
          let penalty_ms = max (as_secs_f64 latency * 1000) failure_penalty_latency_ms in
          p\<lparr>backends := (backends p)[index :=
              b\<lparr>ewma_latency_ms := Some (case ewma_latency_ms b of
                    Some previous \<Rightarrow> max previous penalty_ms
                  | None \<Rightarrow> penalty_ms)\<rparr>]\<rparr>)"

definition observe_request_failure ::
  "bool \<Rightarrow> instant \<Rightarrow> nat \<Rightarrow> duration \<Rightarrow> health_failure_reason option \<Rightarrow> backend_pool
     \<Rightarrow> (health_transition option \<times> backend_pool) option" where
  "observe_request_failure dbg now index latency reason p =
     (let p' = record_failure_latency_penalty index latency p in
      case reason of
        None \<Rightarrow> Some (None, p')
      | Some r \<Rightarrow> mark_request_failure dbg now index r p')"

definition begin_request :: "nat \<Rightarrow> backend_pool \<Rightarrow> backend_pool" where
  "begin_request index p =
     (case vec_get (backends p) index of
        None \<Rightarrow> p
      | Some b \<Rightarrow>
          p\<lparr>backends := (backends p)[index := b\<lparr>active_requests := active_requests b + 1\<rparr>]\<rparr>)"

definition finish_request :: "nat \<Rightarrow> duration \<Rightarrow> u16 option \<Rightarrow> backend_pool \<Rightarrow> backend_pool" where
  "finish_request index latency status p =
     (case vec_get (backends p) index of
        None \<Rightarrow> p
      | Some b \<Rightarrow>
          let b1 = b\<lparr>active_requests := saturating_sub (active_requests b) 1\<rparr>;
              b2 = (if (case status of None \<Rightarrow> False | Some code \<Rightarrow> 500 \<le> code \<and> code \<le> 599)
                    then b1
                    else record_latency_sample
                           (max min_latency_sample_ms
                              (min max_latency_sample_ms (as_secs_f64 latency * 1000))) b1)
          in p\<lparr>backends := (backends p)[index := b2]\<rparr>)"

section \<open>Re-admission and probing\<close>

definition readmit_step ::
  "bool \<Rightarrow> instant \<Rightarrow> nat \<Rightarrow> instant option \<times> backend_pool \<Rightarrow> (instant option \<times> backend_pool) option"
where
  "readmit_step dbg now index acc =
     (let (next, p) = acc in do {
        b \<leftarrow> vec_get (backends p) index;
        if has_active_health_check b then Some (next, p)
        else
          let (readmitted, b') = readmit_if_expired now b;
              p1 = p\<lparr>backends := (backends p)[index := b']\<rparr>
          in if readmitted then do {
               p2 \<leftarrow> debug_assert dbg (mark_probing index) p1;
               Some (next, p2)
             }
             else (case cooldown_until b' of
                     None \<Rightarrow> Some (next, p1)
                   | Some u \<Rightarrow> Some (Some (case next of None \<Rightarrow> u | Some e \<Rightarrow> min e u), p1))
      })"

fun readmit_loop ::
  "bool \<Rightarrow> instant \<Rightarrow> nat list \<Rightarrow> instant option \<times> backend_pool \<Rightarrow> (instant option \<times> backend_pool) option"
where
  "readmit_loop dbg now [] acc = Some acc"
| "readmit_loop dbg now (i # is) acc = do {
     acc' \<leftarrow> readmit_step dbg now i acc;
     readmit_loop dbg now is acc'
   }"

definition reconcile_readmit_at :: "bool \<Rightarrow> instant \<Rightarrow> backend_pool \<Rightarrow> backend_pool option" where
  "reconcile_readmit_at dbg now p =
     (case earliest_readmit p of
        None \<Rightarrow> Some p
      | Some earliest \<Rightarrow>
          if now < earliest then Some p
          else do {
            (next, q) \<leftarrow> readmit_loop dbg now [0..<length (backends p)] (None, p);
            Some (q\<lparr>earliest_readmit := next\<rparr>)
          })"

definition readmit_due :: "backend_pool \<Rightarrow> bool" where
  "readmit_due p = (earliest_readmit p \<noteq> None)"

definition reconcile_readmit :: "bool \<Rightarrow> instant \<Rightarrow> backend_pool \<Rightarrow> backend_pool option" where
  "reconcile_readmit dbg now p =
     (if earliest_readmit p \<noteq> None then reconcile_readmit_at dbg now p else Some p)"

fun probe_scan :: "nat \<Rightarrow> nat list \<Rightarrow> backend_pool \<Rightarrow> (nat option \<times> backend_pool) option" where
  "probe_scan start [] p = Some (None, p)"
| "probe_scan start (offset # offsets) p =
     (let pos = (start + offset) mod length (probing p) in do {
        index \<leftarrow> vec_get (probing p) pos;
        b \<leftarrow> vec_get (backends p) index;
        let (acquired, b') =
          (if active_requests b = 0 then try_acquire_probe_permit b else (False, b));
        if acquired
        then Some (Some index, p\<lparr>backends := (backends p)[index := b'],
                                 next_probing_cursor := pos + 1\<rparr>)
        else probe_scan start offsets p
      })"

definition pick_probing_backend :: "bool \<Rightarrow> backend_pool \<Rightarrow> (nat option \<times> backend_pool) option" where
  "pick_probing_backend begin_req p =
     (if probing p = [] then Some (None, p)
      else do {
        (selected, p1) \<leftarrow> probe_scan (next_probing_cursor p mod length (probing p))
                            [0..<length (probing p)] p;
        Some (selected, case selected of
                          Some index \<Rightarrow> (if begin_req then begin_request index p1 else p1)
                        | None \<Rightarrow> p1)
      })"

definition is_healthy_index :: "nat \<Rightarrow> backend_pool \<Rightarrow> bool" where
  "is_healthy_index index p =
     (case vec_get (healthy_pos p) index of Some (Some _) \<Rightarrow> True | _ \<Rightarrow> False)"

section \<open>The two index sets meet the contract\<close>

definition healthy_index :: "backend_pool \<Rightarrow> bool" where
  "healthy_index p \<longleftrightarrow> idx_ok (length (backends p)) (healthy p) (healthy_pos p)"

definition probing_index :: "backend_pool \<Rightarrow> bool" where
  "probing_index p \<longleftrightarrow> idx_ok (length (backends p)) (probing p) (probing_pos p)"

abbreviation healthy_rest where
  "healthy_rest p \<equiv> (backends p, probing p, probing_pos p, membership_epoch p,
                      earliest_readmit p, next_probing_cursor p)"

abbreviation probing_rest where
  "probing_rest p \<equiv> (backends p, healthy p, healthy_pos p, membership_epoch p,
                      earliest_readmit p)"

lemma mark_healthy_absent:
  assumes "healthy_index p" and "i < length (backends p)" and "i \<notin> set (healthy p)"
  shows "mark_healthy i p = Some (True, p\<lparr>healthy := healthy p @ [i],
           healthy_pos := (healthy_pos p)[i := Some (length (healthy p))]\<rparr>)"
  using assms idx_ok_None [OF assms(1) [unfolded healthy_index_def] assms(2)]
    idx_okD(1) [OF assms(1) [unfolded healthy_index_def]]
  by (simp add: mark_healthy_def vec_simps)

lemma mark_probing_absent:
  assumes "probing_index p" and "i < length (backends p)" and "i \<notin> set (probing p)"
  shows "mark_probing i p = Some (True, p\<lparr>probing := probing p @ [i],
           probing_pos := (probing_pos p)[i := Some (length (probing p))]\<rparr>)"
  using assms idx_ok_None [OF assms(1) [unfolded probing_index_def] assms(2)]
    idx_okD(1) [OF assms(1) [unfolded probing_index_def]]
  by (simp add: mark_probing_def vec_simps)

lemma mark_unhealthy_present:
  assumes ok: "healthy_index p" and i: "i < length (backends p)" and k: "healthy_pos p ! i = Some k"
  shows "mark_unhealthy dbg i p = Some (True,
           p\<lparr>healthy := butlast ((healthy p)[k := last (healthy p)]),
             healthy_pos := swap_pos (healthy_pos p) (butlast ((healthy p)[k := last (healthy p)])) k i\<rparr>)"
proof -
  let ?ys = "butlast ((healthy p)[k := last (healthy p)])"
  note D = idx_okD [OF ok [unfolded healthy_index_def]]
  have kx: "k < length (healthy p)" "healthy p ! k = i" using D(3) [OF i] k by auto
  have "?ys ! k < length (healthy_pos p)" if "k < length ?ys"
    by (rule idx_ok_swapped [OF ok [unfolded healthy_index_def] kx(1) that])
  then show ?thesis
    using i k kx D(1) by (simp add: mark_unhealthy_def vec_simps swap_pos_def)
qed

lemma mark_not_probing_present:
  assumes ok: "probing_index p" and i: "i < length (backends p)" and k: "probing_pos p ! i = Some k"
  shows "mark_not_probing dbg i p = Some (True,
           p\<lparr>probing := butlast ((probing p)[k := last (probing p)]),
             probing_pos := swap_pos (probing_pos p) (butlast ((probing p)[k := last (probing p)])) k i,
             next_probing_cursor :=
               (if butlast ((probing p)[k := last (probing p)]) = [] then 0
                else next_probing_cursor p mod
                       length (butlast ((probing p)[k := last (probing p)])))\<rparr>)"
proof -
  let ?ys = "butlast ((probing p)[k := last (probing p)])"
  note D = idx_okD [OF ok [unfolded probing_index_def]]
  have kx: "k < length (probing p)" "probing p ! k = i" using D(3) [OF i] k by auto
  have "?ys ! k < length (probing_pos p)" if "k < length ?ys"
    by (rule idx_ok_swapped [OF ok [unfolded probing_index_def] kx(1) that])
  then show ?thesis
    using i k kx D(1) by (simp add: mark_not_probing_def vec_simps swap_pos_def)
qed

interpretation hs: membership_index "\<lambda>p. length (backends p)" healthy healthy_index
  "\<lambda>p. healthy_rest p" mark_healthy "mark_unhealthy True"
proof (unfold_locales, goal_cases)
  case (1 p i)
  then have "healthy_pos p ! i = None"
    using idx_ok_None [of _ "healthy p" "healthy_pos p" i] by (simp add: healthy_index_def)
  with 1 idx_ok_push [of _ "healthy p" "healthy_pos p" i] show ?case
    by (simp add: mark_healthy_absent healthy_index_def)
next
  case (2 p i)
  then obtain k where k: "healthy_pos p ! i = Some k"
    using idx_ok_None [of _ "healthy p" "healthy_pos p" i]
    by (cases "healthy_pos p ! i") (auto simp: healthy_index_def)
  then have "k < length (healthy p)" "healthy p ! k = i"
    using idx_okD(3) [of _ "healthy p" "healthy_pos p" i] 2 by (auto simp: healthy_index_def)
  with 2 k idx_ok_remove [of _ "healthy p" "healthy_pos p" i k]
    set_swap_removed [of "healthy p" k] idx_ok_distinct [of _ "healthy p" "healthy_pos p"]
  show ?case by (simp add: mark_unhealthy_present healthy_index_def)
next
  case (3 p i)
  then show ?case
    using idx_ok_None [of _ "healthy p" "healthy_pos p" i] idx_okD(1) [of _ "healthy p" "healthy_pos p"]
    by (auto simp: mark_healthy_def healthy_index_def vec_simps)
next
  case (4 p i)
  then show ?case
    using idx_ok_None [of _ "healthy p" "healthy_pos p" i] idx_okD(1) [of _ "healthy p" "healthy_pos p"]
    by (simp add: mark_unhealthy_def healthy_index_def vec_simps)
qed

interpretation ps: membership_index "\<lambda>p. length (backends p)" probing probing_index
  "\<lambda>p. probing_rest p" mark_probing "mark_not_probing True"
proof (unfold_locales, goal_cases)
  case (1 p i)
  then have "probing_pos p ! i = None"
    using idx_ok_None [of _ "probing p" "probing_pos p" i] by (simp add: probing_index_def)
  with 1 idx_ok_push [of _ "probing p" "probing_pos p" i] show ?case
    by (simp add: mark_probing_absent probing_index_def)
next
  case (2 p i)
  then obtain k where k: "probing_pos p ! i = Some k"
    using idx_ok_None [of _ "probing p" "probing_pos p" i]
    by (cases "probing_pos p ! i") (auto simp: probing_index_def)
  then have "k < length (probing p)" "probing p ! k = i"
    using idx_okD(3) [of _ "probing p" "probing_pos p" i] 2 by (auto simp: probing_index_def)
  with 2 k idx_ok_remove [of _ "probing p" "probing_pos p" i k]
    set_swap_removed [of "probing p" k] idx_ok_distinct [of _ "probing p" "probing_pos p"]
  show ?case by (simp add: mark_not_probing_present probing_index_def)
next
  case (3 p i)
  then show ?case
    using idx_ok_None [of _ "probing p" "probing_pos p" i] idx_okD(1) [of _ "probing p" "probing_pos p"]
    by (auto simp: mark_probing_def probing_index_def vec_simps)
next
  case (4 p i)
  then show ?case
    using idx_ok_None [of _ "probing p" "probing_pos p" i] idx_okD(1) [of _ "probing p" "probing_pos p"]
    by (simp add: mark_not_probing_def probing_index_def vec_simps)
qed

end
