(* ===== verification/Lb_Pool_Inv.thy ===== *)
theory Lb_Pool_Inv
  imports Lb_Pool
begin

text \<open>
  The pool invariant, kept by every operation in builds with \<open>debug_assertions\<close>: the two
  index sets hold exactly the healthy and the probing backends, and every passively ejected
  backend has a pending re-admission time that is not later than its cooldown.
\<close>

section \<open>The invariant\<close>

definition members_match :: "backend_pool \<Rightarrow> bool" where
  "members_match p \<longleftrightarrow> healthy_index p \<and> probing_index p \<and>
     (\<forall>i < length (backends p). i \<in> set (healthy p) \<longleftrightarrow> is_healthy (backends p ! i)) \<and>
     (\<forall>i < length (backends p). i \<in> set (probing p) \<longleftrightarrow> is_probing (backends p ! i))"

definition readmit_ok :: "instant \<Rightarrow> backend_pool \<Rightarrow> bool" where
  "readmit_ok clk p \<longleftrightarrow>
     (\<forall>i < length (backends p). \<forall>u. cooldown_until (backends p ! i) = Some u \<longrightarrow>
        u \<le> clk + cooldown_duration (backends p ! i) \<and>
        (\<not> has_active_health_check (backends p ! i) \<longrightarrow>
           (\<exists>e. earliest_readmit p = Some e \<and> e \<le> u)))"

definition pool_wf :: "instant \<Rightarrow> backend_pool \<Rightarrow> bool" where
  "pool_wf clk p \<longleftrightarrow> members_match p \<and> readmit_ok clk p"

lemma members_matchD:
  assumes "members_match p"
  shows "healthy_index p" and "probing_index p"
    and "\<And>i. i < length (backends p) \<Longrightarrow> i \<in> set (healthy p) \<longleftrightarrow> is_healthy (backends p ! i)"
    and "\<And>i. i < length (backends p) \<Longrightarrow> i \<in> set (probing p) \<longleftrightarrow> is_probing (backends p ! i)"
  using assms by (auto simp: members_match_def)

lemma healthy_member_range: "members_match p \<Longrightarrow> i \<in> set (healthy p) \<Longrightarrow> i < length (backends p)"
  by (auto simp: members_match_def healthy_index_def idx_ok_def)

lemma probing_member_range: "members_match p \<Longrightarrow> i \<in> set (probing p) \<Longrightarrow> i < length (backends p)"
  by (auto simp: members_match_def probing_index_def idx_ok_def)

lemma healthy_set: "members_match p \<Longrightarrow>
    set (healthy p) = {i. i < length (backends p) \<and> is_healthy (backends p ! i)}"
  using healthy_member_range members_matchD(3) by blast

lemma probing_set: "members_match p \<Longrightarrow>
    set (probing p) = {i. i < length (backends p) \<and> is_probing (backends p ! i)}"
  using probing_member_range members_matchD(4) by blast

lemma is_healthy_index_iff:
  assumes "members_match p"
  shows "is_healthy_index i p \<longleftrightarrow> i \<in> set (healthy p)"
proof (cases "i < length (backends p)")
  case True
  note ok = members_matchD(1) [OF assms, unfolded healthy_index_def]
  show ?thesis
    using idx_ok_None [OF ok True] idx_okD(1) [OF ok] True
    by (auto simp: is_healthy_index_def vec_get_def split: option.splits)
next
  case False
  have "length (healthy_pos p) = length (backends p)"
    using members_matchD(1) [OF assms] by (simp add: healthy_index_def idx_okD(1))
  then have "\<not> is_healthy_index i p" using False by (simp add: is_healthy_index_def vec_get_def)
  then show ?thesis using False healthy_member_range [OF assms, of i] by blast
qed

lemma readmit_okI:
  assumes "\<And>i u. i < length (backends p) \<Longrightarrow> cooldown_until (backends p ! i) = Some u \<Longrightarrow>
      u \<le> clk + cooldown_duration (backends p ! i) \<and>
      (\<not> has_active_health_check (backends p ! i) \<longrightarrow> (\<exists>e. earliest_readmit p = Some e \<and> e \<le> u))"
  shows "readmit_ok clk p"
  using assms by (auto simp: readmit_ok_def)

section \<open>The synchronisation blocks\<close>

lemma sync_healthy_ok:
  assumes "healthy_index p" and "i < length (backends p)" and "i \<in> set (healthy p) \<longleftrightarrow> was"
  shows "\<exists>p'. sync_healthy True i was flag p = Some p' \<and> healthy_index p' \<and>
     backends p' = backends p \<and> probing p' = probing p \<and> probing_pos p' = probing_pos p \<and>
     earliest_readmit p' = earliest_readmit p \<and>
     set (healthy p') = (if flag then insert i (set (healthy p)) else set (healthy p) - {i}) \<and>
     membership_epoch p' = (if was = flag then membership_epoch p else membership_epoch p + 1) \<and>
     (was = flag \<longrightarrow> p' = p)"
  using hs.sync_members [OF assms, of flag]
  by (auto simp: sync_healthy_def healthy_index_def split: if_splits)

lemma sync_probing_ok:
  assumes "probing_index p" and "i < length (backends p)" and "i \<in> set (probing p) \<longleftrightarrow> was"
  shows "\<exists>p'. sync_probing True i was flag p = Some p' \<and> probing_index p' \<and>
     backends p' = backends p \<and> healthy p' = healthy p \<and> healthy_pos p' = healthy_pos p \<and>
     earliest_readmit p' = earliest_readmit p \<and> membership_epoch p' = membership_epoch p \<and>
     set (probing p') = (if flag then insert i (set (probing p)) else set (probing p) - {i}) \<and>
     (was = flag \<longrightarrow> p' = p)"
  using ps.sync_members [OF assms, of flag] unfolding sync_probing_def by force

lemma note_readmit_frame [simp]:
  "backends (note_readmit b p) = backends p" "healthy (note_readmit b p) = healthy p"
  "healthy_pos (note_readmit b p) = healthy_pos p" "probing (note_readmit b p) = probing p"
  "probing_pos (note_readmit b p) = probing_pos p"
  "membership_epoch (note_readmit b p) = membership_epoch p"
  by (auto simp: note_readmit_def split: option.splits)

lemma index_note_readmit [simp]:
  "healthy_index (note_readmit b p) = healthy_index p"
  "probing_index (note_readmit b p) = probing_index p"
  by (simp_all add: healthy_index_def probing_index_def)

lemma note_readmit_le:
  "earliest_readmit p = Some e \<Longrightarrow> \<exists>e'. earliest_readmit (note_readmit b p) = Some e' \<and> e' \<le> e"
  by (auto simp: note_readmit_def split: option.splits)

lemma note_readmit_covers:
  "\<not> has_active_health_check b \<Longrightarrow> cooldown_until b = Some u \<Longrightarrow>
     \<exists>e. earliest_readmit (note_readmit b p) = Some e \<and> e \<le> u"
  by (auto simp: note_readmit_def split: option.splits)

text \<open>Replacing one backend and synchronising both index sets (with any bookkeeping of the
  re-admission time in between) re-establishes the membership part of the invariant.\<close>

lemma sync_both:
  fixes b' :: backend_state
  assumes mm: "members_match p" and i: "i < length (backends p)"
    and f: "\<And>q. backends (f q) = backends q \<and> healthy (f q) = healthy q \<and>
              healthy_pos (f q) = healthy_pos q \<and> probing (f q) = probing q \<and>
              probing_pos (f q) = probing_pos q \<and> membership_epoch (f q) = membership_epoch q"
  defines "p1 \<equiv> p\<lparr>backends := (backends p)[i := b']\<rparr>"
  shows "\<exists>p2 p3. sync_healthy True i (is_healthy (backends p ! i)) (is_healthy b') p1 = Some p2 \<and>
     sync_probing True i (is_probing (backends p ! i)) (is_probing b') (f p2) = Some p3 \<and>
     members_match p3 \<and> backends p3 = (backends p)[i := b'] \<and>
     earliest_readmit p2 = earliest_readmit p \<and> earliest_readmit p3 = earliest_readmit (f p2) \<and>
     membership_epoch p3 = (if is_healthy (backends p ! i) = is_healthy b' then membership_epoch p
                            else membership_epoch p + 1) \<and>
     (is_healthy (backends p ! i) = is_healthy b' \<longrightarrow> healthy p3 = healthy p)"
proof -
  note D = members_matchD [OF mm]
  have hi: "healthy_index p1" and pi: "probing_index p1"
    using D(1,2) by (simp_all add: p1_def healthy_index_def probing_index_def)
  have i1: "i < length (backends p1)" using i by (simp add: p1_def)
  have hm: "i \<in> set (healthy p1) \<longleftrightarrow> is_healthy (backends p ! i)" using D(3) [OF i] by (simp add: p1_def)
  obtain p2 where p2: "sync_healthy True i (is_healthy (backends p ! i)) (is_healthy b') p1 = Some p2"
    "healthy_index p2" "backends p2 = backends p1" "probing p2 = probing p1"
    "probing_pos p2 = probing_pos p1" "earliest_readmit p2 = earliest_readmit p1"
    "set (healthy p2) = (if is_healthy b' then insert i (set (healthy p1)) else set (healthy p1) - {i})"
    "membership_epoch p2 = (if is_healthy (backends p ! i) = is_healthy b' then membership_epoch p1
                            else membership_epoch p1 + 1)"
    "is_healthy (backends p ! i) = is_healthy b' \<longrightarrow> p2 = p1"
    using sync_healthy_ok [OF hi i1 hm, of "is_healthy b'"] by blast
  have "probing_index (f p2)" using pi p2 f by (simp add: probing_index_def)
  moreover have "i < length (backends (f p2))" using i1 p2 f by simp
  moreover have "i \<in> set (probing (f p2)) \<longleftrightarrow> is_probing (backends p ! i)"
    using D(4) [OF i] p2 f by (simp add: p1_def)
  ultimately obtain p3 where p3:
    "sync_probing True i (is_probing (backends p ! i)) (is_probing b') (f p2) = Some p3"
    "probing_index p3" "backends p3 = backends (f p2)" "healthy p3 = healthy (f p2)"
    "healthy_pos p3 = healthy_pos (f p2)" "earliest_readmit p3 = earliest_readmit (f p2)"
    "membership_epoch p3 = membership_epoch (f p2)"
    "set (probing p3) = (if is_probing b' then insert i (set (probing (f p2)))
                         else set (probing (f p2)) - {i})"
    using sync_probing_ok [of "f p2" i "is_probing (backends p ! i)" "is_probing b'"] by blast
  have "healthy_index p3" using p2 p3 f by (simp add: healthy_index_def)
  moreover have "\<forall>j < length (backends p3). j \<in> set (healthy p3) \<longleftrightarrow> is_healthy (backends p3 ! j)"
    using p2(3,7) p3(3,4) f D(3) i by (auto simp: p1_def nth_list_update)
  moreover have "\<forall>j < length (backends p3). j \<in> set (probing p3) \<longleftrightarrow> is_probing (backends p3 ! j)"
    using p2(3,4) p3(3,8) f D(4) i by (auto simp: p1_def nth_list_update)
  ultimately have "members_match p3" using p3(2) by (simp add: members_match_def)
  then show ?thesis using p2 p3 f by (auto simp: p1_def)
qed

lemma pool_frame_id:
  "backends q = backends q \<and> healthy q = healthy q \<and> healthy_pos q = healthy_pos q \<and>
   probing q = probing q \<and> probing_pos q = probing_pos q \<and> membership_epoch q = membership_epoch q"
  by simp

section \<open>How one operation changes the pool\<close>

definition pool_evolves :: "backend_pool \<Rightarrow> backend_pool \<Rightarrow> bool" where
  "pool_evolves p p' \<longleftrightarrow>
     length (backends p') = length (backends p) \<and>
     (\<forall>i < length (backends p). same_identity (backends p ! i) (backends p' ! i)) \<and>
     (membership_epoch p' = membership_epoch p \<and> healthy p' = healthy p \<or>
      membership_epoch p' = membership_epoch p + 1)"

lemma pool_evolves_refl [simp]: "pool_evolves p p"
  by (simp add: pool_evolves_def)

lemma pool_evolves_update:
  assumes "i < length (backends p)" and "same_identity (backends p ! i) b'"
    and "backends p' = (backends p)[i := b']"
    and "membership_epoch p' = membership_epoch p \<and> healthy p' = healthy p \<or>
         membership_epoch p' = membership_epoch p + 1"
  shows "pool_evolves p p'"
  using assms by (auto simp: pool_evolves_def nth_list_update)

lemma pool_wf_later: "pool_wf clk p \<Longrightarrow> clk \<le> now \<Longrightarrow> pool_wf now p"
  unfolding pool_wf_def readmit_ok_def by (meson add_right_mono order_trans)

text \<open>Updating one backend keeps the re-admission bookkeeping when the other backends stay
  covered and the new state is covered as well.\<close>

lemma readmit_ok_update:
  assumes ok: "readmit_ok clk p" and clk: "clk \<le> now" and i: "i < length (backends p)"
    and b': "backends p' = (backends p)[i := b']"
    and le: "\<And>e. earliest_readmit p = Some e \<Longrightarrow> \<exists>e'. earliest_readmit p' = Some e' \<and> e' \<le> e"
    and new: "\<And>u. cooldown_until b' = Some u \<Longrightarrow>
       u \<le> now + cooldown_duration b' \<and>
       (\<not> has_active_health_check b' \<longrightarrow> (\<exists>e. earliest_readmit p' = Some e \<and> e \<le> u))"
  shows "readmit_ok now p'"
proof (rule readmit_okI)
  fix j u assume j: "j < length (backends p')" and u: "cooldown_until (backends p' ! j) = Some u"
  show "u \<le> now + cooldown_duration (backends p' ! j) \<and>
      (\<not> has_active_health_check (backends p' ! j) \<longrightarrow> (\<exists>e. earliest_readmit p' = Some e \<and> e \<le> u))"
  proof (cases "j = i")
    case True
    then show ?thesis using new u i b' by simp
  next
    case False
    then have nth: "backends p' ! j = backends p ! j" using b' by simp
    with ok u j b' have
      "u \<le> clk + cooldown_duration (backends p ! j)"
      "\<not> has_active_health_check (backends p ! j) \<longrightarrow> (\<exists>e. earliest_readmit p = Some e \<and> e \<le> u)"
      unfolding readmit_ok_def by auto
    then show ?thesis using clk le nth by (metis add_mono_thms_linordered_semiring(3) order_trans)
  qed
qed

lemma mark_success_wf:
  assumes wf: "pool_wf clk p" and clk: "clk \<le> now"
  shows "\<exists>t p'. mark_success True now i p = Some (t, p') \<and> pool_wf now p' \<and> pool_evolves p p' \<and>
     (i < length (backends p) \<longrightarrow>
        t = fst (record_success now (backends p ! i)) \<and>
        backends p' = (backends p)[i := snd (record_success now (backends p ! i))])"
proof (cases "i < length (backends p)")
  case False
  then show ?thesis using pool_wf_later [OF wf clk] by (simp add: mark_success_def)
next
  case i: True
  obtain t b' where rs: "record_success now (backends p ! i) = (t, b')" by force
  have mm: "members_match p" and ro: "readmit_ok clk p" using wf by (simp_all add: pool_wf_def)
  obtain p2 p3 where step:
    "sync_healthy True i (is_healthy (backends p ! i)) (is_healthy b')
       (p\<lparr>backends := (backends p)[i := b']\<rparr>) = Some p2"
    "sync_probing True i (is_probing (backends p ! i)) (is_probing b') p2 = Some p3"
    "members_match p3" "backends p3 = (backends p)[i := b']"
    "earliest_readmit p3 = earliest_readmit p"
    "membership_epoch p3 = (if is_healthy (backends p ! i) = is_healthy b' then membership_epoch p
                            else membership_epoch p + 1)"
    "is_healthy (backends p ! i) = is_healthy b' \<longrightarrow> healthy p3 = healthy p"
    using sync_both [OF mm i pool_frame_id, of b'] by force
  have eq: "mark_success True now i p = Some (t, p3)"
    using i rs step(1,2) by (simp add: mark_success_def)
  have id: "same_identity (backends p ! i) b'" using record_success_frame [OF rs] by simp
  have "readmit_ok now p3"
  proof (rule readmit_ok_update [OF ro clk i step(4)])
    fix u assume "cooldown_until b' = Some u"
    then have u: "cooldown_until (backends p ! i) = Some u" by (rule record_success_until [OF rs])
    with ro i have "u \<le> clk + cooldown_duration (backends p ! i)"
      and "\<not> has_active_health_check (backends p ! i) \<longrightarrow> (\<exists>e. earliest_readmit p = Some e \<and> e \<le> u)"
      by (auto simp: readmit_ok_def)
    with clk show "u \<le> now + cooldown_duration b' \<and>
        (\<not> has_active_health_check b' \<longrightarrow> (\<exists>e. earliest_readmit p3 = Some e \<and> e \<le> u))"
      by (simp add: identity_queries [OF id] step(5))
  qed (simp add: step(5))
  moreover have "pool_evolves p p3"
    by (rule pool_evolves_update [OF i id step(4)]) (use step(6,7) in auto)
  ultimately show ?thesis using eq step(3,4) rs by (auto simp: pool_wf_def)
qed

lemma record_failure_new_cooldown:
  assumes "record_failure now r b = (t, b')" and "cooldown_until b' = Some u"
    and "is_healthy b = is_healthy b'" and "is_probing b = is_probing b'"
  shows "\<exists>u0. cooldown_until b = Some u0 \<and> (u = u0 \<or> u = now + cooldown_duration b)"
  using assms by (auto simp: backend_defs split: health_state.splits if_splits)

lemma mark_failure_with_reason_wf:
  assumes wf: "pool_wf clk p" and clk: "clk \<le> now"
  shows "\<exists>t p'. mark_failure_with_reason True now i r p = Some (t, p') \<and> pool_wf now p' \<and>
     pool_evolves p p' \<and>
     (i < length (backends p) \<longrightarrow>
        t = fst (record_failure now r (backends p ! i)) \<and>
        backends p' = (backends p)[i := snd (record_failure now r (backends p ! i))])"
proof (cases "i < length (backends p)")
  case False
  then show ?thesis using pool_wf_later [OF wf clk] by (simp add: mark_failure_with_reason_def)
next
  case i: True
  define b where "b = backends p ! i"
  obtain t b' where rf: "record_failure now r b = (t, b')" by force
  have mm: "members_match p" and ro: "readmit_ok clk p" using wf by (simp_all add: pool_wf_def)
  define f where "f q = (if is_healthy b \<noteq> is_healthy b' \<and> \<not> is_healthy b' then note_readmit b' q else q)" for q
  define g where "g q = (if is_probing b \<noteq> is_probing b' then note_readmit b' q else q)" for q
  have fr: "backends (f q) = backends q \<and> healthy (f q) = healthy q \<and>
      healthy_pos (f q) = healthy_pos q \<and> probing (f q) = probing q \<and>
      probing_pos (f q) = probing_pos q \<and> membership_epoch (f q) = membership_epoch q" for q
    by (simp add: f_def)
  obtain p2 p3 where step:
    "sync_healthy True i (is_healthy b) (is_healthy b') (p\<lparr>backends := (backends p)[i := b']\<rparr>) = Some p2"
    "sync_probing True i (is_probing b) (is_probing b') (f p2) = Some p3"
    "members_match p3" "backends p3 = (backends p)[i := b']"
    "earliest_readmit p2 = earliest_readmit p" "earliest_readmit p3 = earliest_readmit (f p2)"
    "membership_epoch p3 = (if is_healthy b = is_healthy b' then membership_epoch p
                            else membership_epoch p + 1)"
    "is_healthy b = is_healthy b' \<longrightarrow> healthy p3 = healthy p"
    using sync_both [OF mm i fr, of b'] unfolding b_def [symmetric] by blast
  have eq: "mark_failure_with_reason True now i r p = Some (t, g p3)"
    using i rf step(1,2) unfolding f_def g_def
    by (simp add: mark_failure_with_reason_def b_def [symmetric] Let_def)
  have id: "same_identity b b'" using record_failure_frame [OF rf] by simp
  have fle: "\<exists>e'. earliest_readmit (f q) = Some e' \<and> e' \<le> e"
    and gle: "\<exists>e'. earliest_readmit (g q) = Some e' \<and> e' \<le> e" if "earliest_readmit q = Some e" for q e
    using note_readmit_le [OF that, of b'] that by (auto simp: f_def g_def)
  have le: "\<exists>e'. earliest_readmit (g p3) = Some e' \<and> e' \<le> e" if "earliest_readmit p = Some e" for e
    using fle [of p2 e] gle [of p3] that step(5,6) by (metis order_trans)
  have gb: "backends (g p3) = (backends p)[i := b']" using step(4) by (simp add: g_def)
  have "readmit_ok now (g p3)"
  proof (rule readmit_ok_update [OF ro clk i gb le])
    fix u assume u: "cooldown_until b' = Some u"
    show "u \<le> now + cooldown_duration b' \<and>
        (\<not> has_active_health_check b' \<longrightarrow> (\<exists>e. earliest_readmit (g p3) = Some e \<and> e \<le> u))"
    proof (cases "is_healthy b = is_healthy b' \<and> is_probing b = is_probing b'")
      case True
      then obtain u0 where u0: "cooldown_until b = Some u0" "u = u0 \<or> u = now + cooldown_duration b"
        using record_failure_new_cooldown [OF rf u] by blast
      with ro i have "u0 \<le> clk + cooldown_duration b"
        and e: "\<not> has_active_health_check b \<longrightarrow> (\<exists>e. earliest_readmit p = Some e \<and> e \<le> u0)"
        by (auto simp: readmit_ok_def b_def)
      with u0 clk have "u0 \<le> u" "u \<le> now + cooldown_duration b" by auto
      then show ?thesis using e le by (metis identity_queries(1,2) [OF id] order_trans)
    next
      case False
      have unh: "\<not> is_healthy b'" using u by (simp add: backend_defs split: health_state.splits)
      have "u \<le> now + cooldown_duration b"
        using record_failure_until [OF rf u] False u ro i clk
        by (auto simp: readmit_ok_def b_def [symmetric] backend_defs split: health_state.splits)
      moreover have "\<exists>e. earliest_readmit (g p3) = Some e \<and> e \<le> u" if na: "\<not> has_active_health_check b'"
      proof (cases "is_probing b = is_probing b'")
        case False
        then show ?thesis using note_readmit_covers [OF na u] by (simp add: g_def)
      next
        case True
        with False unh have "f p2 = note_readmit b' p2" by (auto simp: f_def)
        with note_readmit_covers [OF na u, of p2] gle [of p3] step(6) show ?thesis
          by (metis order_trans)
      qed
      ultimately show ?thesis by (simp add: identity_queries [OF id])
    qed
  qed
  moreover have "members_match (g p3)"
    using step(3) by (simp add: g_def members_match_def)
  moreover have "pool_evolves p (g p3)"
    by (rule pool_evolves_update [OF i id [unfolded b_def] gb]) (use step(7,8) in \<open>auto simp: g_def\<close>)
  ultimately show ?thesis using eq gb rf by (auto simp: pool_wf_def b_def)
qed

section \<open>Operations that keep every backend's health class\<close>

lemma touch_wf:
  assumes wf: "pool_wf clk p" and i: "i < length (backends p)"
    and id: "same_identity (backends p ! i) b'"
    and cls: "is_healthy b' = is_healthy (backends p ! i)" "is_probing b' = is_probing (backends p ! i)"
      "cooldown_until b' = cooldown_until (backends p ! i)"
    and b': "backends p' = (backends p)[i := b']"
    and fr: "healthy p' = healthy p" "healthy_pos p' = healthy_pos p" "probing p' = probing p"
      "probing_pos p' = probing_pos p" "membership_epoch p' = membership_epoch p"
      "earliest_readmit p' = earliest_readmit p"
  shows "pool_wf clk p' \<and> pool_evolves p p'"
proof
  have mm: "members_match p" and ro: "readmit_ok clk p" using wf by (simp_all add: pool_wf_def)
  have "members_match p'"
    using members_matchD [OF mm] cls(1,2) i
    by (auto simp: members_match_def healthy_index_def probing_index_def b' fr nth_list_update)
  moreover have "readmit_ok clk p'"
    by (rule readmit_ok_update [OF ro order_refl i b'])
      (use ro i cls(3) in \<open>auto simp: fr identity_queries [OF id] readmit_ok_def\<close>)
  ultimately show "pool_wf clk p'" by (simp add: pool_wf_def)
  show "pool_evolves p p'" by (rule pool_evolves_update [OF i id b']) (simp add: fr)
qed

lemma class_active [simp]:
  "is_healthy (b\<lparr>active_requests := a\<rparr>) = is_healthy b"
  "is_probing (b\<lparr>active_requests := a\<rparr>) = is_probing b"
  "cooldown_until (b\<lparr>active_requests := a\<rparr>) = cooldown_until b"
  "same_identity b (b\<lparr>active_requests := a\<rparr>)"
  by (simp_all add: backend_defs same_identity_def)

lemma class_ewma [simp]:
  "is_healthy (b\<lparr>ewma_latency_ms := l\<rparr>) = is_healthy b"
  "is_probing (b\<lparr>ewma_latency_ms := l\<rparr>) = is_probing b"
  "cooldown_until (b\<lparr>ewma_latency_ms := l\<rparr>) = cooldown_until b"
  "same_identity b (b\<lparr>ewma_latency_ms := l\<rparr>)"
  by (simp_all add: backend_defs same_identity_def)

lemma begin_request_wf:
  assumes "pool_wf clk p"
  shows "pool_wf clk (begin_request i p) \<and> pool_evolves p (begin_request i p)"
proof (cases "i < length (backends p)")
  case True
  show ?thesis
    by (rule touch_wf [OF assms True, where b' = "(backends p ! i)\<lparr>active_requests :=
          active_requests (backends p ! i) + 1\<rparr>"]) (simp_all add: begin_request_def vec_get_def True)
qed (simp add: begin_request_def vec_get_def assms)

lemma record_failure_latency_penalty_wf:
  assumes "pool_wf clk p"
  shows "pool_wf clk (record_failure_latency_penalty i l p) \<and>
         pool_evolves p (record_failure_latency_penalty i l p)"
proof (cases "i < length (backends p)")
  case True
  show ?thesis
    by (rule touch_wf [OF assms True, where b' = "backends (record_failure_latency_penalty i l p) ! i"])
      (simp_all add: record_failure_latency_penalty_def vec_get_def True Let_def)
qed (simp add: record_failure_latency_penalty_def vec_get_def assms)

lemma class_sample [simp]:
  "is_healthy (record_latency_sample o1 b) = is_healthy b"
  "is_probing (record_latency_sample o1 b) = is_probing b"
  "cooldown_until (record_latency_sample o1 b) = cooldown_until b"
  "same_identity b (record_latency_sample o1 b)"
  "same_identity b (record_latency_sample o1 (b\<lparr>active_requests := a\<rparr>))"
  by (simp_all add: record_latency_sample_def backend_defs same_identity_def)

lemma finish_request_wf:
  assumes "pool_wf clk p"
  shows "pool_wf clk (finish_request i lat st p) \<and> pool_evolves p (finish_request i lat st p)"
proof (cases "i < length (backends p)")
  case True
  show ?thesis
    by (rule touch_wf [OF assms True, where b' = "backends (finish_request i lat st p) ! i"])
      (simp_all add: finish_request_def vec_get_def True Let_def)
qed (simp add: finish_request_def vec_get_def assms)

section \<open>Re-admission\<close>

text \<open>What one loop iteration leaves of the backend it visits.\<close>

definition readmitted :: "instant \<Rightarrow> instant option \<Rightarrow> backend_state \<Rightarrow> backend_state \<Rightarrow> bool" where
  "readmitted now nxt b b' \<longleftrightarrow>
     same_identity b b' \<and> is_healthy b' = is_healthy b \<and>
     (\<forall>u. cooldown_until b' = Some u \<longrightarrow> cooldown_until b = Some u \<and>
        (\<not> has_active_health_check b \<longrightarrow> now < u \<and> (\<exists>e. nxt = Some e \<and> e \<le> u))) \<and>
     (\<forall>u. \<not> has_active_health_check b \<and> cooldown_until b = Some u \<and> u \<le> now \<longrightarrow>
        health_state b' = Probing 0 (probe_budget b)) \<and>
     (has_active_health_check b \<or> is_probing b \<or> is_healthy b \<longrightarrow> b' = b)"

definition sooner :: "instant option \<Rightarrow> instant option \<Rightarrow> bool" where
  "sooner nxt nxt' \<longleftrightarrow> (\<forall>e. nxt = Some e \<longrightarrow> (\<exists>e'. nxt' = Some e' \<and> e' \<le> e))"

lemma sooner_trans: "sooner a b \<Longrightarrow> sooner b c \<Longrightarrow> sooner a c"
  by (fastforce simp: sooner_def)

lemma readmitted_sooner: "readmitted now nxt b b' \<Longrightarrow> sooner nxt nxt' \<Longrightarrow> readmitted now nxt' b b'"
  unfolding readmitted_def sooner_def by (meson order_trans)

lemma readmit_step_ok:
  assumes mm: "members_match q" and i: "i < length (backends q)"
  shows "\<exists>nxt' q' b'. readmit_step True now i (nxt, q) = Some (nxt', q') \<and> members_match q' \<and>
     healthy q' = healthy q \<and> membership_epoch q' = membership_epoch q \<and>
     earliest_readmit q' = earliest_readmit q \<and> backends q' = (backends q)[i := b'] \<and>
     sooner nxt nxt' \<and> readmitted now nxt' (backends q ! i) b'"
proof -
  define b where "b = backends q ! i"
  obtain r b' where ra: "readmit_if_expired now b = (r, b')" by force
  note res = readmit_if_expired_result [OF ra]
  have fr: "same_identity b b'" using readmit_if_expired_frame [OF ra] by simp
  consider (active) "has_active_health_check b" | (hit) "\<not> has_active_health_check b" r
    | (miss) "\<not> has_active_health_check b" "\<not> r" by blast
  then show ?thesis
  proof cases
    case active
    then have "readmit_step True now i (nxt, q) = Some (nxt, q)"
      using i by (simp add: readmit_step_def vec_get_def b_def)
    moreover have "readmitted now nxt b b" using active by (simp add: readmitted_def)
    moreover have "backends q = (backends q)[i := b]" by (simp add: b_def)
    moreover have "sooner nxt nxt" by (simp add: sooner_def)
    ultimately show ?thesis using mm unfolding b_def [symmetric] by blast
  next
    case hit
    with res obtain u where u: "cooldown_until b = Some u" "u \<le> now" "is_probing b'"
      "health_state b' = Probing 0 (probe_budget b)" by blast
    have nh: "\<not> is_healthy b" "\<not> is_probing b" "\<not> is_healthy b'" "cooldown_until b' = None"
      using u by (auto simp: backend_defs split: health_state.splits)
    obtain p3 where p3: "sync_probing True i False True (q\<lparr>backends := (backends q)[i := b']\<rparr>) = Some p3"
      "members_match p3" "backends p3 = (backends q)[i := b']" "earliest_readmit p3 = earliest_readmit q"
      "membership_epoch p3 = membership_epoch q" "healthy p3 = healthy q"
      using sync_both [OF mm i pool_frame_id, of b'] nh u(3) unfolding b_def [symmetric]
      by (auto simp: sync_healthy_def)
    have "readmit_step True now i (nxt, q) = Some (nxt, p3)"
      using i hit ra p3(1) by (simp add: readmit_step_def vec_get_def b_def sync_probing_def)
    moreover have "readmitted now nxt b b'" using hit u nh fr by (auto simp: readmitted_def)
    ultimately show ?thesis using p3 unfolding b_def [symmetric] by (auto simp: sooner_def)
  next
    case miss
    with res have b': "b' = b" by simp
    define nxt' where "nxt' = (case cooldown_until b of None \<Rightarrow> nxt
        | Some u \<Rightarrow> Some (case nxt of None \<Rightarrow> u | Some e \<Rightarrow> min e u))"
    have "q\<lparr>backends := (backends q)[i := b]\<rparr> = q" by (simp add: b_def)
    then have "readmit_step True now i (nxt, q) = Some (nxt', q)"
      using i miss ra b'
      by (simp add: readmit_step_def vec_get_def b_def [symmetric] nxt'_def split: option.splits)
    moreover have "sooner nxt nxt'" by (auto simp: sooner_def nxt'_def split: option.splits)
    moreover have "readmitted now nxt' b b"
      using miss res b' by (auto simp: readmitted_def nxt'_def not_le split: option.splits)
    moreover have "backends q = (backends q)[i := b]" by (simp add: b_def)
    ultimately show ?thesis using mm unfolding b_def [symmetric] by blast
  qed
qed

lemma readmit_loop_ok:
  assumes "members_match q" and "distinct js" and "\<forall>j \<in> set js. j < length (backends q)"
  shows "\<exists>nxt' q'. readmit_loop True now js (nxt, q) = Some (nxt', q') \<and> members_match q' \<and>
     healthy q' = healthy q \<and> membership_epoch q' = membership_epoch q \<and>
     length (backends q') = length (backends q) \<and> sooner nxt nxt' \<and>
     (\<forall>j < length (backends q). if j \<in> set js
        then readmitted now nxt' (backends q ! j) (backends q' ! j)
        else backends q' ! j = backends q ! j)"
  using assms
proof (induction js arbitrary: nxt q)
  case Nil
  then show ?case by (auto simp: sooner_def)
next
  case (Cons i js)
  obtain nxt1 q1 b' where s: "readmit_step True now i (nxt, q) = Some (nxt1, q1)" "members_match q1"
    "healthy q1 = healthy q" "membership_epoch q1 = membership_epoch q"
    "backends q1 = (backends q)[i := b']" "sooner nxt nxt1" "readmitted now nxt1 (backends q ! i) b'"
    using readmit_step_ok [of q i now nxt] Cons.prems by auto
  obtain nxt' q' where l: "readmit_loop True now js (nxt1, q1) = Some (nxt', q')" "members_match q'"
    "healthy q' = healthy q1" "membership_epoch q' = membership_epoch q1"
    "length (backends q') = length (backends q1)" "sooner nxt1 nxt'"
    "\<forall>j < length (backends q1). if j \<in> set js
        then readmitted now nxt' (backends q1 ! j) (backends q' ! j)
        else backends q' ! j = backends q1 ! j"
    using Cons.IH [of q1 nxt1] Cons.prems s(2,5) by auto
  have "sooner nxt nxt'" by (rule sooner_trans [OF s(6) l(6)])
  moreover have "if j \<in> set (i # js) then readmitted now nxt' (backends q ! j) (backends q' ! j)
        else backends q' ! j = backends q ! j" if j: "j < length (backends q)" for j
  proof (cases "j = i")
    case True
    then have "backends q' ! j = b'" using l(7) s(5) j Cons.prems(2) by auto
    then show ?thesis using True readmitted_sooner [OF s(7) l(6)] by simp
  next
    case False
    then show ?thesis using l(7) s(5) j by auto
  qed
  ultimately show ?case using s l by auto
qed

lemma reconcile_readmit_at_wf:
  assumes wf: "pool_wf clk p" and clk: "clk \<le> now"
  shows "\<exists>p'. reconcile_readmit_at True now p = Some p' \<and> pool_wf now p' \<and> pool_evolves p p' \<and>
     healthy p' = healthy p \<and> membership_epoch p' = membership_epoch p \<and>
     (\<forall>i < length (backends p). \<forall>u. \<not> has_active_health_check (backends p ! i) \<longrightarrow>
        cooldown_until (backends p ! i) = Some u \<longrightarrow> u \<le> now \<longrightarrow>
        health_state (backends p' ! i) = Probing 0 (probe_budget (backends p ! i)))"
proof -
  have mm: "members_match p" and ro: "readmit_ok clk p" using wf by (simp_all add: pool_wf_def)
  consider (idle) "earliest_readmit p = None \<or> (\<exists>e. earliest_readmit p = Some e \<and> now < e)"
    | (due) e where "earliest_readmit p = Some e" "e \<le> now" by (metis not_le option.exhaust)
  then show ?thesis
  proof cases
    case idle
    then have eq: "reconcile_readmit_at True now p = Some p"
      by (auto simp: reconcile_readmit_at_def)
    have "\<not> u \<le> now" if "i < length (backends p)" "\<not> has_active_health_check (backends p ! i)"
      "cooldown_until (backends p ! i) = Some u" for i u
      using ro that idle unfolding readmit_ok_def by (metis not_le option.distinct(1) option.inject order_trans)
    then show ?thesis using eq pool_wf_later [OF wf clk] by auto
  next
    case due
    obtain nxt q where l: "readmit_loop True now [0..<length (backends p)] (None, p) = Some (nxt, q)"
      "members_match q" "healthy q = healthy p" "membership_epoch q = membership_epoch p"
      "length (backends q) = length (backends p)"
      "\<forall>j < length (backends p). readmitted now nxt (backends p ! j) (backends q ! j)"
      using readmit_loop_ok [OF mm, of "[0..<length (backends p)]" now None] by auto
    let ?q = "q\<lparr>earliest_readmit := nxt\<rparr>"
    have eq: "reconcile_readmit_at True now p = Some ?q"
      using due l(1) by (simp add: reconcile_readmit_at_def)
    have "members_match ?q"
      using l(2) by (simp add: members_match_def healthy_index_def probing_index_def)
    moreover have "readmit_ok now ?q"
    proof (rule readmit_okI)
      fix i u assume i: "i < length (backends ?q)" and u: "cooldown_until (backends ?q ! i) = Some u"
      have r: "readmitted now nxt (backends p ! i) (backends q ! i)" using l(5,6) i by simp
      then have id: "same_identity (backends p ! i) (backends q ! i)" by (simp add: readmitted_def)
      have up: "cooldown_until (backends p ! i) = Some u" using r u by (auto simp: readmitted_def)
      then have "u \<le> clk + cooldown_duration (backends p ! i)"
        using ro i l(5) by (simp add: readmit_ok_def)
      then show "u \<le> now + cooldown_duration (backends ?q ! i) \<and>
          (\<not> has_active_health_check (backends ?q ! i) \<longrightarrow>
             (\<exists>e. earliest_readmit ?q = Some e \<and> e \<le> u))"
        using r u clk identity_queries [OF id] by (auto simp: readmitted_def)
    qed
    moreover have "pool_evolves p ?q" using l(3-6) by (simp add: pool_evolves_def readmitted_def)
    moreover have "health_state (backends ?q ! i) = Probing 0 (probe_budget (backends p ! i))"
      if "i < length (backends p)" "\<not> has_active_health_check (backends p ! i)"
        "cooldown_until (backends p ! i) = Some u" "u \<le> now" for i u
      using l(6) that by (auto simp: readmitted_def)
    ultimately show ?thesis using eq l(3,4) by (simp add: pool_wf_def)
  qed
qed

lemma reconcile_readmit_wf:
  assumes "pool_wf clk p" and "clk \<le> now"
  shows "\<exists>p'. reconcile_readmit True now p = Some p' \<and> pool_wf now p' \<and> pool_evolves p p' \<and>
     healthy p' = healthy p \<and> membership_epoch p' = membership_epoch p"
proof (cases "earliest_readmit p = None")
  case True
  then show ?thesis using pool_wf_later [OF assms] by (simp add: reconcile_readmit_def)
next
  case False
  then show ?thesis using reconcile_readmit_at_wf [OF assms] by (auto simp: reconcile_readmit_def)
qed

end
