(* ===== verification/Lb_Picker.thy ===== *)
theory Lb_Picker
  imports Lb_Pool_Inv
begin

text \<open>
  The contract of a load-balancing strategy.  A strategy reads the pool and answers with a
  member of the healthy vector, or with nothing when the vector is empty; a strategy that
  caches something derived from the membership keys its cache by the membership epoch.  The
  locale \<open>backend_picker\<close> states this contract once, for any request type (a hash key, a random
  source) and any strategy state; every strategy of the program is an instance of it.
\<close>

section \<open>What a strategy may rely on\<close>

text \<open>Distinct, existing healthy backends of positive weight, and a pool small enough for the
  \<open>i64\<close> arithmetic of the weighted schedule.\<close>

definition pool_ready :: "backend_pool \<Rightarrow> bool" where
  "pool_ready p \<longleftrightarrow> distinct (healthy p) \<and> length (backends p) \<le> 2 ^ 15 \<and>
     (\<forall>i \<in> set (healthy p). i < length (backends p) \<and> 0 < weight (backends p ! i))"

definition pick_ok :: "backend_pool \<Rightarrow> nat option \<Rightarrow> bool" where
  "pick_ok p r \<longleftrightarrow> (case r of None \<Rightarrow> healthy p = [] | Some i \<Rightarrow> i \<in> set (healthy p))"

text \<open>The healthy backends that exist, with their weights, in the order of the healthy vector.\<close>

definition healthy_members :: "backend_pool \<Rightarrow> (nat \<times> u32) list" where
  "healthy_members p =
     List.map_filter (\<lambda>i. map_option (\<lambda>b. (i, weight b)) (vec_get (backends p) i)) (healthy p)"

lemma healthy_members_ready:
  assumes "pool_ready p"
  shows "healthy_members p = map (\<lambda>i. (i, weight (backends p ! i))) (healthy p)"
proof -
  have "List.map_filter (\<lambda>i. map_option (\<lambda>b. (i, weight b)) (vec_get (backends p) i)) xs =
        map (\<lambda>i. (i, weight (backends p ! i))) xs" if "set xs \<subseteq> set (healthy p)" for xs
    using that assms by (induction xs) (auto simp: pool_ready_def List.map_filter_simps vec_get_def)
  then show ?thesis by (simp add: healthy_members_def)
qed

lemma pool_ready_range: "pool_ready p \<Longrightarrow> i \<in> set (healthy p) \<Longrightarrow> i < length (backends p)"
  by (simp add: pool_ready_def)

lemma pool_ready_size:
  assumes "pool_ready p"
  shows "length (healthy p) \<le> 2 ^ 15"
proof -
  have "length (healthy p) = card (set (healthy p))"
    using assms by (simp add: pool_ready_def distinct_card)
  also have "\<dots> \<le> card {..<length (backends p)}"
    using assms by (intro card_mono) (auto simp: pool_ready_def)
  finally show ?thesis using assms by (simp add: pool_ready_def)
qed

lemma pool_wf_ready:
  assumes "pool_wf clk p" and "\<forall>b \<in> set (backends p). 0 < weight b" and "length (backends p) \<le> 2 ^ 15"
  shows "pool_ready p"
proof -
  have "members_match p" using assms(1) by (simp add: pool_wf_def)
  then show ?thesis
    using assms(2,3) healthy_member_range idx_ok_distinct members_matchD(1)
    by (fastforce simp: pool_ready_def healthy_index_def)
qed

section \<open>Caches keyed by the membership epoch\<close>

text \<open>
  A cache filled at epoch \<open>e\<close> is coherent with a pool at most \<open>n\<close> membership changes later: the
  epoch has advanced by some \<open>k \<le> n\<close>, and if it has not advanced the cached value is the one the
  pool would give now.  With fewer than 2^64 changes an equal epoch then means a current cache.
\<close>

definition cache_coherent :: "nat \<Rightarrow> backend_pool \<Rightarrow> u64 option \<Rightarrow> bool \<Rightarrow> bool" where
  "cache_coherent n p filled current \<longleftrightarrow>
     (\<forall>e. filled = Some e \<longrightarrow> (\<exists>k \<le> n. membership_epoch p = e + of_nat k \<and> (k = 0 \<longrightarrow> current)))"

lemma cache_coherent_None [simp]: "cache_coherent n p None c"
  by (simp add: cache_coherent_def)

lemma cache_coherent_now [simp]: "c \<Longrightarrow> cache_coherent n p (Some (membership_epoch p)) c"
  unfolding cache_coherent_def by force

lemma cache_coherent_hit:
  assumes "cache_coherent n p (Some (membership_epoch p)) c" and "n < 2 ^ 64"
  shows c
proof -
  obtain k where k: "k \<le> n" "(of_nat k :: u64) = 0" "k = 0 \<longrightarrow> c"
    using assms(1) by (auto simp: cache_coherent_def)
  have "k = 0" by (rule of_nat_word_0D [OF k(2)]) (use k(1) assms(2) in simp)
  with k show ?thesis by simp
qed

lemma cache_coherent_evolves:
  assumes "cache_coherent n p e c" and "pool_evolves p p'"
    and "healthy p' = healthy p \<Longrightarrow> membership_epoch p' = membership_epoch p \<Longrightarrow> c \<Longrightarrow> c'"
  shows "cache_coherent (Suc n) p' e c'"
  unfolding cache_coherent_def
proof (intro allI impI)
  fix e' assume "e = Some e'"
  then obtain k where k: "k \<le> n" "membership_epoch p = e' + of_nat k" "k = 0 \<longrightarrow> c"
    using assms(1) by (auto simp: cache_coherent_def)
  from assms(2) consider "membership_epoch p' = membership_epoch p" "healthy p' = healthy p"
    | "membership_epoch p' = membership_epoch p + 1" by (auto simp: pool_evolves_def)
  then show "\<exists>k \<le> Suc n. membership_epoch p' = e' + of_nat k \<and> (k = 0 \<longrightarrow> c')"
  proof cases
    case 1
    then show ?thesis using k assms(3) by (intro exI [of _ k]) auto
  next
    case 2
    then show ?thesis using k by (intro exI [of _ "Suc k"]) (auto simp: algebra_simps)
  qed
qed

text \<open>What the caches hold is a function of the healthy vector and the backend identities.\<close>

lemma vec_get_evolves:
  assumes "pool_evolves p p'"
  shows "map_option (\<lambda>b. (address b, weight b)) (vec_get (backends p') i) =
         map_option (\<lambda>b. (address b, weight b)) (vec_get (backends p) i)"
  using assms by (auto simp: pool_evolves_def vec_get_def same_identity_def)

lemma healthy_members_evolves:
  assumes "pool_evolves p p'" and "healthy p' = healthy p"
  shows "healthy_members p' = healthy_members p"
proof -
  have "map_option (\<lambda>b. (i, weight b)) (vec_get (backends p') i) =
        map_option (\<lambda>b. (i, weight b)) (vec_get (backends p) i)" for i
    using assms(1) by (auto simp: pool_evolves_def vec_get_def same_identity_def)
  then show ?thesis by (simp add: healthy_members_def assms(2))
qed

section \<open>The strategy contract\<close>

text \<open>A strategy in use: the pool evolves, and requests are picked from the current pool.\<close>

datatype 'req picker_event = Evolve backend_pool | Request 'req

fun picker_run :: "('req \<Rightarrow> 'st \<Rightarrow> backend_pool \<Rightarrow> (nat option \<times> 'st) option) \<Rightarrow>
    'req picker_event list \<Rightarrow> backend_pool \<Rightarrow> 'st \<Rightarrow> (backend_pool \<times> nat option) list option" where
  "picker_run pick [] p st = Some []"
| "picker_run pick (Evolve p' # evs) p st = picker_run pick evs p' st"
| "picker_run pick (Request r # evs) p st = do {
     (res, st') \<leftarrow> pick r st p;
     rest \<leftarrow> picker_run pick evs p st';
     Some ((p, res) # rest)
   }"

fun events_ok :: "('req \<Rightarrow> bool) \<Rightarrow> 'req picker_event list \<Rightarrow> backend_pool \<Rightarrow> bool" where
  "events_ok req_ok [] p = pool_ready p"
| "events_ok req_ok (Evolve p' # evs) p = (pool_ready p \<and> pool_evolves p p' \<and> events_ok req_ok evs p')"
| "events_ok req_ok (Request r # evs) p = (pool_ready p \<and> req_ok r \<and> events_ok req_ok evs p)"

locale backend_picker =
  fixes pick :: "'req \<Rightarrow> 'st \<Rightarrow> backend_pool \<Rightarrow> (nat option \<times> 'st) option"
    and req_ok :: "'req \<Rightarrow> bool"
    and coherent :: "nat \<Rightarrow> backend_pool \<Rightarrow> 'st \<Rightarrow> bool"
  assumes pick_member: "pool_ready p \<Longrightarrow> req_ok r \<Longrightarrow> coherent n p st \<Longrightarrow> n < 2 ^ 64 \<Longrightarrow>
      \<exists>res st'. pick r st p = Some (res, st') \<and> coherent n p st' \<and> pick_ok p res"
    and coherent_evolves: "coherent n p st \<Longrightarrow> pool_evolves p p' \<Longrightarrow> coherent (Suc n) p' st"
begin

lemma coherent_run:
  assumes "events_ok req_ok evs p" and "coherent n p st" and "n + length evs < 2 ^ 64"
  shows "\<exists>out. picker_run pick evs p st = Some out \<and> list_all (\<lambda>(q, res). pick_ok q res) out"
  using assms
proof (induction evs arbitrary: n p st)
  case (Cons ev evs)
  show ?case
  proof (cases ev)
    case (Evolve p')
    then show ?thesis
      using Cons.IH [of p' "Suc n" st] Cons.prems coherent_evolves [of n p st p'] by auto
  next
    case (Request r)
    then obtain res st' where s: "pick r st p = Some (res, st')" "coherent n p st'" "pick_ok p res"
      using pick_member [of p r n st] Cons.prems by auto
    obtain out where "picker_run pick evs p st' = Some out" "list_all (\<lambda>(q, res). pick_ok q res) out"
      using Cons.IH [of p n st'] Cons.prems s Request by auto
    then show ?thesis using Request s by auto
  qed
qed simp

end

end
