(* ===== verification/Lb_Round_Robin.thy ===== *)
theory Lb_Round_Robin
  imports Lb_Picker
begin

text \<open>
  Weighted round robin (\<open>algorithms/round_robin.rs\<close>): the schedule built by smooth weighted
  round robin from the weights divided by their greatest common divisor, cached per membership
  epoch, and two wrapping cursors.  \<open>i64\<close> arithmetic is checked, a result out of range being
  the overflow panic; the fairness lemmas show that it does not occur for up to 2^15 healthy
  backends.
\<close>

section \<open>The schedule\<close>

definition i64_checked :: "int \<Rightarrow> int option" where
  "i64_checked x = (if - (2 ^ 63) \<le> x \<and> x < 2 ^ 63 then Some x else None)"

function gcd_loop :: "u32 \<Rightarrow> u32 \<Rightarrow> u32" where
  "gcd_loop left right = (if right = 0 then left else gcd_loop right (left mod right))"
  by pat_completeness auto
termination
  by (relation "measure (\<lambda>(left, right). unat right)") (auto simp: unat_mod unat_gt_0)

declare gcd_loop.simps [simp del]

definition weight_gcd :: "u32 \<Rightarrow> u32 \<Rightarrow> u32" where
  "weight_gcd left right = (if left = 0 then max right 1 else max (gcd_loop left right) 1)"

definition normalized :: "(nat \<times> u32) list \<Rightarrow> (nat \<times> int) list" where
  "normalized members =
     (let g = fold (\<lambda>(_, w) acc. weight_gcd acc w) members 0
      in map (\<lambda>(i, w). (i, int (unat (w div max g 1)))) members)"

fun sum_i64 :: "int list \<Rightarrow> int \<Rightarrow> int option" where
  "sum_i64 [] acc = Some acc"
| "sum_i64 (x # xs) acc = do { acc' \<leftarrow> i64_checked (acc + x); sum_i64 xs acc' }"

text \<open>One pass over the members: add the weights, remember the first maximum.\<close>

fun wrr_scan :: "nat \<Rightarrow> int list \<Rightarrow> int list \<Rightarrow> nat \<Rightarrow> int \<Rightarrow> (nat \<times> int list) option" where
  "wrr_scan position [] current selected best = Some (selected, current)"
| "wrr_scan position (w # ws) [] selected best = None"
| "wrr_scan position (w # ws) (c # cs) selected best = do {
     c' \<leftarrow> i64_checked (c + w);
     (s, cs') \<leftarrow> (if best < c' then wrr_scan (Suc position) ws cs position c'
                  else wrr_scan (Suc position) ws cs selected best);
     Some (s, c' # cs')
   }"

fun wrr_rounds :: "nat \<Rightarrow> (nat \<times> int) list \<Rightarrow> int \<Rightarrow> int list \<Rightarrow> nat list option" where
  "wrr_rounds 0 nrm total_weight current = Some []"
| "wrr_rounds (Suc k) nrm total_weight current = do {
     (selected, current1) \<leftarrow> wrr_scan 0 (map snd nrm) current 0 (- (2 ^ 63));
     c \<leftarrow> vec_get current1 selected;
     c' \<leftarrow> i64_checked (c - total_weight);
     m \<leftarrow> vec_get nrm selected;
     rest \<leftarrow> wrr_rounds k nrm total_weight (current1[selected := c']);
     Some (fst m # rest)
   }"

definition build_weighted_sequence :: "backend_pool \<Rightarrow> nat list option" where
  "build_weighted_sequence p =
     (let members = healthy_members p in
      if members = [] then Some []
      else let nrm = normalized members in do {
        total_weight \<leftarrow> sum_i64 (map snd nrm) 0;
        wrr_rounds (nat total_weight) nrm total_weight (replicate (length nrm) 0)
      })"

section \<open>The picker\<close>

record weighted_schedule =
  ws_membership_epoch :: "u64 option"
  ws_sequence :: "nat list"

record round_robin =
  rr_next :: usize
  rr_next_read :: usize
  rr_schedule :: weighted_schedule

definition round_robin_new :: round_robin where
  "round_robin_new =
     \<lparr>rr_next = 0, rr_next_read = 0,
      rr_schedule = \<lparr>ws_membership_epoch = None, ws_sequence = []\<rparr>\<rparr>"

definition rr_pick_at ::
  "backend_pool \<Rightarrow> usize \<Rightarrow> weighted_schedule \<Rightarrow> (nat option \<times> weighted_schedule) option" where
  "rr_pick_at p sequence_pos schedule =
     (if healthy p = [] then Some (None, schedule)
      else if ws_membership_epoch schedule = Some (membership_epoch p) \<and> ws_sequence schedule \<noteq> []
      then Some (vec_get (ws_sequence schedule) (unat sequence_pos mod length (ws_sequence schedule)),
                 schedule)
      else do {
        schedule' \<leftarrow>
          (if ws_membership_epoch schedule \<noteq> Some (membership_epoch p) \<or> ws_sequence schedule = []
           then do {
             s \<leftarrow> build_weighted_sequence p;
             Some \<lparr>ws_membership_epoch = Some (membership_epoch p), ws_sequence = s\<rparr>
           }
           else Some schedule);
        if ws_sequence schedule' = [] then Some (None, schedule')
        else Some (vec_get (ws_sequence schedule')
                     (unat sequence_pos mod length (ws_sequence schedule')), schedule')
      })"

definition rr_pick :: "round_robin \<Rightarrow> backend_pool \<Rightarrow> (nat option \<times> round_robin) option" where
  "rr_pick rr p = do {
     (r, schedule') \<leftarrow> rr_pick_at p (rr_next rr) (rr_schedule rr);
     Some (r, rr\<lparr>rr_next := rr_next rr + 1, rr_schedule := schedule'\<rparr>)
   }"

definition rr_pick_readonly ::
  "round_robin \<Rightarrow> backend_pool \<Rightarrow> (nat option \<times> round_robin) option" where
  "rr_pick_readonly rr p = do {
     (r, schedule') \<leftarrow> rr_pick_at p (rr_next_read rr) (rr_schedule rr);
     Some (r, rr\<lparr>rr_next_read := rr_next_read rr + 1, rr_schedule := schedule'\<rparr>)
   }"

section \<open>The greatest common divisor\<close>

lemma unat_gcd_loop: "unat (gcd_loop l r) = gcd (unat l) (unat r)"
proof (induction l r rule: gcd_loop.induct)
  case (1 l r)
  show ?case
    using "1" gcd_red_nat [of "unat l" "unat r"]
    by (subst gcd_loop.simps) (auto simp: unat_mod gcd.commute)
qed

lemma unat_weight_gcd:
  assumes "0 < w"
  shows "unat (weight_gcd acc w) = gcd (unat acc) (unat w)"
proof -
  have w: "1 \<le> unat w" using assms by (simp add: word_less_nat_alt)
  then have "1 \<le> gcd (unat acc) (unat w)" by (metis One_nat_def Suc_leI gcd_pos_nat not_one_le_zero)
  with w show ?thesis by (simp add: weight_gcd_def unat_max unat_gcd_loop max_absorb1)
qed

lemma fold_weight_gcd:
  "\<forall>(i, w) \<in> set members. 0 < w \<Longrightarrow>
     unat (fold (\<lambda>(_, w) acc. weight_gcd acc w) members acc) = Gcd (insert (unat acc) (unat ` snd ` set members))"
proof (induction members arbitrary: acc)
  case (Cons m members)
  then show ?case
    by (cases m) (auto simp: unat_weight_gcd gcd.assoc gcd.left_commute)
qed simp

section \<open>Smooth weighted round robin\<close>

lemma sum_list_member_bound:
  fixes T :: int
  assumes "x \<in> set xs" and "\<forall>y \<in> set xs. - T \<le> y" and "0 \<le> T"
  shows "x \<le> sum_list xs + T * length xs"
  using assms
proof (induction xs)
  case (Cons a xs)
  have rest: "- (T * length xs) \<le> sum_list xs" if "\<forall>y \<in> set xs. - T \<le> y" for xs
    using that by (induction xs) (auto simp: algebra_simps)
  show ?case
  proof (cases "x = a")
    case True
    then show ?thesis using rest [of xs] Cons.prems by (simp add: algebra_simps)
  next
    case False
    then show ?thesis using Cons.IH Cons.prems by (auto simp: algebra_simps)
  qed
qed simp

lemma sum_i64_ok:
  "\<forall>x \<in> set xs. 0 \<le> x \<Longrightarrow> 0 \<le> acc \<Longrightarrow> acc + sum_list xs < 2 ^ 63 \<Longrightarrow> sum_i64 xs acc = Some (acc + sum_list xs)"
proof (induction xs arbitrary: acc)
  case (Cons x xs)
  have "0 \<le> sum_list xs" using Cons.prems(1) by (intro sum_list_nonneg) auto
  then have "i64_checked (acc + x) = Some (acc + x)"
    using Cons.prems by (auto simp: i64_checked_def)
  then show ?case using Cons.IH [of "acc + x"] Cons.prems by (simp add: algebra_simps)
qed simp

text \<open>The scan adds the weights and selects a position of maximal value.\<close>

lemma wrr_scan_spec:
  assumes "length cs = length ws" and "\<forall>x \<in> set (map2 (+) cs ws). - (2 ^ 63) \<le> x \<and> x < 2 ^ 63"
  shows "\<exists>sel. wrr_scan pos ws cs s best = Some (sel, map2 (+) cs ws) \<and>
     (sel = s \<and> (\<forall>x \<in> set (map2 (+) cs ws). x \<le> best) \<or>
      (\<exists>k < length cs. sel = pos + k \<and> best < cs ! k + ws ! k \<and>
         (\<forall>x \<in> set (map2 (+) cs ws). x \<le> cs ! k + ws ! k)))"
  using assms
proof (induction cs ws arbitrary: pos s best rule: list_induct2)
  case (Cons c cs w ws)
  have ok: "i64_checked (c + w) = Some (c + w)" using Cons.prems by (simp add: i64_checked_def)
  have rest: "\<forall>x \<in> set (map2 (+) cs ws). - (2 ^ 63) \<le> x \<and> x < 2 ^ 63" using Cons.prems by auto
  show ?case
  proof (cases "best < c + w")
    case True
    obtain sel where sel: "wrr_scan (Suc pos) ws cs pos (c + w) = Some (sel, map2 (+) cs ws)"
      "sel = pos \<and> (\<forall>x \<in> set (map2 (+) cs ws). x \<le> c + w) \<or>
       (\<exists>k < length cs. sel = Suc pos + k \<and> c + w < cs ! k + ws ! k \<and>
          (\<forall>x \<in> set (map2 (+) cs ws). x \<le> cs ! k + ws ! k))"
      using Cons.IH [OF rest, of "Suc pos" pos "c + w"] by blast
    show ?thesis
      using sel(2)
    proof
      assume "sel = pos \<and> (\<forall>x \<in> set (map2 (+) cs ws). x \<le> c + w)"
      then show ?thesis using True ok sel(1)
        by (intro exI [of _ sel] conjI disjI2 exI [of _ 0]) auto
    next
      assume "\<exists>k < length cs. sel = Suc pos + k \<and> c + w < cs ! k + ws ! k \<and>
          (\<forall>x \<in> set (map2 (+) cs ws). x \<le> cs ! k + ws ! k)"
      then obtain k where "k < length cs" "sel = Suc pos + k" "c + w < cs ! k + ws ! k"
          "\<forall>x \<in> set (map2 (+) cs ws). x \<le> cs ! k + ws ! k" by blast
      then show ?thesis using True ok sel(1)
        by (intro exI [of _ sel] conjI disjI2 exI [of _ "Suc k"]) auto
    qed
  next
    case False
    obtain sel where sel: "wrr_scan (Suc pos) ws cs s best = Some (sel, map2 (+) cs ws)"
      "sel = s \<and> (\<forall>x \<in> set (map2 (+) cs ws). x \<le> best) \<or>
       (\<exists>k < length cs. sel = Suc pos + k \<and> best < cs ! k + ws ! k \<and>
          (\<forall>x \<in> set (map2 (+) cs ws). x \<le> cs ! k + ws ! k))"
      using Cons.IH [OF rest, of "Suc pos" s best] by blast
    show ?thesis
      using sel(2)
    proof
      assume "sel = s \<and> (\<forall>x \<in> set (map2 (+) cs ws). x \<le> best)"
      then show ?thesis using False ok sel(1) by auto
    next
      assume "\<exists>k < length cs. sel = Suc pos + k \<and> best < cs ! k + ws ! k \<and>
          (\<forall>x \<in> set (map2 (+) cs ws). x \<le> cs ! k + ws ! k)"
      then obtain k where "k < length cs" "sel = Suc pos + k" "best < cs ! k + ws ! k"
          "\<forall>x \<in> set (map2 (+) cs ws). x \<le> cs ! k + ws ! k" by blast
      then show ?thesis using False ok sel(1)
        by (intro exI [of _ sel] conjI disjI2 exI [of _ "Suc k"]) auto
    qed
  qed
qed simp

lemma sum_list_update_int: "k < length xs \<Longrightarrow> sum_list (xs[k := x]) = sum_list xs - xs ! k + (x :: int)"
  by (induction xs arbitrary: k) (auto split: nat.splits)

lemma sum_list_map2_add: "length cs = length ws \<Longrightarrow> sum_list (map2 (+) cs ws) = sum_list cs + sum_list (ws :: int list)"
  by (induction cs ws rule: list_induct2) auto

text \<open>Between rounds the current weights sum to zero and stay above the negated total.\<close>

definition wrr_inv :: "int list \<Rightarrow> int list \<Rightarrow> bool" where
  "wrr_inv ws cs \<longleftrightarrow> length cs = length ws \<and> sum_list cs = 0 \<and> (\<forall>c \<in> set cs. - sum_list ws < c) \<and>
     (\<forall>w \<in> set ws. 0 \<le> w) \<and> 0 < sum_list ws \<and> sum_list ws * int (length ws + 1) < 2 ^ 63"

lemma wrr_inv_range:
  assumes "wrr_inv ws cs"
  shows "\<forall>x \<in> set (map2 (+) cs ws). - sum_list ws < x \<and> x < 2 ^ 63"
proof
  fix x assume "x \<in> set (map2 (+) cs ws)"
  then obtain c w where x: "x = c + w" "c \<in> set cs" "w \<in> set ws"
    by (auto dest: set_zip_leftD set_zip_rightD)
  have "0 \<le> w" "- sum_list ws < c" using assms x by (auto simp: wrr_inv_def)
  moreover have "w \<le> sum_list ws"
    using sum_list_member_bound [OF x(3), of 0] assms by (simp add: wrr_inv_def)
  moreover have "c \<le> sum_list ws * int (length ws)"
    using sum_list_member_bound [OF x(2), of "sum_list ws"] assms by (simp add: wrr_inv_def less_imp_le)
  moreover have "sum_list ws * int (length ws) + sum_list ws < 2 ^ 63"
    using assms by (simp add: wrr_inv_def algebra_simps)
  ultimately show "- sum_list ws < x \<and> x < 2 ^ 63" using x(1) by linarith
qed

lemma wrr_step:
  assumes inv: "wrr_inv ws cs"
  shows "\<exists>sel. wrr_scan 0 ws cs 0 (- (2 ^ 63)) = Some (sel, map2 (+) cs ws) \<and> sel < length ws \<and>
     i64_checked (cs ! sel + ws ! sel - sum_list ws) = Some (cs ! sel + ws ! sel - sum_list ws) \<and>
     wrr_inv ws ((map2 (+) cs ws)[sel := cs ! sel + ws ! sel - sum_list ws])"
proof -
  let ?T = "sum_list ws" and ?ds = "map2 (+) cs ws"
  have len: "length cs = length ws" and T: "0 < ?T" using inv by (simp_all add: wrr_inv_def)
  have small: "?T < 2 ^ 63" using inv by (simp add: wrr_inv_def algebra_simps)
      (smt (verit) T of_nat_0_le_iff mult_nonneg_nonneg)
  note rng = wrr_inv_range [OF inv]
  have sum: "sum_list ?ds = ?T" using inv len by (simp add: sum_list_map2_add wrr_inv_def)
  have pos: "\<exists>x \<in> set ?ds. 0 < x"
    using sum T sum_list_nonpos [of ?ds] by (metis leD not_le_imp_less)
  obtain sel where sel: "wrr_scan 0 ws cs 0 (- (2 ^ 63)) = Some (sel, ?ds)"
    "sel = 0 \<and> (\<forall>x \<in> set ?ds. x \<le> - (2 ^ 63)) \<or>
     (\<exists>k < length cs. sel = 0 + k \<and> - (2 ^ 63) < cs ! k + ws ! k \<and>
        (\<forall>x \<in> set ?ds. x \<le> cs ! k + ws ! k))"
    using wrr_scan_spec [OF len, of 0 0 "- (2 ^ 63)"] rng small by fastforce
  have k: "sel < length cs" "\<forall>x \<in> set ?ds. x \<le> cs ! sel + ws ! sel"
    using sel(2) pos by force+
  have nth: "?ds ! sel = cs ! sel + ws ! sel" using k(1) len by simp
  have mem: "cs ! sel + ws ! sel \<in> set ?ds" using k(1) len nth by (metis length_map length_zip min.idem nth_mem)
  have gt: "0 < cs ! sel + ws ! sel" using k(2) pos by force
  have "\<forall>c \<in> set (?ds[sel := cs ! sel + ws ! sel - ?T]). - ?T < c"
    using rng gt set_update_subset_insert [of ?ds sel "cs ! sel + ws ! sel - ?T"] by fastforce
  then have "wrr_inv ws (?ds[sel := cs ! sel + ws ! sel - ?T])"
    using inv k(1) len nth sum by (simp add: wrr_inv_def sum_list_update_int)
  moreover have "i64_checked (cs ! sel + ws ! sel - ?T) = Some (cs ! sel + ws ! sel - ?T)"
    using mem rng gt T small by (auto simp: i64_checked_def)
  ultimately show ?thesis using sel(1) k(1) len by auto
qed

lemma wrr_rounds_ok:
  assumes "wrr_inv (map snd nrm) cs"
  shows "\<exists>ps. wrr_rounds k nrm (sum_list (map snd nrm)) cs = Some (map (\<lambda>s. fst (nrm ! s)) ps) \<and>
     length ps = k \<and> set ps \<subseteq> {..<length nrm} \<and>
     (\<forall>i < length nrm. - sum_list (map snd nrm) <
        cs ! i + int k * snd (nrm ! i) - sum_list (map snd nrm) * int (count_list ps i))"
  using assms
proof (induction k arbitrary: cs)
  case 0
  then show ?case by (intro exI [of _ "[]"]) (auto simp: wrr_inv_def)
next
  case (Suc k)
  let ?ws = "map snd nrm" and ?T = "sum_list (map snd nrm)"
  obtain sel where sel: "wrr_scan 0 ?ws cs 0 (- (2 ^ 63)) = Some (sel, map2 (+) cs ?ws)"
    "sel < length nrm" "i64_checked (cs ! sel + ?ws ! sel - ?T) = Some (cs ! sel + ?ws ! sel - ?T)"
    "wrr_inv ?ws ((map2 (+) cs ?ws)[sel := cs ! sel + ?ws ! sel - ?T])"
    using wrr_step [OF Suc.prems] by auto
  have len: "length cs = length nrm" using Suc.prems by (simp add: wrr_inv_def)
  define cs2 where "cs2 = (map2 (+) cs ?ws)[sel := cs ! sel + ?ws ! sel - ?T]"
  have nth: "cs2 ! i = cs ! i + snd (nrm ! i) - (if i = sel then ?T else 0)" if "i < length nrm" for i
    using that len sel(2) by (auto simp: cs2_def nth_list_update)
  obtain ps where ps: "wrr_rounds k nrm ?T cs2 = Some (map (\<lambda>s. fst (nrm ! s)) ps)" "length ps = k"
    "set ps \<subseteq> {..<length nrm}"
    "\<forall>i < length nrm. - ?T < cs2 ! i + int k * snd (nrm ! i) - ?T * int (count_list ps i)"
    using Suc.IH [of cs2] sel(4) by (auto simp: cs2_def)
  have "wrr_rounds (Suc k) nrm ?T cs = Some (map (\<lambda>s. fst (nrm ! s)) (sel # ps))"
    using sel ps(1) len by (simp add: vec_get_def cs2_def)
  moreover have "- ?T < cs ! i + int (Suc k) * snd (nrm ! i) - ?T * int (count_list (sel # ps) i)"
    if "i < length nrm" for i
    using ps(4) that nth [OF that] by (auto simp: algebra_simps)
  ultimately show ?case using ps(2,3) sel(2) by (intro exI [of _ "sel # ps"]) auto
qed

text \<open>After one full cycle every position has been selected exactly as often as its weight says.\<close>

lemma wrr_cycle_counts:
  assumes inv: "wrr_inv (map snd nrm) (replicate (length nrm) 0)"
  shows "\<exists>ps. wrr_rounds (nat (sum_list (map snd nrm))) nrm (sum_list (map snd nrm)) (replicate (length nrm) 0) =
       Some (map (\<lambda>s. fst (nrm ! s)) ps) \<and>
     set ps \<subseteq> {..<length nrm} \<and> (\<forall>i < length nrm. int (count_list ps i) = snd (nrm ! i))"
proof -
  let ?T = "sum_list (map snd nrm)"
  have T: "0 < ?T" using inv by (simp add: wrr_inv_def)
  obtain ps where ps: "wrr_rounds (nat ?T) nrm ?T (replicate (length nrm) 0) =
      Some (map (\<lambda>s. fst (nrm ! s)) ps)" "length ps = nat ?T" "set ps \<subseteq> {..<length nrm}"
    and low: "\<forall>i < length nrm. - ?T < 0 + int (nat ?T) * snd (nrm ! i) - ?T * int (count_list ps i)"
    using wrr_rounds_ok [OF inv, of "nat ?T"] by auto
  have le: "int (count_list ps i) \<le> snd (nrm ! i)" if "i < length nrm" for i
  proof -
    have "?T * (- 1) < ?T * (snd (nrm ! i) - int (count_list ps i))"
      using low that T by (auto simp: algebra_simps)
    then have "- 1 < snd (nrm ! i) - int (count_list ps i)" using T by (simp only: mult_less_cancel_left_pos)
    then show ?thesis by linarith
  qed
  have "(\<Sum>i<length nrm. int (count_list ps i)) = int (length ps)"
    using sum_count_set [OF ps(3)] by (simp flip: of_nat_sum)
  also have "\<dots> = (\<Sum>i<length nrm. snd (nrm ! i))"
    using ps(2) T by (simp add: sum_list_sum_nth atLeast0LessThan)
  finally have "int (count_list ps i) = snd (nrm ! i)" if "i < length nrm" for i
    by (rule sum_mono_inv [where I = "{..<length nrm}"]) (use le that in simp_all)
  then show ?thesis using ps by blast
qed

lemma count_list_map_inj_on:
  "inj_on f (insert x (set xs)) \<Longrightarrow> count_list (map f xs) (f x) = count_list xs x"
  by (induction xs) (auto simp: inj_on_def)

section \<open>Fairness of the schedule\<close>

definition reduced_weight :: "backend_pool \<Rightarrow> nat \<Rightarrow> nat" where
  "reduced_weight p i =
     unat (weight (backends p ! i)) div Gcd ((\<lambda>j. unat (weight (backends p ! j))) ` set (healthy p))"

lemma weight_gcd_dvd:
  assumes "pool_ready p" and "i \<in> set (healthy p)"
  shows "0 < reduced_weight p i" and "reduced_weight p i < 2 ^ 32"
proof -
  let ?w = "\<lambda>j. unat (weight (backends p ! j))"
  have w: "0 < ?w i" using assms by (simp add: pool_ready_def unat_gt_0 word_greater_zero_iff)
  have "Gcd (?w ` set (healthy p)) dvd ?w i" using assms(2) by simp
  with w show "0 < reduced_weight p i" unfolding reduced_weight_def by (meson dvd_imp_le dvd_pos_nat div_greater_zero_iff)
  have "reduced_weight p i \<le> ?w i" by (simp add: reduced_weight_def)
  then show "reduced_weight p i < 2 ^ 32" using unat_bound [of "weight (backends p ! i)"] by simp
qed

lemma normalized_ready:
  assumes "pool_ready p" and "healthy p \<noteq> []"
  shows "normalized (healthy_members p) = map (\<lambda>i. (i, int (reduced_weight p i))) (healthy p)"
proof -
  let ?G = "fold (\<lambda>(_, w) acc. weight_gcd acc w) (healthy_members p) 0"
  let ?W = "(\<lambda>j. unat (weight (backends p ! j))) ` set (healthy p)"
  have mem: "\<forall>(i, w) \<in> set (healthy_members p). 0 < w"
    using assms(1) by (auto simp: healthy_members_ready pool_ready_def)
  have "unat ?G = Gcd ?W"
    using fold_weight_gcd [OF mem, of 0] assms(1) by (simp add: healthy_members_ready image_image)
  moreover have "0 < Gcd ?W"
    using weight_gcd_dvd(1) [OF assms(1) hd_in_set [OF assms(2)]]
    by (intro gr0I) (simp add: reduced_weight_def)
  ultimately have "unat (max ?G 1) = Gcd ?W" by (simp add: unat_max max_absorb1)
  then show ?thesis
    using assms(1) by (simp add: normalized_def Let_def healthy_members_ready reduced_weight_def unat_div)
qed

lemma build_weighted_sequence_fair:
  assumes rdy: "pool_ready p" and ne: "healthy p \<noteq> []"
  shows "\<exists>s. build_weighted_sequence p = Some s \<and> s \<noteq> [] \<and> set s \<subseteq> set (healthy p) \<and>
     (\<forall>i \<in> set (healthy p). count_list s i = reduced_weight p i)"
proof -
  let ?nrm = "map (\<lambda>i. (i, int (reduced_weight p i))) (healthy p)"
  let ?ws = "map snd ?nrm" and ?n = "int (length (healthy p))"
  have pos: "\<forall>w \<in> set ?ws. 0 < w" and small: "\<forall>w \<in> set ?ws. w \<le> 2 ^ 32"
    using weight_gcd_dvd [OF rdy] by (auto simp: less_imp_le)
  have T0: "0 < sum_list ?ws" using ne pos by (cases "healthy p") (auto intro!: add_pos_nonneg sum_list_nonneg)
  note sz = pool_ready_size [OF rdy]
  have "sum_list ?ws \<le> 2 ^ 32 * ?n"
    using sum_list_upper [OF small] by simp
  also have "\<dots> \<le> 2 ^ 32 * 2 ^ 15" using sz by simp
  finally have T: "sum_list ?ws \<le> 2 ^ 47" by simp
  have "sum_list ?ws * int (length ?ws + 1) \<le> 2 ^ 47 * (2 ^ 15 + 1)"
    using T sz T0 by (intro mult_mono) auto
  then have inv: "wrr_inv ?ws (replicate (length ?nrm) 0)"
    using pos T0 by (auto simp: wrr_inv_def sum_list_replicate)
  obtain ps where ps: "wrr_rounds (nat (sum_list ?ws)) ?nrm (sum_list ?ws) (replicate (length ?nrm) 0) =
      Some (map (\<lambda>s. fst (?nrm ! s)) ps)" "set ps \<subseteq> {..<length ?nrm}"
    "\<forall>i < length ?nrm. int (count_list ps i) = snd (?nrm ! i)"
    using wrr_cycle_counts [OF inv] by blast
  have eq: "map (\<lambda>s. fst (?nrm ! s)) ps = map (\<lambda>s. healthy p ! s) ps"
    using ps(2) by auto
  have cnt: "count_list (map (\<lambda>s. healthy p ! s) ps) (healthy p ! k) = reduced_weight p (healthy p ! k)"
    if k: "k < length (healthy p)" for k
  proof -
    have "inj_on (\<lambda>s. healthy p ! s) (insert k (set ps))"
      using k ps(2) rdy by (intro inj_on_nth) (auto simp: pool_ready_def)
    then show ?thesis using count_list_map_inj_on [of "\<lambda>s. healthy p ! s" k ps] ps(3) k by simp
  qed
  have "ps \<noteq> []" using ps(3) ne weight_gcd_dvd(1) [OF rdy nth_mem, of 0] by auto
  moreover have "build_weighted_sequence p = Some (map (\<lambda>s. healthy p ! s) ps)"
    using ps(1) eq T pos normalized_ready [OF rdy ne] ne rdy sum_i64_ok [of ?ws 0]
    by (auto simp: build_weighted_sequence_def healthy_members_ready Let_def less_imp_le)
  moreover have "set (map (\<lambda>s. healthy p ! s) ps) \<subseteq> set (healthy p)" using ps(2) by auto
  moreover have "\<forall>i \<in> set (healthy p). count_list (map (\<lambda>s. healthy p ! s) ps) i = reduced_weight p i"
    using cnt by (auto simp: in_set_conv_nth)
  ultimately show ?thesis by blast
qed

section \<open>Round robin as a strategy\<close>

definition rr_coherent :: "nat \<Rightarrow> backend_pool \<Rightarrow> round_robin \<Rightarrow> bool" where
  "rr_coherent n p rr \<longleftrightarrow>
     cache_coherent n p (ws_membership_epoch (rr_schedule rr))
       (build_weighted_sequence p = Some (ws_sequence (rr_schedule rr)))"

lemma rr_pick_at_result:
  assumes "pool_ready p" and "healthy p \<noteq> []" and "n < 2 ^ 64"
    and "cache_coherent n p (ws_membership_epoch sch) (build_weighted_sequence p = Some (ws_sequence sch))"
  shows "\<exists>s. build_weighted_sequence p = Some s \<and> s \<noteq> [] \<and>
     rr_pick_at p pos sch = Some (Some (s ! (unat pos mod length s)),
       \<lparr>ws_membership_epoch = Some (membership_epoch p), ws_sequence = s\<rparr>)"
proof -
  obtain s where s: "build_weighted_sequence p = Some s" "s \<noteq> []"
    using build_weighted_sequence_fair [OF assms(1,2)] by blast
  show ?thesis
  proof (cases "ws_membership_epoch sch = Some (membership_epoch p)")
    case True
    then have "ws_sequence sch = s"
      using cache_coherent_hit [of n p] assms(3,4) s(1) by auto
    then show ?thesis using True s assms(2) by (auto simp: rr_pick_at_def vec_get_def)
  next
    case False
    then show ?thesis using s assms(2) by (auto simp: rr_pick_at_def vec_get_def)
  qed
qed

lemma build_weighted_sequence_evolves:
  "pool_evolves p p' \<Longrightarrow> healthy p' = healthy p \<Longrightarrow> build_weighted_sequence p' = build_weighted_sequence p"
  by (simp add: build_weighted_sequence_def healthy_members_evolves)

lemma rr_pick_at_member:
  assumes "pool_ready p" and "n < 2 ^ 64"
    and "cache_coherent n p (ws_membership_epoch sch) (build_weighted_sequence p = Some (ws_sequence sch))"
  shows "\<exists>res sch'. rr_pick_at p pos sch = Some (res, sch') \<and> pick_ok p res \<and>
     cache_coherent n p (ws_membership_epoch sch') (build_weighted_sequence p = Some (ws_sequence sch'))"
proof (cases "healthy p = []")
  case True
  then show ?thesis using assms(3) by (auto simp: rr_pick_at_def pick_ok_def)
next
  case False
  obtain s where s: "build_weighted_sequence p = Some s" "s \<noteq> []" "rr_pick_at p pos sch =
      Some (Some (s ! (unat pos mod length s)), \<lparr>ws_membership_epoch = Some (membership_epoch p), ws_sequence = s\<rparr>)"
    using rr_pick_at_result [OF assms(1) False assms(2,3)] by blast
  have "s ! (unat pos mod length s) \<in> set (healthy p)"
    using build_weighted_sequence_fair [OF assms(1) False] s(1,2) by auto
  then show ?thesis using s by (auto simp: pick_ok_def)
qed

interpretation rrp: backend_picker "\<lambda>_. rr_pick" "\<lambda>_. True" rr_coherent
proof
  fix p :: backend_pool and n and st :: round_robin
  assume "pool_ready p" "rr_coherent n p st" "n < 2 ^ 64"
  then show "\<exists>res st'. rr_pick st p = Some (res, st') \<and> rr_coherent n p st' \<and> pick_ok p res"
    using rr_pick_at_member [of p n "rr_schedule st" "rr_next st"] by (auto simp: rr_pick_def rr_coherent_def)
next
  fix p p' :: backend_pool and n and st :: round_robin
  assume co: "rr_coherent n p st" and ev: "pool_evolves p p'"
  show "rr_coherent (Suc n) p' st"
    unfolding rr_coherent_def
    by (rule cache_coherent_evolves [OF co [unfolded rr_coherent_def] ev])
      (simp add: build_weighted_sequence_evolves [OF ev])
qed

interpretation rrr: backend_picker "\<lambda>_. rr_pick_readonly" "\<lambda>_. True" rr_coherent
proof
  fix p :: backend_pool and n and st :: round_robin
  assume "pool_ready p" "rr_coherent n p st" "n < 2 ^ 64"
  then show "\<exists>res st'. rr_pick_readonly st p = Some (res, st') \<and> rr_coherent n p st' \<and> pick_ok p res"
    using rr_pick_at_member [of p n "rr_schedule st" "rr_next_read st"]
    by (auto simp: rr_pick_readonly_def rr_coherent_def)
qed (rule rrp.coherent_evolves)

section \<open>A window of picks\<close>

fun rr_picks :: "nat \<Rightarrow> round_robin \<Rightarrow> backend_pool \<Rightarrow> nat option list option" where
  "rr_picks 0 rr p = Some []"
| "rr_picks (Suc k) rr p = do {
     (r, rr') \<leftarrow> rr_pick rr p;
     rest \<leftarrow> rr_picks k rr' p;
     Some (r # rest)
   }"

lemma rr_picks_nth:
  assumes "pool_ready p" and "healthy p \<noteq> []" and "n < 2 ^ 64" and "rr_coherent n p rr"
    and "unat (rr_next rr) + k \<le> 2 ^ 64" and "build_weighted_sequence p = Some s"
  shows "rr_picks k rr p = Some (map (\<lambda>j. Some (s ! ((unat (rr_next rr) + j) mod length s))) [0..<k])"
  using assms(4,5)
proof (induction k arbitrary: rr)
  case (Suc k)
  let ?rr = "rr\<lparr>rr_next := rr_next rr + 1,
      rr_schedule := \<lparr>ws_membership_epoch = Some (membership_epoch p), ws_sequence = s\<rparr>\<rparr>"
  have pick: "rr_pick rr p = Some (Some (s ! (unat (rr_next rr) mod length s)), ?rr)"
    using rr_pick_at_result [OF assms(1-3)] Suc.prems(1) assms(6) by (force simp: rr_pick_def rr_coherent_def)
  have coh: "rr_coherent n p ?rr" using assms(6) by (simp add: rr_coherent_def)
  show ?case
  proof (cases "k = 0")
    case True
    then show ?thesis using pick by simp
  next
    case False
    then have nxt: "unat (rr_next rr + 1) = unat (rr_next rr) + 1"
      using Suc.prems(2) by (simp add: unat_plus_simple word_le_nat_alt unat_word_ariths)
    have "rr_picks k ?rr p = Some (map (\<lambda>j. Some (s ! ((unat (rr_next rr) + Suc j) mod length s))) [0..<k])"
      using Suc.IH [OF coh] Suc.prems(2) by (simp add: nxt)
    then show ?thesis using pick by (simp add: map_upt_Suc del: upt_Suc)
  qed
qed simp

lemma map_nth_rotate:
  "xs \<noteq> [] \<Longrightarrow> map (\<lambda>j. xs ! ((m + j) mod length xs)) [0..<length xs] = rotate m xs"
  by (rule nth_equalityI) (simp_all add: nth_rotate)

lemma count_list_rotate: "count_list (rotate m xs) x = count_list xs x"
proof -
  have "count_list (take k xs) x + count_list (drop k xs) x = count_list xs x" for k
    by (metis append_take_drop_id count_list_append)
  then show ?thesis by (simp add: rotate_drop_take add.commute)
qed

section \<open>Properties\<close>

text \<open>
  C11. Weighted round robin is exactly fair: over one cycle of consecutive picks on a stable
  membership every healthy backend is picked exactly as many times as its weight divided by the
  greatest common divisor of the healthy weights, wherever in the schedule the cursor starts
  and whatever the cache held before, as long as the cursor does not wrap around within the
  cycle.  No \<open>i64\<close> overflow occurs.
\<close>

theorem round_robin_cycle_fair:
  assumes "pool_ready p" and "healthy p \<noteq> []" and "rr_coherent n p rr" and "n < 2 ^ 64"
    and "cycle = sum_list (map (reduced_weight p) (healthy p))"
    and "unat (rr_next rr) + cycle \<le> 2 ^ 64"
  shows "\<exists>rs. rr_picks cycle rr p = Some rs \<and> length rs = cycle \<and>
     (\<forall>i \<in> set (healthy p). count_list rs (Some i) = reduced_weight p i)"
proof -
  obtain s where s: "build_weighted_sequence p = Some s" "s \<noteq> []" "set s \<subseteq> set (healthy p)"
    and cnt: "\<forall>i \<in> set (healthy p). count_list s i = reduced_weight p i"
    using build_weighted_sequence_fair [OF assms(1,2)] by blast
  have "length s = (\<Sum>i \<in> set (healthy p). count_list s i)"
    using sum_count_set [OF s(3)] by simp
  also have "\<dots> = cycle"
    using assms(1,5) cnt by (simp add: sum_list_distinct_conv_sum_set pool_ready_def)
  finally have len: "length s = cycle" .
  have rot: "rotate m s = map (\<lambda>j. s ! ((m + j) mod cycle)) [0..<cycle]" for m
    using map_nth_rotate [OF s(2), of m] len by simp
  have "rr_picks cycle rr p = Some (map Some (rotate (unat (rr_next rr)) s))"
    using rr_picks_nth [OF assms(1,2,4,3,6) s(1)] by (simp add: len rot o_def)
  moreover have "count_list (map Some (rotate m s)) (Some i) = count_list s i" for m i
    by (subst count_list_map_inj_on) (auto simp: count_list_rotate inj_on_def)
  ultimately show ?thesis using cnt len by auto
qed

definition sample_pair :: backend_pool where
  "sample_pair = new_from_states (map backend_state_new
     [\<lparr>bc_id = ''a'', bc_address = ''a'', bc_weight = 2, bc_health_check = None\<rparr>,
      \<lparr>bc_id = ''b'', bc_address = ''b'', bc_weight = 4, bc_health_check = None\<rparr>])"

lemma sample_pair_simps:
  "healthy sample_pair = [0, 1]" "length (backends sample_pair) = 2"
  "weight (backends sample_pair ! 0) = 2" "weight (backends sample_pair ! Suc 0) = 4"
  by (simp_all add: sample_pair_def new_from_states_def backend_state_new_def is_healthy_def)

lemma sample_pair_ready: "pool_ready sample_pair"
  by (simp add: pool_ready_def sample_pair_simps)

lemma sample_pair_reduced: "reduced_weight sample_pair 0 = 1" "reduced_weight sample_pair (Suc 0) = 2"
proof -
  have "gcd 2 (4 :: nat) = 2" by (simp add: gcd_non_0_nat)
  then show "reduced_weight sample_pair 0 = 1" "reduced_weight sample_pair (Suc 0) = 2"
    by (simp_all add: reduced_weight_def sample_pair_simps)
qed

theorem round_robin_cycle_fair_witness:
  "\<exists>rs. rr_picks 3 round_robin_new sample_pair = Some rs \<and> count_list rs (Some 0) = 1 \<and>
        count_list rs (Some 1) = 2"
proof -
  have "rr_coherent 0 sample_pair round_robin_new" by (simp add: rr_coherent_def round_robin_new_def)
  from round_robin_cycle_fair [OF sample_pair_ready _ this, of 3] show ?thesis
    by (auto simp: sample_pair_simps sample_pair_reduced round_robin_new_def)
qed

text \<open>
  Round robin never answers from a stale schedule: through any sequence of fewer than 2^64
  pool changes and picks starting with a new balancer, no pick panics and every pick is a
  member of the healthy vector at that moment, and \<open>None\<close> is answered only while no backend is
  healthy.
\<close>

theorem round_robin_picks_healthy:
  assumes "events_ok (\<lambda>_. True) evs p" and "length evs < 2 ^ 64"
  shows "\<exists>out. picker_run (\<lambda>_ :: unit. rr_pick) evs p round_robin_new = Some out \<and>
     list_all (\<lambda>(q, res). pick_ok q res) out"
proof -
  have "rr_coherent 0 p round_robin_new" by (simp add: rr_coherent_def round_robin_new_def)
  with rrp.coherent_run [OF assms(1) this] assms(2) show ?thesis by simp
qed

theorem round_robin_picks_healthy_witness:
  "\<exists>out. picker_run (\<lambda>_ :: unit. rr_pick) [Request (), Evolve sample_pair, Request ()] sample_pair round_robin_new = Some out \<and>
     list_all (\<lambda>(q, res). pick_ok q res) out"
  using round_robin_picks_healthy [of "[Request (), Evolve sample_pair, Request ()]" sample_pair]
  by (simp add: sample_pair_ready)

end
