(* ===== verification/Lb_Random.thy ===== *)
theory Lb_Random
  imports Lb_Picker
begin

text \<open>
  Weighted random selection (\<open>algorithms/random.rs\<close>): cumulative weights of the healthy backends,
  cached per membership epoch, and a binary search for the drawn number.  The random generator is
  the argument \<open>gen_range\<close>, which maps the bound of \<open>rng.gen_range(0..bound)\<close> to the drawn
  number; the \<open>rand\<close> crate documents that the number is below a positive bound.
\<close>

section \<open>Definitions\<close>

record weighted_healthy_members =
  wm_membership_epoch :: "u64 option"
  wm_cumulative :: "(u64 \<times> nat) list"
  wm_total_weight :: u64

definition random_new :: weighted_healthy_members where
  "random_new = \<lparr>wm_membership_epoch = None, wm_cumulative = [], wm_total_weight = 0\<rparr>"

fun cumulate :: "(nat \<times> u32) list \<Rightarrow> u64 \<Rightarrow> (u64 \<times> nat) list \<times> u64" where
  "cumulate [] acc = ([], acc)"
| "cumulate ((i, w) # members) acc =
     (let acc' = saturating_add acc (ucast w);
          (cs, t) = cumulate members acc'
      in ((acc', i) # cs, t))"

definition build_weighted_members :: "backend_pool \<Rightarrow> u64 \<Rightarrow> weighted_healthy_members" where
  "build_weighted_members p epoch =
     (let (cs, t) = cumulate (healthy_members p) 0
      in \<lparr>wm_membership_epoch = Some epoch, wm_cumulative = cs, wm_total_weight = t\<rparr>)"

definition pick_from_members :: "(u64 \<Rightarrow> u64) \<Rightarrow> weighted_healthy_members \<Rightarrow> nat option" where
  "pick_from_members gen_range m =
     (if wm_total_weight m = 0 then None
      else let draw = gen_range (wm_total_weight m);
               index = partition_point (\<lambda>(c, _). c \<le> draw) (wm_cumulative m)
           in map_option snd (vec_get (wm_cumulative m) index))"

definition random_pick_readonly :: "(u64 \<Rightarrow> u64) \<Rightarrow> weighted_healthy_members \<Rightarrow> backend_pool
    \<Rightarrow> nat option \<times> weighted_healthy_members" where
  "random_pick_readonly gen_range m p =
     (if healthy p = [] then (None, m)
      else if wm_membership_epoch m = Some (membership_epoch p) \<and> 0 < wm_total_weight m
      then (pick_from_members gen_range m, m)
      else let m' = (if wm_membership_epoch m \<noteq> Some (membership_epoch p) \<or> wm_total_weight m = 0
                     then build_weighted_members p (membership_epoch p) else m)
           in (pick_from_members gen_range m', m'))"

definition random_pick :: "(u64 \<Rightarrow> u64) \<Rightarrow> weighted_healthy_members \<Rightarrow> backend_pool
    \<Rightarrow> nat option \<times> weighted_healthy_members" where
  "random_pick = random_pick_readonly"

text \<open>What the random crate documents of \<open>gen_range\<close> on a half-open range.\<close>

definition gen_range_ok :: "(u64 \<Rightarrow> u64) \<Rightarrow> bool" where
  "gen_range_ok gen_range \<longleftrightarrow> (\<forall>n > 0. gen_range n < n)"

section \<open>Cumulative weights\<close>

abbreviation prefix_sum :: "nat list \<Rightarrow> nat \<Rightarrow> nat" where
  "prefix_sum ws k \<equiv> sum_list (take k ws)"

lemma cumulate_spec:
  "unat acc + sum_list (map (\<lambda>m. unat (snd m)) ms) < 2 ^ 64 \<Longrightarrow>
     length (fst (cumulate ms acc)) = length ms \<and>
     unat (snd (cumulate ms acc)) = unat acc + sum_list (map (\<lambda>m. unat (snd m)) ms) \<and>
     (\<forall>k < length ms. snd (fst (cumulate ms acc) ! k) = fst (ms ! k) \<and>
        unat (fst (fst (cumulate ms acc) ! k)) = unat acc + prefix_sum (map (\<lambda>m. unat (snd m)) ms) (Suc k))"
proof (induction ms arbitrary: acc)
  case (Cons m ms)
  obtain i w where m: "m = (i, w)" by force
  let ?acc = "saturating_add acc (ucast w)"
  have acc: "unat ?acc = unat acc + unat w"
    using Cons.prems m by (simp add: sat_simps)
  then have IH: "length (fst (cumulate ms ?acc)) = length ms"
    "unat (snd (cumulate ms ?acc)) = unat ?acc + sum_list (map (\<lambda>m. unat (snd m)) ms)"
    "\<forall>k < length ms. snd (fst (cumulate ms ?acc) ! k) = fst (ms ! k) \<and>
        unat (fst (fst (cumulate ms ?acc) ! k)) = unat ?acc + prefix_sum (map (\<lambda>m. unat (snd m)) ms) (Suc k)"
    using Cons.IH [of ?acc] Cons.prems m by auto
  obtain cs t where c: "cumulate ms ?acc = (cs, t)" by force
  show ?case
    using IH acc m c
    by (auto simp: nth_Cons less_Suc_eq_0_disj split: nat.splits)
qed simp

text \<open>With the weights of a ready pool the cumulative sums are exact.\<close>

abbreviation healthy_weights :: "backend_pool \<Rightarrow> nat list" where
  "healthy_weights p \<equiv> map (\<lambda>i. unat (weight (backends p ! i))) (healthy p)"

lemma healthy_weights_bound:
  assumes "pool_ready p"
  shows "sum_list (healthy_weights p) < 2 ^ 64"
proof -
  have "\<forall>w \<in> set (healthy_weights p). w \<le> 2 ^ 32"
    using unat_bound [where 'a = 32] by (auto simp: less_imp_le)
  then have "sum_list (healthy_weights p) \<le> 2 ^ 32 * length (healthy p)"
    using sum_list_upper by fastforce
  also have "\<dots> \<le> 2 ^ 32 * 2 ^ 15" using pool_ready_size [OF assms] by simp
  finally show ?thesis by simp
qed

lemma build_weighted_members_ready:
  fixes e :: u64
  assumes "pool_ready p"
  defines "m \<equiv> build_weighted_members p e"
  shows "wm_membership_epoch m = Some e" "length (wm_cumulative m) = length (healthy p)"
    "unat (wm_total_weight m) = sum_list (healthy_weights p)"
    "k < length (healthy p) \<Longrightarrow> snd (wm_cumulative m ! k) = healthy p ! k"
    "k < length (healthy p) \<Longrightarrow> unat (fst (wm_cumulative m ! k)) = prefix_sum (healthy_weights p) (Suc k)"
  using cumulate_spec [of 0 "healthy_members p"] healthy_weights_bound [OF assms(1)] assms(1)
  by (auto simp: m_def build_weighted_members_def healthy_members_ready o_def split: prod.splits)

text \<open>A draw selects the backend in whose interval of the cumulative weights it falls.\<close>

lemma prefix_sum_Suc: "k < length ws \<Longrightarrow> prefix_sum ws (Suc k) = prefix_sum ws k + ws ! k"
  by (simp add: take_Suc_conv_app_nth)

lemma prefix_sum_mono: "j \<le> k \<Longrightarrow> prefix_sum ws j \<le> prefix_sum ws k"
  by (metis le_add1 sum_list_append take_add le_Suc_ex)

lemma prefix_sum_locate:
  assumes "d < sum_list ws"
  shows "\<exists>k < length ws. prefix_sum ws k \<le> d \<and> d < prefix_sum ws (Suc k)"
  using assms
proof (induction ws rule: rev_induct)
  case (snoc w ws)
  show ?case
  proof (cases "d < sum_list ws")
    case True
    then obtain k where "k < length ws" "prefix_sum ws k \<le> d" "d < prefix_sum ws (Suc k)"
      using snoc.IH by blast
    then show ?thesis by (intro exI [of _ k]) auto
  next
    case False
    then show ?thesis using snoc.prems by (intro exI [of _ "length ws"]) auto
  qed
qed simp

lemma pick_from_members_interval:
  assumes rdy: "pool_ready p" and k: "k < length (healthy p)"
    and lo: "prefix_sum (healthy_weights p) k \<le> unat (gen_range (wm_total_weight (build_weighted_members p e)))"
    and hi: "unat (gen_range (wm_total_weight (build_weighted_members p e))) < prefix_sum (healthy_weights p) (Suc k)"
  shows "pick_from_members gen_range (build_weighted_members p e) = Some (healthy p ! k)"
proof -
  let ?m = "build_weighted_members p e"
  let ?d = "gen_range (wm_total_weight ?m)"
  note B = build_weighted_members_ready [OF rdy, where e = e]
  have "0 < weight (backends p ! (healthy p ! k))" using rdy k by (simp add: pool_ready_def)
  then have "0 < sum_list (healthy_weights p)"
    using hi prefix_sum_mono [of "Suc k" "length (healthy p)" "healthy_weights p"] k by simp
  then have tot: "wm_total_weight ?m \<noteq> 0" using B(3) by (metis less_irrefl unat_0)
  have "partition_point (\<lambda>(c, _). c \<le> ?d) (wm_cumulative ?m) = k"
  proof (rule partition_point_eq)
    fix j assume "j < k"
    then show "(\<lambda>(c, _). c \<le> ?d) (wm_cumulative ?m ! j)"
      using B(5) [of j] k lo prefix_sum_mono [of "Suc j" k "healthy_weights p"]
      by (simp add: case_prod_beta word_le_nat_alt)
  next
    fix j assume "k \<le> j" "j < length (wm_cumulative ?m)"
    then show "\<not> (\<lambda>(c, _). c \<le> ?d) (wm_cumulative ?m ! j)"
      using B(2) B(5) [of j] hi prefix_sum_mono [of "Suc k" "Suc j" "healthy_weights p"]
      by (simp add: case_prod_beta word_le_nat_alt)
  qed (use B(2) k in simp)
  then show ?thesis using tot B(2,4) k by (simp add: pick_from_members_def vec_get_def)
qed

section \<open>Random selection as a strategy\<close>

definition random_coherent :: "nat \<Rightarrow> backend_pool \<Rightarrow> weighted_healthy_members \<Rightarrow> bool" where
  "random_coherent n p m \<longleftrightarrow>
     cache_coherent n p (wm_membership_epoch m) (m = build_weighted_members p (membership_epoch p))"

lemma total_weight_pos:
  assumes "pool_ready p" and "healthy p \<noteq> []"
  shows "0 < wm_total_weight (build_weighted_members p e)"
proof -
  have "0 < unat (weight (backends p ! hd (healthy p)))"
    using assms by (simp add: pool_ready_def unat_gt_0 word_greater_zero_iff)
  then have "0 < sum_list (healthy_weights p)" using assms(2) by (cases "healthy p") auto
  then show ?thesis using build_weighted_members_ready(3) [OF assms(1), of e] by (simp add: word_less_nat_alt)
qed

lemma random_pick_result:
  assumes "pool_ready p" and "healthy p \<noteq> []" and "random_coherent n p m" and "n < 2 ^ 64"
  defines "m' \<equiv> build_weighted_members p (membership_epoch p)"
  shows "random_pick gen_range m p = (pick_from_members gen_range m', m')"
proof (cases "wm_membership_epoch m = Some (membership_epoch p)")
  case True
  then have "m = m'" using cache_coherent_hit [of n p] assms(3,4) by (simp add: random_coherent_def m'_def)
  then show ?thesis
    using True assms(2) total_weight_pos [OF assms(1,2)]
    by (simp add: random_pick_def random_pick_readonly_def Let_def m'_def)
next
  case False
  then show ?thesis using assms(2) by (simp add: random_pick_def random_pick_readonly_def Let_def m'_def)
qed

lemma pick_from_members_member:
  assumes "pool_ready p" and "healthy p \<noteq> []" and "gen_range_ok gen_range"
  shows "\<exists>k < length (healthy p).
     pick_from_members gen_range (build_weighted_members p e) = Some (healthy p ! k)"
proof -
  let ?t = "wm_total_weight (build_weighted_members p e)"
  have "gen_range ?t < ?t" using assms(3) total_weight_pos [OF assms(1,2)] by (simp add: gen_range_ok_def)
  then have "unat (gen_range ?t) < sum_list (healthy_weights p)"
    using build_weighted_members_ready(3) [OF assms(1)] by (simp add: word_less_nat_alt)
  from prefix_sum_locate [OF this] obtain k where "k < length (healthy p)"
    "prefix_sum (healthy_weights p) k \<le> unat (gen_range ?t)"
    "unat (gen_range ?t) < prefix_sum (healthy_weights p) (Suc k)" by auto
  then show ?thesis using pick_from_members_interval [OF assms(1)] by blast
qed

interpretation rnd: backend_picker "\<lambda>g m p. Some (random_pick g m p)" gen_range_ok random_coherent
proof
  fix p :: backend_pool and g n and m :: weighted_healthy_members
  assume A: "pool_ready p" "gen_range_ok g" "random_coherent n p m" "n < 2 ^ 64"
  show "\<exists>res m'. Some (random_pick g m p) = Some (res, m') \<and> random_coherent n p m' \<and> pick_ok p res"
  proof (cases "healthy p = []")
    case True
    then show ?thesis using A(3) by (simp add: random_pick_def random_pick_readonly_def pick_ok_def)
  next
    case False
    have "random_coherent n p (build_weighted_members p (membership_epoch p))"
      using build_weighted_members_ready(1) [OF A(1)] by (simp add: random_coherent_def)
    then show ?thesis
      using pick_from_members_member [OF A(1) False A(2), of "membership_epoch p"]
        random_pick_result [OF A(1) False A(3,4)] by (auto simp: pick_ok_def)
  qed
next
  fix p p' :: backend_pool and n and m :: weighted_healthy_members
  assume co: "random_coherent n p m" and ev: "pool_evolves p p'"
  show "random_coherent (Suc n) p' m"
    unfolding random_coherent_def
    by (rule cache_coherent_evolves [OF co [unfolded random_coherent_def] ev])
      (simp add: build_weighted_members_def healthy_members_evolves [OF ev])
qed

section \<open>Properties\<close>

text \<open>
  C12. Weighted random selection is exactly proportional: of the \<open>W\<close> equally likely draws, where
  \<open>W\<close> is the sum of the healthy weights, exactly \<open>w\<close> select a healthy backend of weight \<open>w\<close>,
  whatever the cache held before.
\<close>

theorem random_pick_proportional:
  assumes "pool_ready p" and "random_coherent n p m" and "n < 2 ^ 64" and "i \<in> set (healthy p)"
  shows "card {d. d < sum_list (healthy_weights p) \<and> fst (random_pick (\<lambda>_. of_nat d) m p) = Some i} =
     unat (weight (backends p ! i))"
proof -
  let ?ws = "healthy_weights p"
  obtain k where k: "k < length (healthy p)" "i = healthy p ! k" using assms(4) by (auto simp: in_set_conv_nth)
  have ne: "healthy p \<noteq> []" using k by auto
  have small: "unat (of_nat d :: u64) = d" if "d < sum_list ?ws" for d
    using that healthy_weights_bound [OF assms(1)] by (intro unat_of_nat_small) simp
  have sel: "fst (random_pick (\<lambda>_. of_nat d) m p) = Some (healthy p ! j)"
    if "d < sum_list ?ws" "j < length (healthy p)" "prefix_sum ?ws j \<le> d" "d < prefix_sum ?ws (Suc j)" for d j
    using random_pick_result [OF assms(1) ne assms(2,3)] pick_from_members_interval [OF assms(1) that(2)]
      small [OF that(1)] that(3,4) by simp
  have top: "prefix_sum ?ws (Suc k) \<le> sum_list ?ws"
    using prefix_sum_mono [of "Suc k" "length ?ws" ?ws] k(1) by simp
  have "{d. d < sum_list ?ws \<and> fst (random_pick (\<lambda>_. of_nat d) m p) = Some i} =
      {prefix_sum ?ws k..<prefix_sum ?ws (Suc k)}" (is "?L = ?R")
  proof
    show "?R \<subseteq> ?L" using sel k top by auto
    show "?L \<subseteq> ?R"
    proof
      fix d assume "d \<in> ?L"
      then have d: "d < sum_list ?ws" "fst (random_pick (\<lambda>_. of_nat d) m p) = Some i" by auto
      obtain j where j: "j < length (healthy p)" "prefix_sum ?ws j \<le> d" "d < prefix_sum ?ws (Suc j)"
        using prefix_sum_locate [OF d(1)] by auto
      then have "healthy p ! j = healthy p ! k" using sel [OF d(1)] d(2) k(2) by simp
      then have "j = k" using assms(1) j(1) k(1) by (simp add: pool_ready_def nth_eq_iff_index_eq)
      then show "d \<in> ?R" using j by simp
    qed
  qed
  then show ?thesis using k prefix_sum_Suc [of k ?ws] by simp
qed

definition sample_weighted :: backend_pool where
  "sample_weighted = new_from_states (map backend_state_new
     [\<lparr>bc_id = ''a'', bc_address = ''a'', bc_weight = 1, bc_health_check = None\<rparr>,
      \<lparr>bc_id = ''b'', bc_address = ''b'', bc_weight = 3, bc_health_check = None\<rparr>])"

lemma sample_weighted_simps:
  "healthy sample_weighted = [0, 1]" "length (backends sample_weighted) = 2"
  "weight (backends sample_weighted ! 0) = 1" "weight (backends sample_weighted ! Suc 0) = 3"
  by (simp_all add: sample_weighted_def new_from_states_def backend_state_new_def is_healthy_def)

theorem random_pick_proportional_witness:
  "card {d. d < 4 \<and> fst (random_pick (\<lambda>_. of_nat d) random_new sample_weighted) = Some 1} = 3"
proof -
  have "pool_ready sample_weighted" "random_coherent 0 sample_weighted random_new"
    by (simp_all add: pool_ready_def sample_weighted_simps random_coherent_def random_new_def)
  from random_pick_proportional [OF this, of 1] show ?thesis by (simp add: sample_weighted_simps)
qed

end
