(* ===== verification/Lb_Consistent_Hash.thy ===== *)
theory Lb_Consistent_Hash
  imports Lb_Picker "HOL-Library.Product_Lexorder"
begin

unbundle bit_operations_syntax

text \<open>
  Consistent hashing (\<open>hash.rs\<close>, \<open>algorithms/consistent_hash.rs\<close>) and the sticky-connection
  strategy on top of it (\<open>algorithms/sticky_cid.rs\<close>).  The hash is 64-bit FNV-1a over bytes; the
  ring is a vector of (hash, backend) pairs sorted lexicographically, rebuilt when the membership
  epoch changes; a key belongs to the first ring entry at or clockwise after its hash.
\<close>

section \<open>Hashing\<close>

definition default_replicas :: u32 where "default_replicas = 64"
definition fnv_offset :: u64 where "fnv_offset = 0xcbf29ce484222325"
definition fnv_prime :: u64 where "fnv_prime = 0x00000100000001b3"

definition as_bytes :: "string \<Rightarrow> u8 list" where
  "as_bytes s = map of_char s"

definition hash64_update :: "u64 \<Rightarrow> u8 \<Rightarrow> u64" where
  "hash64_update h b = (h XOR ucast b) * fnv_prime"

definition hash64 :: "u8 list \<Rightarrow> u64" where
  "hash64 bytes = foldl hash64_update fnv_offset bytes"

text \<open>The decimal digits of a replica number, written from the end of a ten-byte buffer: the
  second argument is the part of the buffer after the cursor; moving the cursor below the start
  of the buffer is a panic.\<close>

function replica_digits :: "u32 \<Rightarrow> u8 list \<Rightarrow> u8 list option" where
  "replica_digits n digits =
     (if length digits = 10 then None
      else let digits' = (48 + ucast (n mod 10)) # digits in
        if n div 10 = 0 then Some digits' else replica_digits (n div 10) digits')"
  by pat_completeness auto
termination
  by (relation "measure (\<lambda>(n, digits). unat n)") (auto simp: unat_div unat_gt_0 intro!: div_less_dividend)

declare replica_digits.simps [simp del]

definition hash_backend_replica :: "string \<Rightarrow> u32 \<Rightarrow> u64 option" where
  "hash_backend_replica addr replica = do {
     digits \<leftarrow> replica_digits replica [];
     Some (foldl hash64_update (hash64_update (foldl hash64_update fnv_offset (as_bytes addr)) 45) digits)
   }"

section \<open>The ring\<close>

record consistent_hash =
  ch_replicas :: u32
  ch_ring :: "(u64 \<times> nat) list"
  ch_ring_epoch :: "u64 option"
  ch_ring_rebuilds :: u64

definition consistent_hash_new :: "u32 \<Rightarrow> consistent_hash" where
  "consistent_hash_new replicas =
     \<lparr>ch_replicas = max replicas 1, ch_ring = [], ch_ring_epoch = None, ch_ring_rebuilds = 0\<rparr>"

fun expected_ring_entries :: "backend_pool \<Rightarrow> u32 \<Rightarrow> nat list \<Rightarrow> nat option" where
  "expected_ring_entries p replicas [] = Some 0"
| "expected_ring_entries p replicas (idx # rest) = do {
     b \<leftarrow> vec_get (backends p) idx;
     n \<leftarrow> expected_ring_entries p replicas rest;
     Some (unat (saturating_mul replicas (weight b)) + n)
   }"

fun replica_entries :: "string \<Rightarrow> nat \<Rightarrow> nat list \<Rightarrow> (u64 \<times> nat) list option" where
  "replica_entries addr idx [] = Some []"
| "replica_entries addr idx (replica # rest) = do {
     h \<leftarrow> hash_backend_replica addr (of_nat replica);
     es \<leftarrow> replica_entries addr idx rest;
     Some ((h, idx) # es)
   }"

fun ring_entries :: "backend_pool \<Rightarrow> u32 \<Rightarrow> nat list \<Rightarrow> (u64 \<times> nat) list option" where
  "ring_entries p replicas [] = Some []"
| "ring_entries p replicas (idx # rest) = do {
     b \<leftarrow> vec_get (backends p) idx;
     es \<leftarrow> replica_entries (address b) idx [0..<unat (saturating_mul replicas (weight b))];
     es' \<leftarrow> ring_entries p replicas rest;
     Some (es @ es')
   }"

definition rebuild_ring :: "backend_pool \<Rightarrow> u32 \<Rightarrow> (u64 \<times> nat) list option" where
  "rebuild_ring p replicas = do {
     expected \<leftarrow> expected_ring_entries p replicas (healthy p);
     es \<leftarrow> ring_entries p replicas (healthy p);
     Some (sort es)
   }"

definition cmp_u64 :: "u64 \<Rightarrow> u64 \<Rightarrow> ordering" where
  "cmp_u64 a b = (if a < b then Less else if a = b then Equal else Greater)"

definition ring_lookup :: "(u64 \<times> nat) list \<Rightarrow> u64 \<Rightarrow> nat" where
  "ring_lookup ring key_hash =
     (case binary_search_by (\<lambda>(h, _). cmp_u64 h key_hash) ring of
        Inr idx \<Rightarrow> idx
      | Inl idx \<Rightarrow> if idx < length ring then idx else 0)"

definition ch_pick :: "string \<Rightarrow> consistent_hash \<Rightarrow> backend_pool
    \<Rightarrow> (nat option \<times> consistent_hash) option" where
  "ch_pick key ch p =
     (if backends p = [] then Some (None, ch)
      else do {
        ch' \<leftarrow> (if ch_ring_epoch ch \<noteq> Some (membership_epoch p)
               then do {
                 r \<leftarrow> rebuild_ring p (ch_replicas ch);
                 Some (ch\<lparr>ch_ring := r, ch_ring_epoch := Some (membership_epoch p),
                          ch_ring_rebuilds := ch_ring_rebuilds ch + 1\<rparr>)
               }
               else Some ch);
        if ch_ring ch' = [] then Some (None, ch')
        else do {
          e \<leftarrow> vec_get (ch_ring ch') (ring_lookup (ch_ring ch') (hash64 (as_bytes key)));
          Some (Some (snd e), ch')
        }
      })"

definition sticky_pick :: "string \<Rightarrow> consistent_hash \<Rightarrow> backend_pool
    \<Rightarrow> (nat option \<times> consistent_hash) option" where
  "sticky_pick key ch p =
     (if key = [] then Some (vec_get (healthy p) 0, ch) else ch_pick key ch p)"

section \<open>Replica digits\<close>

text \<open>The value the digits spell, most significant first.\<close>

definition digits_value :: "u8 list \<Rightarrow> nat" where
  "digits_value = foldl (\<lambda>acc d. 10 * acc + (unat d - 48)) 0"

lemma digit_byte: "unat (48 + ucast (n mod 10 :: u32) :: u8) = 48 + unat n mod 10"
proof -
  have "unat (n mod 10) < 10" by (simp add: unat_mod)
  then show ?thesis
    by (simp add: unat_word_ariths unsigned_ucast_eq take_bit_nat_eq_self unat_mod)
qed

lemma foldl_digits:
  "foldl (\<lambda>acc d. 10 * acc + (unat (d :: u8) - 48)) a ds =
     a * 10 ^ length ds + foldl (\<lambda>acc d. 10 * acc + (unat d - 48)) 0 ds"
proof (induction ds rule: rev_induct)
  case (snoc d ds)
  then show ?case by (simp add: algebra_simps)
qed simp

lemma split_last_digit: "n div 10 * (10 * k) + n mod 10 * k = n * (k :: nat)"
proof -
  have "(n div 10 * 10 + n mod 10) * k = n * k" by (simp only: div_mult_mod_eq)
  then show ?thesis by (simp only: distrib_right mult.assoc)
qed

lemma replica_digits_ok:
  "length ds < 10 \<Longrightarrow> unat n < 10 ^ (10 - length ds) \<Longrightarrow>
     \<exists>ds'. replica_digits n ds = Some ds' \<and>
       digits_value ds' = unat n * 10 ^ length ds + digits_value ds"
proof (induction n ds rule: replica_digits.induct)
  case (1 n ds)
  let ?d = "48 + ucast (n mod 10) :: u8"
  have val: "digits_value (?d # ds) = (unat n mod 10) * 10 ^ length ds + digits_value ds"
    unfolding digits_value_def by (simp add: digit_byte foldl_digits [of "unat n mod 10" ds])
  show ?case
  proof (cases "n div 10 = 0")
    case True
    have "unat (n div 10) = 0" by (simp only: True unat_0)
    then have "unat n div 10 = 0" by (simp add: unat_div)
    then have "unat n mod 10 = unat n" by simp
    then show ?thesis using True val "1.prems" by (subst replica_digits.simps) simp
  next
    case False
    then have "0 < unat (n div 10)" by (simp add: unat_gt_0)
    then have q: "0 < unat n div 10" by (simp add: unat_div)
    have len: "length ds < 9"
    proof (rule ccontr)
      assume "\<not> length ds < 9"
      then have "length ds = 9" using "1.prems" by simp
      then show False using "1.prems"(2) q by simp
    qed
    have small: "unat (n div 10) < 10 ^ (10 - length (?d # ds))"
    proof -
      have "10 - length ds = Suc (9 - length ds)" using len by simp
      then have "unat n < 10 ^ (9 - length ds) * 10" using "1.prems"(2) by simp
      then show ?thesis by (simp add: unat_div less_mult_imp_div_less)
    qed
    have ne: "length ds \<noteq> 10" using len by simp
    obtain ds' where "replica_digits (n div 10) (?d # ds) = Some ds'"
      "digits_value ds' = unat (n div 10) * 10 ^ length (?d # ds) + digits_value (?d # ds)"
      using "1.IH" [OF ne refl False] len small by auto
    moreover have "unat (n div 10) * 10 ^ length (?d # ds) + (unat n mod 10) * 10 ^ length ds = unat n * 10 ^ length ds"
      using split_last_digit [of "unat n" "10 ^ length ds"] by (simp add: unat_div)
    ultimately show ?thesis using False ne val by (subst replica_digits.simps) (simp add: Let_def)
  qed
qed

lemma hash_backend_replica_total: "\<exists>h. hash_backend_replica addr r = Some h"
proof -
  have "unat r < 10 ^ 10" using unat_bound [of r] by simp
  then show ?thesis using replica_digits_ok [of "[]" r] by (auto simp: hash_backend_replica_def)
qed

section \<open>Ring contents\<close>

definition ring_set :: "backend_pool \<Rightarrow> u32 \<Rightarrow> nat set \<Rightarrow> (u64 \<times> nat) set" where
  "ring_set p replicas I =
     {(h, i). i \<in> I \<and> (\<exists>r < unat (saturating_mul replicas (weight (backends p ! i))).
        hash_backend_replica (address (backends p ! i)) (of_nat r) = Some h)}"

lemma replica_entries_ok:
  "\<exists>es. replica_entries addr i rs = Some es \<and> length es = length rs \<and>
     set es = {(h, j). j = i \<and> (\<exists>r \<in> set rs. hash_backend_replica addr (of_nat r) = Some h)}"
proof (induction rs)
  case (Cons r rs)
  obtain h where "hash_backend_replica addr (of_nat r) = Some h"
    using hash_backend_replica_total by blast
  with Cons show ?case by auto
qed simp

lemma ring_entries_ok:
  "\<forall>i \<in> set xs. i < length (backends p) \<Longrightarrow>
     \<exists>es. ring_entries p replicas xs = Some es \<and> set es = ring_set p replicas (set xs) \<and>
       expected_ring_entries p replicas xs = Some (length es)"
proof (induction xs)
  case (Cons i xs)
  let ?b = "backends p ! i"
  obtain es where es: "replica_entries (address ?b) i [0..<unat (saturating_mul replicas (weight ?b))] = Some es"
    "length es = unat (saturating_mul replicas (weight ?b))"
    "set es = {(h, j). j = i \<and> (\<exists>r \<in> {0..<unat (saturating_mul replicas (weight ?b))}.
        hash_backend_replica (address ?b) (of_nat r) = Some h)}"
    using replica_entries_ok [of "address ?b" i "[0..<unat (saturating_mul replicas (weight ?b))]"] by auto
  obtain es' where "ring_entries p replicas xs = Some es'" "set es' = ring_set p replicas (set xs)"
    "expected_ring_entries p replicas xs = Some (length es')"
    using Cons by auto
  then show ?case using es Cons.prems by (auto simp: vec_get_def ring_set_def)
qed (simp add: ring_set_def)

lemma rebuild_ring_ok:
  assumes "pool_ready p"
  shows "\<exists>r. rebuild_ring p replicas = Some r \<and> sorted r \<and> set r = ring_set p replicas (set (healthy p)) \<and>
     expected_ring_entries p replicas (healthy p) = Some (length r)"
  using ring_entries_ok [of "healthy p" p replicas] assms by (auto simp: rebuild_ring_def pool_ready_def)

lemma ring_set_nonempty:
  assumes "pool_ready p" and "0 < replicas"
  shows "ring_set p replicas (set (healthy p)) = {} \<longleftrightarrow> healthy p = []"
proof
  assume empty: "ring_set p replicas (set (healthy p)) = {}"
  show "healthy p = []"
  proof (rule ccontr)
    assume "healthy p \<noteq> []"
    then have i: "hd (healthy p) \<in> set (healthy p)" by simp
    let ?b = "backends p ! hd (healthy p)"
    have "0 < weight ?b" using assms(1) i by (simp add: pool_ready_def)
    then have "0 < unat (saturating_mul replicas (weight ?b))"
      using assms(2) by (auto simp: sat_simps unat_gt_0)
    moreover obtain h where "hash_backend_replica (address ?b) (of_nat 0) = Some h"
      using hash_backend_replica_total by blast
    ultimately have "(h, hd (healthy p)) \<in> ring_set p replicas (set (healthy p))"
      using i by (auto simp: ring_set_def)
    with empty show False by blast
  qed
qed (simp add: ring_set_def)

section \<open>Lookup on the ring\<close>

text \<open>Walking clockwise from a key, the distance of a ring entry is the wrapping difference of
  the hashes.  The lookup finds an entry of minimal distance.\<close>

definition clockwise :: "u64 \<Rightarrow> u64 \<Rightarrow> u64" where
  "clockwise key h = h - key"

lemma clockwise_inj: "clockwise key h = clockwise key h' \<Longrightarrow> h = h'"
  by (simp add: clockwise_def)

lemma clockwise_ahead:
  assumes "key \<le> h" and "h \<le> h' \<or> h' < key"
  shows "clockwise key h \<le> clockwise key h'"
  using assms unat_bound [of h]
  by (auto simp: clockwise_def word_le_nat_alt word_less_nat_alt unat_sub_if' not_le)

lemma clockwise_behind: "h \<le> h' \<Longrightarrow> h' < key \<Longrightarrow> clockwise key h \<le> clockwise key h'"
  by (auto simp: clockwise_def word_le_nat_alt word_less_nat_alt unat_sub_if' not_le)

lemma sorted_ring_mono:
  assumes "sorted (ring :: (u64 \<times> nat) list)" and "i \<le> j" and "j < length ring"
  shows "fst (ring ! i) \<le> fst (ring ! j)"
  using sorted_nth_mono [OF assms] by (auto simp: less_eq_prod_def)

lemma ring_lookup_nearest:
  assumes "sorted ring" and "ring \<noteq> []"
  shows "ring_lookup ring key < length ring \<and>
     (\<forall>e \<in> set ring. clockwise key (fst (ring ! ring_lookup ring key)) \<le> clockwise key (fst e))"
proof -
  let ?cmp = "\<lambda>(h, _ :: nat). cmp_u64 h key"
  have cs: "cmp_sorted ?cmp ring"
    unfolding cmp_sorted_def
  proof (intro allI impI)
    fix j i assume "j < length ring" "i < j"
    then have "fst (ring ! i) \<le> fst (ring ! j)" using sorted_ring_mono [OF assms(1)] by simp
    then show "(?cmp (ring ! j) = Less \<longrightarrow> ?cmp (ring ! i) = Less) \<and>
        (?cmp (ring ! i) = Greater \<longrightarrow> ?cmp (ring ! j) = Greater)"
      by (auto simp: cmp_u64_def split: prod.splits if_splits)
  qed
  have near: "\<forall>e \<in> set ring. clockwise key (fst (ring ! k)) \<le> clockwise key (fst e)"
    if "\<And>j. j < length ring \<Longrightarrow> clockwise key (fst (ring ! k)) \<le> clockwise key (fst (ring ! j))" for k
    using that by (metis in_set_conv_nth)
  show ?thesis
  proof (cases "binary_search_by ?cmp ring")
    case (Inr k)
    then have "k < length ring" "fst (ring ! k) = key"
      using binary_search_by_Ok [OF Inr] by (auto simp: cmp_u64_def split: prod.splits if_splits)
    then show ?thesis using Inr by (simp add: ring_lookup_def clockwise_def)
  next
    case (Inl k)
    note E = binary_search_by_Err [OF cs Inl]
    have lt: "fst (ring ! j) < key" if "j < k" for j
    proof -
      have "?cmp (ring ! j) = Less" using E that by blast
      then show ?thesis by (cases "ring ! j") (auto simp: cmp_u64_def split: if_splits)
    qed
    have gt: "key < fst (ring ! j)" if "k \<le> j" "j < length ring" for j
    proof -
      have "?cmp (ring ! j) = Greater" using E that by blast
      then show ?thesis by (cases "ring ! j") (auto simp: cmp_u64_def split: if_splits)
    qed
    show ?thesis
    proof (cases "k < length ring")
      case True
      have "clockwise key (fst (ring ! k)) \<le> clockwise key (fst (ring ! j))" if "j < length ring" for j
        using clockwise_ahead [of key "fst (ring ! k)"] gt [of k] lt [of j] True that
          sorted_ring_mono [OF assms(1), of k j] by (cases "k \<le> j") auto
      then show ?thesis using near [of k] True Inl by (simp add: ring_lookup_def)
    next
      case False
      have "clockwise key (fst (ring ! 0)) \<le> clockwise key (fst (ring ! j))" if "j < length ring" for j
        using clockwise_behind lt [of j] False that sorted_ring_mono [OF assms(1), of 0 j] by simp
      then show ?thesis using near [of 0] False Inl assms(2) by (simp add: ring_lookup_def)
    qed
  qed
qed

section \<open>Consistent hashing as a strategy\<close>

definition ch_coherent :: "nat \<Rightarrow> backend_pool \<Rightarrow> consistent_hash \<Rightarrow> bool" where
  "ch_coherent n p ch \<longleftrightarrow> 0 < ch_replicas ch \<and>
     cache_coherent n p (ch_ring_epoch ch) (rebuild_ring p (ch_replicas ch) = Some (ch_ring ch))"

lemma ch_coherent_new: "ch_coherent n p (consistent_hash_new replicas)"
  using max_1_pos [of replicas] by (simp add: ch_coherent_def consistent_hash_new_def word_less_nat_alt)

text \<open>The owner of a key: an entry of the ring with minimal clockwise distance.\<close>

definition owner_entry :: "backend_pool \<Rightarrow> u32 \<Rightarrow> u64 \<Rightarrow> u64 \<times> nat \<Rightarrow> bool" where
  "owner_entry p replicas key e \<longleftrightarrow> e \<in> ring_set p replicas (set (healthy p)) \<and>
     (\<forall>e' \<in> ring_set p replicas (set (healthy p)). clockwise key (fst e) \<le> clockwise key (fst e'))"

lemma ch_pick_owner:
  assumes rdy: "pool_ready p" and coh: "ch_coherent n p ch" and n: "n < 2 ^ 64" and ne: "healthy p \<noteq> []"
  shows "\<exists>e ch'. ch_pick key ch p = Some (Some (snd e), ch') \<and> ch_coherent n p ch' \<and>
     owner_entry p (ch_replicas ch) (hash64 (as_bytes key)) e"
proof -
  obtain r where r: "rebuild_ring p (ch_replicas ch) = Some r" "sorted r"
    "set r = ring_set p (ch_replicas ch) (set (healthy p))"
    using rebuild_ring_ok [OF rdy] by blast
  have pos: "0 < ch_replicas ch" using coh by (simp add: ch_coherent_def)
  then have "r \<noteq> []" using r(3) ring_set_nonempty [OF rdy] ne by force
  let ?k = "hash64 (as_bytes key)"
  have near: "ring_lookup r ?k < length r"
    "owner_entry p (ch_replicas ch) ?k (r ! ring_lookup r ?k)"
    using ring_lookup_nearest [OF r(2) \<open>r \<noteq> []\<close>, of ?k] r(3) by (auto simp: owner_entry_def)
  have bs: "backends p \<noteq> []" using rdy ne by (auto simp: pool_ready_def)
  show ?thesis
  proof (cases "ch_ring_epoch ch = Some (membership_epoch p)")
    case True
    then have "ch_ring ch = r"
      using cache_coherent_hit [of n p] coh n r(1) by (auto simp: ch_coherent_def)
    then show ?thesis using True near bs \<open>r \<noteq> []\<close> coh
      by (intro exI [of _ "r ! ring_lookup r ?k"]) (simp add: ch_pick_def vec_get_def)
  next
    case False
    then show ?thesis using near bs \<open>r \<noteq> []\<close> r(1) pos
      by (intro exI [of _ "r ! ring_lookup r ?k"]) (simp add: ch_pick_def vec_get_def ch_coherent_def)
  qed
qed

lemma ch_pick_none:
  assumes rdy: "pool_ready p" and coh: "ch_coherent n p ch" and n: "n < 2 ^ 64" and none: "healthy p = []"
  shows "\<exists>ch'. ch_pick key ch p = Some (None, ch') \<and> ch_coherent n p ch'"
proof (cases "ch_ring_epoch ch = Some (membership_epoch p)")
  case True
  then have "rebuild_ring p (ch_replicas ch) = Some (ch_ring ch)"
    using cache_coherent_hit [of n p] coh n by (auto simp: ch_coherent_def)
  then have "ch_ring ch = []" using none by (simp add: rebuild_ring_def)
  then show ?thesis using True coh by (auto simp: ch_pick_def)
next
  case False
  then show ?thesis using none coh by (auto simp: ch_pick_def rebuild_ring_def ch_coherent_def)
qed

lemma ring_entries_evolves:
  assumes "pool_evolves p p'"
  shows "ring_entries p' replicas xs = ring_entries p replicas xs"
    and "expected_ring_entries p' replicas xs = expected_ring_entries p replicas xs"
  using assms
  by (induction xs) (auto simp: pool_evolves_def vec_get_def same_identity_def)

interpretation chp: backend_picker ch_pick "\<lambda>_. True" ch_coherent
proof
  fix p :: backend_pool and n st and key :: string
  assume A: "pool_ready p" "ch_coherent n p st" "n < 2 ^ 64"
  show "\<exists>res st'. ch_pick key st p = Some (res, st') \<and> ch_coherent n p st' \<and> pick_ok p res"
    using ch_pick_owner [OF A] ch_pick_none [OF A]
    by (cases "healthy p = []") (fastforce simp: pick_ok_def owner_entry_def ring_set_def)+
next
  fix p p' :: backend_pool and n st
  assume co: "ch_coherent n p st" and ev: "pool_evolves p p'"
  have "cache_coherent (Suc n) p' (ch_ring_epoch st) (rebuild_ring p' (ch_replicas st) = Some (ch_ring st))"
    by (rule cache_coherent_evolves [OF conjunct2 [OF co [unfolded ch_coherent_def]] ev])
      (simp add: rebuild_ring_def ring_entries_evolves [OF ev])
  then show "ch_coherent (Suc n) p' st" using co by (simp add: ch_coherent_def)
qed

interpretation stp: backend_picker sticky_pick "\<lambda>_. True" ch_coherent
proof
  fix p :: backend_pool and n st and key :: string
  assume A: "pool_ready p" "ch_coherent n p st" "n < 2 ^ 64"
  show "\<exists>res st'. sticky_pick key st p = Some (res, st') \<and> ch_coherent n p st' \<and> pick_ok p res"
    using chp.pick_member [OF A(1) _ A(2,3), of key] A(2)
    by (cases "healthy p") (auto simp: sticky_pick_def pick_ok_def vec_get_def)
qed (rule chp.coherent_evolves)

section \<open>Properties\<close>

text \<open>
  C13. A key is served by the nearest ring entry clockwise: with at least one healthy backend the
  pick succeeds, and the chosen backend owns a ring point whose clockwise distance from the hash
  of the key is minimal among all ring points of all healthy backends, whatever the cached ring
  was.
\<close>

theorem consistent_hash_nearest:
  assumes "pool_ready p" and "ch_coherent n p ch" and "n < 2 ^ 64" and "healthy p \<noteq> []"
  shows "\<exists>h i ch'. ch_pick key ch p = Some (Some i, ch') \<and>
     (h, i) \<in> ring_set p (ch_replicas ch) (set (healthy p)) \<and>
     (\<forall>(h', j) \<in> ring_set p (ch_replicas ch) (set (healthy p)).
        h - hash64 (as_bytes key) \<le> h' - hash64 (as_bytes key))"
proof -
  obtain e ch' where "ch_pick key ch p = Some (Some (snd e), ch')"
    "owner_entry p (ch_replicas ch) (hash64 (as_bytes key)) e"
    using ch_pick_owner [OF assms] by blast
  then show ?thesis
    by (intro exI [of _ "fst e"] exI [of _ "snd e"]) (auto simp: owner_entry_def clockwise_def)
qed

definition sample_ring_pool :: backend_pool where
  "sample_ring_pool = new_from_states (map backend_state_new
     [\<lparr>bc_id = ''a'', bc_address = ''a'', bc_weight = 1, bc_health_check = None\<rparr>,
      \<lparr>bc_id = ''b'', bc_address = ''b'', bc_weight = 1, bc_health_check = None\<rparr>])"

lemma sample_ring_simps:
  "healthy sample_ring_pool = [0, 1]" "length (backends sample_ring_pool) = 2"
  "weight (backends sample_ring_pool ! 0) = 1" "weight (backends sample_ring_pool ! Suc 0) = 1"
  "address (backends sample_ring_pool ! 0) = ''a''" "address (backends sample_ring_pool ! Suc 0) = ''b''"
  by (simp_all add: sample_ring_pool_def new_from_states_def backend_state_new_def is_healthy_def)

lemma sample_ring_ready: "pool_ready sample_ring_pool"
  by (simp add: pool_ready_def sample_ring_simps)

theorem consistent_hash_nearest_witness:
  "\<exists>h i ch'. ch_pick ''key'' (consistent_hash_new 64) sample_ring_pool = Some (Some i, ch') \<and>
     (h, i) \<in> ring_set sample_ring_pool (ch_replicas (consistent_hash_new 64)) (set (healthy sample_ring_pool))"
proof -
  have "healthy sample_ring_pool \<noteq> []" by (simp add: sample_ring_simps)
  from consistent_hash_nearest [OF sample_ring_ready ch_coherent_new [of 0] _ this] show ?thesis by fastforce
qed

text \<open>
  C14. Consistent hashing disturbs nothing but the keys of the backend that leaves: when the healthy set
  loses one backend (in whatever order the healthy vector lists the rest) and no two ring points
  of the old ring collide, every key that was served by another backend is still served by it.
\<close>

theorem consistent_hash_minimal_disruption:
  assumes "pool_ready p" and "pool_ready p'" and "set (healthy p') = set (healthy p) - {b}"
    and same: "\<forall>i \<in> set (healthy p'). address (backends p' ! i) = address (backends p ! i) \<and>
          weight (backends p' ! i) = weight (backends p ! i)"
    and inj: "inj_on fst (ring_set p (ch_replicas ch) (set (healthy p)))"
    and "ch_coherent n p ch" and "ch_coherent n' p' ch'" and "n < 2 ^ 64" and "n' < 2 ^ 64"
    and "ch_replicas ch' = ch_replicas ch"
    and pick: "ch_pick key ch p = Some (Some j, ch1)" and "j \<noteq> b"
  shows "\<exists>ch2. ch_pick key ch' p' = Some (Some j, ch2)"
proof -
  let ?k = "hash64 (as_bytes key)" and ?r = "ch_replicas ch"
  have ne: "healthy p \<noteq> []"
    using ch_pick_none [OF assms(1,6,8), of key] pick by auto
  then obtain e where e: "snd e = j" "owner_entry p ?r ?k e"
    using ch_pick_owner [OF assms(1,6,8) ne, of key] pick by auto
  have rings: "ring_set p' ?r (set (healthy p')) = {x \<in> ring_set p ?r (set (healthy p)). snd x \<noteq> b}"
    using assms(3) same by (force simp: ring_set_def)
  then have in': "e \<in> ring_set p' ?r (set (healthy p'))"
    using e assms(12) by (auto simp: owner_entry_def)
  then have ne': "healthy p' \<noteq> []" by (auto simp: ring_set_def)
  obtain e' ch2 where e': "ch_pick key ch' p' = Some (Some (snd e'), ch2)" "owner_entry p' ?r ?k e'"
    using ch_pick_owner [OF assms(2,7,9) ne', of key] assms(10) by auto
  have old: "e' \<in> ring_set p ?r (set (healthy p))" using e'(2) rings by (auto simp: owner_entry_def)
  then have "clockwise ?k (fst e) \<le> clockwise ?k (fst e')" "clockwise ?k (fst e') \<le> clockwise ?k (fst e)"
    using e(2) e'(2) in' by (auto simp: owner_entry_def)
  then have "fst e = fst e'" using clockwise_inj by (metis order_antisym)
  then have "e = e'" using inj e(2) old by (auto simp: owner_entry_def inj_on_def)
  then show ?thesis using e' e(1) by auto
qed

lemma sample_hashes:
  "hash_backend_replica ''a'' 0 = Some 16580676136240137209"
  "hash_backend_replica ''b'' 0 = Some 18405343170562580984"
  "hash64 (as_bytes ''k'') = 12638198195671924106"
  by (simp_all add: hash_backend_replica_def replica_digits.simps hash64_def as_bytes_def
      hash64_update_def fnv_offset_def fnv_prime_def)

lemma sample_ring_set:
  "ring_set sample_ring_pool 1 {0, Suc 0} = {(16580676136240137209, 0), (18405343170562580984, Suc 0)}"
  "ring_set sample_ring_pool 1 {0} = {(16580676136240137209, 0)}"
  by (auto simp: ring_set_def sample_ring_simps sample_hashes saturating_mul_def)

lemma sample_ring_pick:
  "\<exists>ch'. ch_pick ''k'' (consistent_hash_new 1) sample_ring_pool = Some (Some 0, ch')"
proof -
  have new: "ch_replicas (consistent_hash_new 1) = 1" by (simp add: consistent_hash_new_def)
  have "healthy sample_ring_pool \<noteq> []" by (simp add: sample_ring_simps)
  then obtain e ch' where e: "ch_pick ''k'' (consistent_hash_new 1) sample_ring_pool = Some (Some (snd e), ch')"
    "owner_entry sample_ring_pool 1 (hash64 (as_bytes ''k'')) e"
    using ch_pick_owner [OF sample_ring_ready ch_coherent_new [where n = 0 and replicas = 1], of "''k''"]
    by (auto simp: new)
  then have "snd e = 0"
    by (auto simp: owner_entry_def sample_ring_simps sample_ring_set sample_hashes clockwise_def)
  with e show ?thesis by auto
qed

theorem consistent_hash_minimal_disruption_witness:
  "\<exists>ch2. ch_pick ''k'' (consistent_hash_new 1) (sample_ring_pool\<lparr>healthy := [0]\<rparr>) = Some (Some 0, ch2)"
proof -
  have new: "ch_replicas (consistent_hash_new 1) = 1" by (simp add: consistent_hash_new_def)
  obtain ch' where pick: "ch_pick ''k'' (consistent_hash_new 1) sample_ring_pool = Some (Some 0, ch')"
    using sample_ring_pick by blast
  show ?thesis
  proof (rule consistent_hash_minimal_disruption [OF sample_ring_ready, where b = 1 and n = 0 and n' = 0])
    show "pool_ready (sample_ring_pool\<lparr>healthy := [0]\<rparr>)" by (simp add: pool_ready_def sample_ring_simps)
    show "inj_on fst (ring_set sample_ring_pool (ch_replicas (consistent_hash_new 1)) (set (healthy sample_ring_pool)))"
      by (simp add: new sample_ring_simps sample_ring_set)
    show "set (healthy (sample_ring_pool\<lparr>healthy := [0]\<rparr>)) = set (healthy sample_ring_pool) - {1}"
      by (auto simp: sample_ring_simps)
  qed (simp_all add: ch_coherent_new pick)
qed

text \<open>
  The replica suffix that is hashed is the decimal numeral of the replica: for every 32-bit
  number the digit loop fits its ten-byte buffer, and reading the digits back gives the number.
\<close>

theorem replica_digits_roundtrip:
  "\<exists>ds. replica_digits n [] = Some ds \<and> digits_value ds = unat n"
proof -
  have "unat n < 10 ^ 10" using unat_bound [of n] by simp
  then show ?thesis using replica_digits_ok [of "[]" n] by (simp add: digits_value_def)
qed

text \<open>
  The ring has exactly the number of points that \<open>expected_ring_entries\<close> reserves room for, and it
  is sorted, so that it can be searched by bisection.
\<close>

theorem rebuild_ring_size:
  assumes "pool_ready p"
  shows "\<exists>r. rebuild_ring p replicas = Some r \<and> sorted r \<and>
     expected_ring_entries p replicas (healthy p) = Some (length r)"
  using rebuild_ring_ok [OF assms] by blast

theorem rebuild_ring_size_witness:
  "\<exists>r. rebuild_ring sample_ring_pool 3 = Some r \<and> sorted r \<and> length r = 6"
  using rebuild_ring_size [OF sample_ring_ready, of 3]
  by (auto simp: sample_ring_simps vec_get_def saturating_mul_def)

end
