(* ===== verification/Lb_Load_Aware.thy ===== *)
theory Lb_Load_Aware
  imports Lb_Picker "HOL-Library.Product_Lexorder"
begin

text \<open>
  The two strategies that look at the load of the backends: least connections
  (\<open>algorithms/least_connections.rs\<close>) and latency awareness (\<open>algorithms/latency_aware.rs\<close>).
  The lexicographic order on tuples that the loops spell out is the library's order on pairs,
  so that each scan is the minimum of the keys of the healthy backends.
\<close>

section \<open>Least connections\<close>

fun lc_scan :: "backend_pool \<Rightarrow> nat list \<Rightarrow> (usize \<times> nat) option \<Rightarrow> (usize \<times> nat) option option" where
  "lc_scan p [] best = Some best"
| "lc_scan p (idx # rest) best = do {
     b \<leftarrow> vec_get (backends p) idx;
     let active = active_requests b;
     lc_scan p rest
       (case best of
          Some (best_active, best_idx) \<Rightarrow>
            (if active < best_active \<or> (active = best_active \<and> idx < best_idx)
             then Some (active, idx) else best)
        | None \<Rightarrow> Some (active, idx))
   }"

definition lc_pick_readonly :: "backend_pool \<Rightarrow> nat option option" where
  "lc_pick_readonly p = do { best \<leftarrow> lc_scan p (healthy p) None; Some (map_option snd best) }"

definition lc_pick :: "backend_pool \<Rightarrow> nat option option" where
  "lc_pick p = lc_pick_readonly p"

section \<open>Latency awareness\<close>

definition active_request_penalty_ms :: real where "active_request_penalty_ms = 10"
definition unsampled_probe_interval :: u64 where "unsampled_probe_interval = 16"
definition exploration_interval :: u64 where "exploration_interval = 32"

record candidate =
  cand_score :: real
  cand_active :: usize
  cand_idx :: nat

record latency_aware =
  unsampled_probe_cursor :: u64
  exploration_cursor :: usize
  selections :: u64

definition latency_aware_new :: latency_aware where
  "latency_aware_new = \<lparr>unsampled_probe_cursor = 0, exploration_cursor = 0, selections = 0\<rparr>"

text \<open>The running results of the ranking loop.\<close>

record ranking =
  rk_unsampled :: "(usize \<times> nat) option"
  rk_sampled :: "candidate option"
  rk_latency_sum :: real
  rk_count :: nat

definition rank_step :: "nat \<Rightarrow> backend_state \<Rightarrow> ranking \<Rightarrow> ranking" where
  "rank_step idx b rk =
     (let active = active_requests b in
      case ewma_latency_ms b of
        Some ewma \<Rightarrow>
          (let score = ewma + real (unat active) * active_request_penalty_ms;
               cand = \<lparr>cand_score = score, cand_active = active, cand_idx = idx\<rparr>
           in rk\<lparr>rk_latency_sum := rk_latency_sum rk + ewma, rk_count := rk_count rk + 1,
                 rk_sampled :=
                   (case rk_sampled rk of
                      Some best \<Rightarrow>
                        (if score < cand_score best \<or>
                            (score = cand_score best \<and>
                             (active < cand_active best \<or>
                              (active = cand_active best \<and> idx < cand_idx best)))
                         then Some cand else Some best)
                    | None \<Rightarrow> Some cand)\<rparr>)
      | None \<Rightarrow>
          rk\<lparr>rk_unsampled :=
               (case rk_unsampled rk of
                  Some (best_active, best_idx) \<Rightarrow>
                    (if active < best_active \<or> (active = best_active \<and> idx < best_idx)
                     then Some (active, idx) else rk_unsampled rk)
                | None \<Rightarrow> Some (active, idx))\<rparr>)"

fun rank_loop :: "backend_pool \<Rightarrow> nat list \<Rightarrow> ranking \<Rightarrow> ranking option" where
  "rank_loop p [] rk = Some rk"
| "rank_loop p (idx # rest) rk = do {
     b \<leftarrow> vec_get (backends p) idx;
     rank_loop p rest (rank_step idx b rk)
   }"

definition rank_candidates :: "backend_pool \<Rightarrow> (candidate option \<times> candidate option) option" where
  "rank_candidates p = do {
     rk \<leftarrow> rank_loop p (healthy p)
       \<lparr>rk_unsampled = None, rk_sampled = None, rk_latency_sum = 0, rk_count = 0\<rparr>;
     let unsampled_at = (\<lambda>base. map_option (\<lambda>(active, idx).
           \<lparr>cand_score = base active, cand_active = active, cand_idx = idx\<rparr>) (rk_unsampled rk));
     Some (if rk_count rk = 0 then (None, unsampled_at (\<lambda>_. 0))
           else case rk_sampled rk of
               None \<Rightarrow> (None, unsampled_at (\<lambda>_. 0))
             | Some best \<Rightarrow>
                 (Some best, unsampled_at (\<lambda>active.
                    rk_latency_sum rk / real (rk_count rk) +
                    real (unat active) * active_request_penalty_ms)))
   }"

definition periodic_exploration :: "latency_aware \<Rightarrow> backend_pool \<Rightarrow> nat option \<times> latency_aware" where
  "periodic_exploration la p =
     (let la = la\<lparr>selections := selections la + 1\<rparr> in
      if length (healthy p) < 2 \<or> selections la mod exploration_interval \<noteq> 0 then (None, la)
      else (vec_get (healthy p) (unat (exploration_cursor la) mod length (healthy p)),
            la\<lparr>exploration_cursor := exploration_cursor la + 1\<rparr>))"

definition should_probe_unsampled :: "latency_aware \<Rightarrow> usize \<Rightarrow> bool \<times> latency_aware" where
  "should_probe_unsampled la unsampled_active =
     (let la = la\<lparr>unsampled_probe_cursor := unsampled_probe_cursor la + 1\<rparr>
      in (unsampled_active = 0 \<and> unsampled_probe_cursor la mod unsampled_probe_interval = 0, la))"

definition la_pick :: "latency_aware \<Rightarrow> backend_pool \<Rightarrow> (nat option \<times> latency_aware) option" where
  "la_pick la p =
     (case periodic_exploration la p of
        (Some index, la) \<Rightarrow> Some (Some index, la)
      | (None, la) \<Rightarrow> do {
          r \<leftarrow> rank_candidates p;
          Some (case r of
              (None, unsampled_best) \<Rightarrow> (map_option cand_idx unsampled_best, la)
            | (Some sampled_best, None) \<Rightarrow> (Some (cand_idx sampled_best), la)
            | (Some sampled_best, Some unsampled_best) \<Rightarrow>
                (case should_probe_unsampled la (cand_active unsampled_best) of
                   (True, la) \<Rightarrow> (Some (cand_idx unsampled_best), la)
                 | (False, la) \<Rightarrow> (Some (cand_idx sampled_best), la)))
        })"

definition la_pick_readonly :: "backend_pool \<Rightarrow> nat option option" where
  "la_pick_readonly p = do {
     r \<leftarrow> rank_candidates p;
     Some (case r of
         (Some sampled_best, Some unsampled_best) \<Rightarrow>
           (if cand_score unsampled_best < cand_score sampled_best
            then Some (cand_idx unsampled_best) else Some (cand_idx sampled_best))
       | (Some sampled_best, None) \<Rightarrow> Some (cand_idx sampled_best)
       | (None, Some unsampled_best) \<Rightarrow> Some (cand_idx unsampled_best)
       | (None, None) \<Rightarrow> None)
   }"

section \<open>The scans as minima\<close>

abbreviation active_at :: "backend_pool \<Rightarrow> nat \<Rightarrow> usize" where
  "active_at p i \<equiv> active_requests (backends p ! i)"

lemma keep_min:
  "(case best of
      Some (best_active, best_idx) \<Rightarrow>
        (if active < best_active \<or> (active = best_active \<and> idx < best_idx) then Some (active, idx) else best)
    | None \<Rightarrow> Some (active, idx)) =
   Some (case best of None \<Rightarrow> (active, idx) | Some m \<Rightarrow> min (active :: usize, idx :: nat) m)"
  by (auto simp: min_def less_eq_prod_def split: option.splits)

lemma lc_scan_min:
  "\<forall>i \<in> set xs. i < length (backends p) \<Longrightarrow>
     lc_scan p xs (Some m) = Some (Some (fold min (map (\<lambda>i. (active_at p i, i)) xs) m))"
proof (induction xs arbitrary: m)
  case (Cons i xs)
  then show ?case by (simp add: vec_get_def Let_def keep_min [where best = "Some m", simplified])
qed simp

lemma lc_pick_min:
  assumes "pool_ready p" and "healthy p \<noteq> []"
  shows "lc_pick p = Some (Some (snd (Min ((\<lambda>i. (active_at p i, i)) ` set (healthy p)))))"
proof -
  obtain i xs where h: "healthy p = i # xs" using assms(2) by (cases "healthy p") auto
  have "\<forall>i \<in> set (healthy p). i < length (backends p)" using assms(1) by (simp add: pool_ready_def)
  then have "lc_scan p (healthy p) None =
      Some (Some (fold min (map (\<lambda>i. (active_at p i, i)) xs) (active_at p i, i)))"
    using lc_scan_min [of xs p "(active_at p i, i)"] h by (simp add: vec_get_def Let_def)
  moreover have "fold min (map (\<lambda>i. (active_at p i, i)) xs) (active_at p i, i) =
      Min ((\<lambda>i. (active_at p i, i)) ` set (healthy p))"
    using Min.set_eq_fold [of "(active_at p i, i)" "map (\<lambda>i. (active_at p i, i)) xs"] h by simp
  ultimately show ?thesis by (simp add: lc_pick_def lc_pick_readonly_def)
qed

definition min_opt :: "'a::linorder set \<Rightarrow> 'a option" where
  "min_opt A = (if A = {} then None else Some (Min A))"

lemma min_opt_insert:
  "finite A \<Longrightarrow> min_opt (insert a A) = Some (case min_opt A of None \<Rightarrow> a | Some m \<Rightarrow> min a m)"
  by (simp add: min_opt_def)

lemma min_opt_SomeD: "finite A \<Longrightarrow> min_opt A = Some m \<Longrightarrow> m \<in> A \<and> (\<forall>x \<in> A. m \<le> x)"
  by (auto simp: min_opt_def split: if_splits intro: Min_in)

lemma min_opt_None [simp]: "min_opt A = None \<longleftrightarrow> A = {}"
  by (simp add: min_opt_def)

definition cand_key :: "candidate \<Rightarrow> real \<times> usize \<times> nat" where
  "cand_key c = (cand_score c, cand_active c, cand_idx c)"

definition sampled_at :: "backend_pool \<Rightarrow> nat \<Rightarrow> bool" where
  "sampled_at p i \<longleftrightarrow> ewma_latency_ms (backends p ! i) \<noteq> None"

abbreviation penalty_at :: "backend_pool \<Rightarrow> nat \<Rightarrow> real" where
  "penalty_at p i \<equiv> real (unat (active_at p i)) * active_request_penalty_ms"

definition sample_key :: "backend_pool \<Rightarrow> nat \<Rightarrow> real \<times> usize \<times> nat" where
  "sample_key p i = (the (ewma_latency_ms (backends p ! i)) + penalty_at p i, active_at p i, i)"

definition ranked :: "backend_pool \<Rightarrow> nat list \<Rightarrow> ranking \<Rightarrow> bool" where
  "ranked p xs rk \<longleftrightarrow>
     map_option cand_key (rk_sampled rk) = min_opt (sample_key p ` {i \<in> set xs. sampled_at p i}) \<and>
     rk_unsampled rk = min_opt ((\<lambda>i. (active_at p i, i)) ` {i \<in> set xs. \<not> sampled_at p i}) \<and>
     rk_latency_sum rk = sum_list (map (\<lambda>i. the (ewma_latency_ms (backends p ! i))) (filter (sampled_at p) xs)) \<and>
     rk_count rk = length (filter (sampled_at p) xs)"

lemma keep_min_cand:
  "map_option cand_key
     (case best of
        Some best \<Rightarrow>
          (if score < cand_score best \<or>
              (score = cand_score best \<and>
               (active < cand_active best \<or> (active = cand_active best \<and> idx < cand_idx best)))
           then Some \<lparr>cand_score = score, cand_active = active, cand_idx = idx\<rparr> else Some best)
      | None \<Rightarrow> Some \<lparr>cand_score = score, cand_active = active, cand_idx = idx\<rparr>) =
   Some (case map_option cand_key best of
           None \<Rightarrow> (score, active, idx)
         | Some m \<Rightarrow> min (score, active, idx) m)"
  by (auto simp: cand_key_def min_def less_eq_prod_def split: option.splits)

lemma rank_step_unsampled:
  "ewma_latency_ms b = None \<Longrightarrow>
     rank_step i b rk = rk\<lparr>rk_unsampled := Some (case rk_unsampled rk of
         None \<Rightarrow> (active_requests b, i) | Some m \<Rightarrow> min (active_requests b, i) m)\<rparr>"
  by (simp add: rank_step_def Let_def keep_min)

lemma rank_step_sampled:
  assumes "ewma_latency_ms b = Some w"
  shows "rk_latency_sum (rank_step i b rk) = rk_latency_sum rk + w"
    and "rk_count (rank_step i b rk) = rk_count rk + 1"
    and "rk_unsampled (rank_step i b rk) = rk_unsampled rk"
    and "map_option cand_key (rk_sampled (rank_step i b rk)) =
       Some (let key = (w + real (unat (active_requests b)) * active_request_penalty_ms, active_requests b, i)
             in case map_option cand_key (rk_sampled rk) of None \<Rightarrow> key | Some m \<Rightarrow> min key m)"
  using assms by (simp_all add: rank_step_def Let_def keep_min_cand del: option.map_sel)

lemma ranked_step:
  assumes "ranked p xs rk" and "i < length (backends p)"
  shows "ranked p (xs @ [i]) (rank_step i (backends p ! i) rk)"
proof (cases "ewma_latency_ms (backends p ! i)")
  case None
  then have ns: "\<not> sampled_at p i" by (simp add: sampled_at_def)
  have set: "{j \<in> set (xs @ [i]). \<not> sampled_at p j} = insert i {j \<in> set xs. \<not> sampled_at p j}"
    "{j \<in> set (xs @ [i]). sampled_at p j} = {j \<in> set xs. sampled_at p j}" using ns by auto
  show ?thesis
    using assms(1) None ns unfolding ranked_def set
    by (simp add: rank_step_unsampled min_opt_insert)
next
  case (Some w)
  then have sm: "sampled_at p i" by (simp add: sampled_at_def)
  have set: "{j \<in> set (xs @ [i]). sampled_at p j} = insert i {j \<in> set xs. sampled_at p j}"
    "{j \<in> set (xs @ [i]). \<not> sampled_at p j} = {j \<in> set xs. \<not> sampled_at p j}" using sm by auto
  show ?thesis
    using assms(1) Some sm unfolding ranked_def set
    by (simp add: rank_step_sampled min_opt_insert sample_key_def [of p i] Let_def)
qed

lemma rank_loop_ranked:
  "\<forall>i \<in> set ys. i < length (backends p) \<Longrightarrow> ranked p xs rk \<Longrightarrow>
     \<exists>rk'. rank_loop p ys rk = Some rk' \<and> ranked p (xs @ ys) rk'"
proof (induction ys arbitrary: xs rk)
  case (Cons i ys)
  then show ?case using ranked_step [OF Cons.prems(2), of i] Cons.IH [of "xs @ [i]"] by (auto simp: vec_get_def)
qed simp

lemma rank_loop_healthy:
  assumes "pool_ready p"
  shows "\<exists>rk. rank_loop p (healthy p)
       \<lparr>rk_unsampled = None, rk_sampled = None, rk_latency_sum = 0, rk_count = 0\<rparr> = Some rk \<and>
     ranked p (healthy p) rk"
proof -
  have "ranked p [] \<lparr>rk_unsampled = None, rk_sampled = None, rk_latency_sum = 0, rk_count = 0\<rparr>"
    by (simp add: ranked_def min_opt_def)
  from rank_loop_ranked [OF _ this, of "healthy p"] show ?thesis using assms by (simp add: pool_ready_def)
qed

text \<open>The estimate by which a backend is ranked: its moving average, or the mean of the known averages.\<close>

definition baseline :: "backend_pool \<Rightarrow> real" where
  "baseline p =
     sum_list (map (\<lambda>i. the (ewma_latency_ms (backends p ! i))) (filter (sampled_at p) (healthy p))) /
     real (length (filter (sampled_at p) (healthy p)))"

definition estimate :: "backend_pool \<Rightarrow> nat \<Rightarrow> real" where
  "estimate p i = (case ewma_latency_ms (backends p ! i) of Some e \<Rightarrow> e | None \<Rightarrow> baseline p) + penalty_at p i"

text \<open>The two candidates: each is the best of its kind by estimate.\<close>

definition best_of :: "backend_pool \<Rightarrow> (nat \<Rightarrow> bool) \<Rightarrow> candidate option \<Rightarrow> bool" where
  "best_of p P c \<longleftrightarrow>
     (case c of
        None \<Rightarrow> \<forall>i \<in> set (healthy p). \<not> P i
      | Some c \<Rightarrow> cand_idx c \<in> set (healthy p) \<and> P (cand_idx c) \<and> cand_active c = active_at p (cand_idx c) \<and>
          (\<forall>i \<in> set (healthy p). P i \<longrightarrow> estimate p (cand_idx c) \<le> estimate p i))"

lemma penalty_mono: "a \<le> b \<Longrightarrow> real (unat a) * active_request_penalty_ms \<le> real (unat b) * active_request_penalty_ms"
  by (rule mult_right_mono) (simp_all add: active_request_penalty_ms_def word_le_nat_alt del: of_nat_unat)

lemma lex_fst_mono: "a \<le> b \<Longrightarrow> fst a \<le> fst b" for a b :: "'a::linorder \<times> 'b::linorder"
  by (auto simp: less_eq_prod_def)

lemma sample_key_estimate: "sampled_at p i \<Longrightarrow> fst (sample_key p i) = estimate p i"
  by (auto simp: sample_key_def estimate_def sampled_at_def)

lemma rank_candidates_best:
  assumes "pool_ready p"
  shows "\<exists>s u. rank_candidates p = Some (s, u) \<and> best_of p (sampled_at p) s \<and>
     best_of p (\<lambda>i. \<not> sampled_at p i) u \<and>
     (\<forall>c. s = Some c \<longrightarrow> cand_score c = estimate p (cand_idx c)) \<and>
     (\<forall>c. u = Some c \<longrightarrow> s \<noteq> None \<longrightarrow> cand_score c = estimate p (cand_idx c))"
proof -
  obtain rk where rk: "rank_loop p (healthy p)
       \<lparr>rk_unsampled = None, rk_sampled = None, rk_latency_sum = 0, rk_count = 0\<rparr> = Some rk"
    and R: "ranked p (healthy p) rk" using rank_loop_healthy [OF assms] by blast
  have s: "map_option cand_key (rk_sampled rk) = min_opt (sample_key p ` {i \<in> set (healthy p). sampled_at p i})"
    and u: "rk_unsampled rk = min_opt ((\<lambda>i. (active_at p i, i)) ` {i \<in> set (healthy p). \<not> sampled_at p i})"
    and b: "rk_latency_sum rk / real (rk_count rk) = baseline p"
    and n: "rk_count rk = length (filter (sampled_at p) (healthy p))"
    using R by (simp_all add: ranked_def baseline_def)
  have est: "baseline p + penalty_at p i = estimate p i" if "\<not> sampled_at p i" for i
    using that by (simp add: estimate_def sampled_at_def)
  have sampled: "best_of p (sampled_at p) (rk_sampled rk) \<and>
      (\<forall>c. rk_sampled rk = Some c \<longrightarrow> cand_score c = estimate p (cand_idx c))"
  proof (cases "rk_sampled rk")
    case None
    then show ?thesis using s by (auto simp: best_of_def min_opt_def split: if_splits)
  next
    case (Some c)
    then have "min_opt (sample_key p ` {i \<in> set (healthy p). sampled_at p i}) = Some (cand_key c)" using s by simp
    from min_opt_SomeD [OF _ this] obtain i where
      i: "i \<in> set (healthy p)" "sampled_at p i" "cand_key c = sample_key p i"
      and le: "\<forall>j \<in> set (healthy p). sampled_at p j \<longrightarrow> cand_key c \<le> sample_key p j" by auto
    have "fst (cand_key c) \<le> estimate p j" if "j \<in> set (healthy p)" "sampled_at p j" for j
      using le that sample_key_estimate [OF that(2)] by (metis lex_fst_mono)
    then show ?thesis using Some i sample_key_estimate [OF i(2)]
      by (auto simp: best_of_def cand_key_def sample_key_def)
  qed
  have unsampled: "best_of p (\<lambda>i. \<not> sampled_at p i) (map_option (\<lambda>(a, i).
      \<lparr>cand_score = f a, cand_active = a, cand_idx = i\<rparr>) (rk_unsampled rk))" for f
  proof (cases "rk_unsampled rk")
    case None
    then show ?thesis using u by (auto simp: best_of_def min_opt_def split: if_splits)
  next
    case (Some ai)
    then have "min_opt ((\<lambda>i. (active_at p i, i)) ` {i \<in> set (healthy p). \<not> sampled_at p i}) = Some ai" using u by simp
    from min_opt_SomeD [OF _ this] obtain i where
      i: "i \<in> set (healthy p)" "\<not> sampled_at p i" "ai = (active_at p i, i)"
      and le: "\<forall>j \<in> set (healthy p). \<not> sampled_at p j \<longrightarrow> ai \<le> (active_at p j, j)" by auto
    have "active_at p i \<le> active_at p j" if "j \<in> set (healthy p)" "\<not> sampled_at p j" for j
      using lex_fst_mono [of ai "(active_at p j, j)"] le that i(3) by simp
    then show ?thesis
      using Some i by (simp add: best_of_def est [symmetric] penalty_mono del: of_nat_unat)
  qed
  have cnt: "rk_count rk = 0 \<longleftrightarrow> rk_sampled rk = None"
    using sampled by (auto simp: n best_of_def filter_empty_conv split: option.splits)
  show ?thesis
  proof (cases "rk_sampled rk")
    case None
    then show ?thesis using rk cnt sampled unsampled [of "\<lambda>_. 0"] by (simp add: rank_candidates_def Let_def)
  next
    case (Some c)
    let ?u = "map_option (\<lambda>(a, i). \<lparr>cand_score = baseline p + real (unat a) * active_request_penalty_ms,
        cand_active = a, cand_idx = i\<rparr>) (rk_unsampled rk)"
    have "rank_candidates p = Some (Some c, ?u)" using rk cnt Some b by (simp add: rank_candidates_def Let_def)
    moreover note unsampled [of "\<lambda>a. baseline p + real (unat a) * active_request_penalty_ms"]
    moreover have "\<forall>c. ?u = Some c \<longrightarrow> cand_score c = estimate p (cand_idx c)"
      using calculation(2) by (auto simp: best_of_def est simp del: of_nat_unat)
    ultimately show ?thesis using sampled [unfolded Some] by blast
  qed
qed

section \<open>The load-aware strategies as strategies\<close>

interpretation lcp: backend_picker "\<lambda>_ (_ :: unit) p. map_option (\<lambda>r. (r, ())) (lc_pick p)" "\<lambda>_. True" "\<lambda>_ _ _. True"
proof
  fix p :: backend_pool and n :: nat and st :: unit
  assume A: "pool_ready p"
  show "\<exists>res st'. map_option (\<lambda>r. (r, ())) (lc_pick p) = Some (res, st') \<and> True \<and> pick_ok p res"
  proof (cases "healthy p = []")
    case True
    then show ?thesis by (simp add: lc_pick_def lc_pick_readonly_def pick_ok_def)
  next
    case False
    have "Min ((\<lambda>i. (active_at p i, i)) ` set (healthy p)) \<in> (\<lambda>i. (active_at p i, i)) ` set (healthy p)"
      using False by (intro Min_in) auto
    then show ?thesis using lc_pick_min [OF A False] by (auto simp: pick_ok_def)
  qed
qed simp

lemma best_of_SomeD: "best_of p P (Some c) \<Longrightarrow> cand_idx c \<in> set (healthy p)"
  by (simp add: best_of_def)

lemma best_of_NoneD: "best_of p P None \<Longrightarrow> best_of p (\<lambda>i. \<not> P i) None \<Longrightarrow> healthy p = []"
  by (auto simp: best_of_def)

lemma periodic_exploration_member:
  "periodic_exploration la p = (Some i, la') \<Longrightarrow> i \<in> set (healthy p)"
  by (auto simp: periodic_exploration_def Let_def vec_get_def split: if_splits)

interpretation lap: backend_picker "\<lambda>_. la_pick" "\<lambda>_. True" "\<lambda>_ _ _. True"
proof
  fix p :: backend_pool and n :: nat and st :: latency_aware
  assume A: "pool_ready p"
  obtain e st1 where pe: "periodic_exploration st p = (e, st1)" by force
  obtain s u where su: "rank_candidates p = Some (s, u)" "best_of p (sampled_at p) s"
    "best_of p (\<lambda>i. \<not> sampled_at p i) u" using rank_candidates_best [OF A] by blast
  show "\<exists>res st'. la_pick st p = Some (res, st') \<and> True \<and> pick_ok p res"
    using pe su periodic_exploration_member [of st p] best_of_NoneD [of p "sampled_at p"]
    by (auto simp: la_pick_def pick_ok_def dest!: best_of_SomeD
        split: option.splits prod.splits bool.splits)
qed simp

interpretation lar: backend_picker "\<lambda>_ (_ :: unit) p. map_option (\<lambda>r. (r, ())) (la_pick_readonly p)" "\<lambda>_. True" "\<lambda>_ _ _. True"
proof
  fix p :: backend_pool and n :: nat and st :: unit
  assume A: "pool_ready p"
  obtain s u where su: "rank_candidates p = Some (s, u)" "best_of p (sampled_at p) s"
    "best_of p (\<lambda>i. \<not> sampled_at p i) u" using rank_candidates_best [OF A] by blast
  show "\<exists>res st'. map_option (\<lambda>r. (r, ())) (la_pick_readonly p) = Some (res, st') \<and> True \<and> pick_ok p res"
    using su best_of_NoneD [of p "sampled_at p"]
    by (auto simp: la_pick_readonly_def pick_ok_def dest!: best_of_SomeD split: option.splits)
qed simp

section \<open>Exploration\<close>

fun la_picks :: "nat \<Rightarrow> latency_aware \<Rightarrow> backend_pool \<Rightarrow> (nat option list \<times> latency_aware) option" where
  "la_picks 0 la p = Some ([], la)"
| "la_picks (Suc k) la p = do {
     (r, la') \<leftarrow> la_pick la p;
     (rest, la'') \<leftarrow> la_picks k la' p;
     Some (r # rest, la'')
   }"

text \<open>A pick counts as one selection, and advances the exploration cursor exactly when the
  selection counter reaches a multiple of the interval; the wrap-around of the counter does not
  disturb the period, which divides 2^64.\<close>

lemma multiple_of_32: "w mod 32 = 0 \<longleftrightarrow> unat w mod 32 = 0" for w :: u64
  by (simp add: unat_mod flip: unat_eq_0)

lemma la_pick_counters:
  assumes "pool_ready p" and "2 \<le> length (healthy p)" and sel: "selections la = of_nat S"
  shows "\<exists>r la'. la_pick la p = Some (r, la') \<and> selections la' = of_nat (Suc S) \<and>
     (if Suc S mod 32 = 0
      then exploration_cursor la' = exploration_cursor la + 1 \<and>
           r = Some (healthy p ! (unat (exploration_cursor la) mod length (healthy p)))
      else exploration_cursor la' = exploration_cursor la)"
proof -
  have "unat (of_nat (Suc S) :: u64) mod 32 = Suc S mod 32"
    by (simp only: unsigned_of_nat take_bit_eq_mod) (simp add: mod_mod_cancel)
  then have per: "(selections la + 1) mod exploration_interval = 0 \<longleftrightarrow> Suc S mod 32 = 0"
    using multiple_of_32 [of "selections la + 1"] by (simp add: sel exploration_interval_def add.commute)
  have lt: "x mod length (healthy p) < length (healthy p)" for x
    using assms(2) by (intro mod_less_divisor) linarith
  obtain s u where su: "rank_candidates p = Some (s, u)" using rank_candidates_best [OF assms(1)] by blast
  have nxt: "of_nat (Suc S) = selections la + 1" by (simp add: sel add.commute)
  show ?thesis
    unfolding nxt using assms(2) su
    by (auto simp: la_pick_def periodic_exploration_def Let_def per vec_get_def should_probe_unsampled_def lt
        split: option.splits prod.splits bool.splits)
qed

lemma la_picks_explored:
  assumes "pool_ready p" and "2 \<le> length (healthy p)"
  shows "selections la = of_nat S \<Longrightarrow>
     \<exists>rs la'. la_picks k la p = Some (rs, la') \<and> length rs = k \<and>
       (\<forall>j < k. Suc (S + j) mod 32 = 0 \<longrightarrow>
          rs ! j = Some (healthy p ! (unat (exploration_cursor la + of_nat ((S + j) div 32 - S div 32))
                                       mod length (healthy p))))"
proof (induction k arbitrary: la S)
  case (Suc k)
  obtain r la1 where r: "la_pick la p = Some (r, la1)" "selections la1 = of_nat (Suc S)"
    and c: "if Suc S mod 32 = 0
      then exploration_cursor la1 = exploration_cursor la + 1 \<and>
           r = Some (healthy p ! (unat (exploration_cursor la) mod length (healthy p)))
      else exploration_cursor la1 = exploration_cursor la"
    using la_pick_counters [OF assms Suc.prems] by blast
  obtain rs la' where rs: "la_picks k la1 p = Some (rs, la')" "length rs = k"
    "\<forall>j < k. Suc (Suc S + j) mod 32 = 0 \<longrightarrow>
       rs ! j = Some (healthy p ! (unat (exploration_cursor la1 + of_nat ((Suc S + j) div 32 - Suc S div 32))
                                    mod length (healthy p)))"
    using Suc.IH [OF r(2)] by blast
  have shift: "exploration_cursor la1 + of_nat ((Suc S + j) div 32 - Suc S div 32) =
      exploration_cursor la + of_nat ((S + Suc j) div 32 - S div 32)" for j
  proof (cases "Suc S mod 32 = 0")
    case True
    have q: "Suc S div 32 = Suc (S div 32)" using True by (simp add: div_Suc)
    have "Suc S div 32 \<le> (Suc S + j) div 32" by (rule div_le_mono) simp
    then have "(Suc S + j) div 32 - S div 32 = Suc ((Suc S + j) div 32 - Suc S div 32)"
      unfolding q by arith
    then have "(of_nat ((Suc S + j) div 32 - S div 32) :: usize) = 1 + of_nat ((Suc S + j) div 32 - Suc S div 32)"
      by simp
    then show ?thesis using True c by (simp add: add_Suc_shift)
  next
    case False
    then show ?thesis using c by (simp add: div_Suc)
  qed
  have "(r # rs) ! j = Some (healthy p ! (unat (exploration_cursor la + of_nat ((S + j) div 32 - S div 32))
        mod length (healthy p)))" if "j < Suc k" "Suc (S + j) mod 32 = 0" for j
    using that c rs(3) [unfolded shift] by (cases j) auto
  then show ?case using r(1) rs(1,2) by auto
qed simp

text \<open>Among consecutive exploration slots every position of the healthy vector has its turn.\<close>

lemma rotation_hits:
  assumes "t < (n :: nat)"
  shows "\<exists>e < n. (c + e) mod n = t"
proof -
  have "(c + (t + n - c mod n) mod n) mod n = t"
  proof -
    have le: "c mod n \<le> t + n" using assms by (simp add: less_imp_le trans_less_add2)
    have "(c + (t + n - c mod n) mod n) mod n = (c mod n + (t + n - c mod n)) mod n"
      by (simp add: mod_simps)
    also have "\<dots> = (t + n) mod n" using le by simp
    finally show ?thesis using assms by simp
  qed
  moreover have "(t + n - c mod n) mod n < n" using assms by simp
  ultimately show ?thesis by blast
qed

lemma exploration_slot:
  assumes "j = 32 * (S div 32 + e + 1) - Suc S"
  shows "j < 32 * Suc e" and "Suc (S + j) mod 32 = 0" and "(S + j) div 32 - S div 32 = e"
proof -
  have "S mod 32 < 32" by simp
  then have "Suc S \<le> 32 * (S div 32 + e + 1)" using div_mult_mod_eq [of S 32] by simp
  then have "Suc (S + j) = 32 * (S div 32 + e + 1)" using assms by simp
  then have sum: "S + j = 31 + 32 * (S div 32 + e)" by simp
  then have "(S + j) div 32 = S div 32 + e" by simp
  then show "(S + j) div 32 - S div 32 = e" by simp
  show "Suc (S + j) mod 32 = 0" unfolding sum by simp
  have "32 * (S div 32) \<le> S" by simp
  then show "j < 32 * Suc e" using sum by simp
qed

section \<open>Properties\<close>

text \<open>
  C15. Least connections is optimal: it answers the healthy backend with the smallest pair of
  active requests and index, hence one with the fewest active requests, and among those the one
  with the smallest index.
\<close>

theorem least_connections_minimal:
  assumes "pool_ready p" and "healthy p \<noteq> []"
  shows "\<exists>i \<in> set (healthy p). lc_pick p = Some (Some i) \<and>
     (\<forall>j \<in> set (healthy p). active_at p i < active_at p j \<or> active_at p i = active_at p j \<and> i \<le> j)"
proof -
  let ?K = "(\<lambda>i. (active_at p i, i)) ` set (healthy p)"
  have "Min ?K \<in> ?K" using assms(2) by (intro Min_in) auto
  then obtain i where i: "i \<in> set (healthy p)" "Min ?K = (active_at p i, i)" by auto
  have "(active_at p i, i) \<le> (active_at p j, j)" if "j \<in> set (healthy p)" for j
    using Min_le [of ?K "(active_at p j, j)"] that i(2) by auto
  then have "active_at p i < active_at p j \<or> active_at p i = active_at p j \<and> i \<le> j" if "j \<in> set (healthy p)" for j
    using that by (fastforce simp: less_eq_prod_def)
  then show ?thesis using i lc_pick_min [OF assms] by auto
qed

definition sample_loaded :: backend_pool where
  "sample_loaded = begin_request 0 (new_from_states (map backend_state_new
     [\<lparr>bc_id = ''a'', bc_address = ''a'', bc_weight = 1, bc_health_check = None\<rparr>,
      \<lparr>bc_id = ''b'', bc_address = ''b'', bc_weight = 1, bc_health_check = None\<rparr>]))"

lemma sample_loaded_simps:
  "healthy sample_loaded = [0, 1]" "length (backends sample_loaded) = 2"
  "weight (backends sample_loaded ! 0) = 1" "weight (backends sample_loaded ! Suc 0) = 1"
  "active_at sample_loaded 0 = 1" "active_at sample_loaded (Suc 0) = 0"
  by (simp_all add: sample_loaded_def new_from_states_def backend_state_new_def is_healthy_def
      begin_request_def vec_get_def)

lemma sample_loaded_ready: "pool_ready sample_loaded"
  by (simp add: pool_ready_def sample_loaded_simps)

theorem least_connections_minimal_witness: "lc_pick sample_loaded = Some (Some 1)"
  using least_connections_minimal [OF sample_loaded_ready] by (auto simp: sample_loaded_simps)

text \<open>
  The read-only latency-aware choice is optimal: it answers a healthy backend whose estimate (the
  moving average of its latency, or the mean of the known averages when it has none, plus ten
  milliseconds per active request) is minimal.
\<close>

theorem latency_readonly_minimal:
  assumes "pool_ready p" and "healthy p \<noteq> []"
  shows "\<exists>i \<in> set (healthy p). la_pick_readonly p = Some (Some i) \<and>
     (\<forall>j \<in> set (healthy p). estimate p i \<le> estimate p j)"
proof -
  obtain s u where su: "rank_candidates p = Some (s, u)" "best_of p (sampled_at p) s"
    "best_of p (\<lambda>i. \<not> sampled_at p i) u"
    "\<forall>c. s = Some c \<longrightarrow> cand_score c = estimate p (cand_idx c)"
    "\<forall>c. u = Some c \<longrightarrow> s \<noteq> None \<longrightarrow> cand_score c = estimate p (cand_idx c)"
    using rank_candidates_best [OF assms(1)] by blast
  show ?thesis
  proof (cases s)
    case None
    then obtain c where "u = Some c" using su(2,3) assms(2) best_of_NoneD [of p "sampled_at p"] by (cases u) auto
    then show ?thesis using su None by (auto simp: la_pick_readonly_def best_of_def)
  next
    case (Some c)
    then show ?thesis
      using su by (cases u) (fastforce simp: la_pick_readonly_def best_of_def)+
  qed
qed

theorem latency_readonly_minimal_witness:
  "\<exists>i. la_pick_readonly sample_loaded = Some (Some i) \<and> estimate sample_loaded i \<le> estimate sample_loaded 1"
proof -
  have "healthy sample_loaded \<noteq> []" "1 \<in> set (healthy sample_loaded)" by (simp_all add: sample_loaded_simps)
  then show ?thesis using latency_readonly_minimal [OF sample_loaded_ready] by blast
qed

text \<open>
  C16. Latency awareness never starves a healthy backend: on a stable membership of \<open>n \<ge> 2\<close> healthy
  backends, every one of them is picked at least once in any \<open>32 n\<close> consecutive picks, even if its
  latency estimate is the worst, unless the exploration cursor wraps around in that window.
\<close>

theorem latency_exploration_covers:
  assumes "pool_ready p" and "n = length (healthy p)" and "2 \<le> n"
    and "unat (exploration_cursor la) + n \<le> 2 ^ 64"
  shows "\<exists>rs la'. la_picks (32 * n) la p = Some (rs, la') \<and> Some ` set (healthy p) \<subseteq> set rs"
proof -
  let ?S = "unat (selections la)" and ?c = "exploration_cursor la"
  obtain rs la' where rs: "la_picks (32 * n) la p = Some (rs, la')" "length rs = 32 * n"
    "\<forall>j < 32 * n. Suc (?S + j) mod 32 = 0 \<longrightarrow>
       rs ! j = Some (healthy p ! (unat (?c + of_nat ((?S + j) div 32 - ?S div 32)) mod n))"
    using la_picks_explored [of p la ?S "32 * n"] assms by auto
  have "Some (healthy p ! t) \<in> set rs" if t: "t < n" for t
  proof -
    obtain e where e: "e < n" "(unat ?c + e) mod n = t" using rotation_hits [OF t] by blast
    have cur: "unat (?c + of_nat e) = unat ?c + e"
      using e(1) assms(4) by (subst unat_add_lem [THEN iffD1]) (simp_all add: unat_of_nat_small)
    define j where "j = 32 * (?S div 32 + e + 1) - Suc ?S"
    then have jn: "j < 32 * n" and jm: "Suc (?S + j) mod 32 = 0" and slot: "(?S + j) div 32 - ?S div 32 = e"
      using exploration_slot [of j ?S e] e(1) by auto
    have "rs ! j = Some (healthy p ! (unat (?c + of_nat ((?S + j) div 32 - ?S div 32)) mod n))"
      by (rule rs(3) [rule_format, OF jn jm])
    then have "rs ! j = Some (healthy p ! t)" by (simp only: slot cur e(2))
    then show ?thesis using rs(2) jn nth_mem [of j rs] by simp
  qed
  then have "Some ` set (healthy p) \<subseteq> set rs" using assms(2) by (auto simp: in_set_conv_nth)
  then show ?thesis using rs(1) by blast
qed

theorem latency_exploration_covers_witness:
  "\<exists>rs la'. la_picks 64 latency_aware_new sample_loaded = Some (rs, la') \<and> Some ` {0, 1} \<subseteq> set rs"
  using latency_exploration_covers [OF sample_loaded_ready, of 2 latency_aware_new]
  by (simp add: sample_loaded_simps latency_aware_new_def)

end
