(* ===== verification/Lb_Facade.thy ===== *)
theory Lb_Facade
  imports Lb_Round_Robin Lb_Random Lb_Consistent_Hash Lb_Load_Aware Rust_Strings
begin

text \<open>
  The strategy facade (\<open>load_balancing.rs\<close>) and the load-balancing part of the runtime
  configuration (\<open>runtime/policies/lb.rs\<close>): parsing of strategy names and request key
  specifications, the capabilities of a strategy, and the dispatch of a pick.
\<close>

section \<open>Configuration\<close>

datatype lb_strategy =
    StRoundRobin | StConsistentHash | StRandom | StLeastConnections | StLatencyAware | StStickyCid | StOther

definition round_robin_names :: "string list" where
  "round_robin_names = [''round-robin'', ''round_robin'', ''rr'']"
definition consistent_hash_names :: "string list" where
  "consistent_hash_names = [''consistent-hash'', ''consistent_hash'', ''ch'']"
definition least_connections_names :: "string list" where
  "least_connections_names = [''least-connections'', ''least_connections'', ''lc'']"
definition latency_aware_names :: "string list" where
  "latency_aware_names = [''latency-aware'', ''latency_aware'', ''la'']"
definition sticky_cid_names :: "string list" where
  "sticky_cid_names = [''sticky-cid'', ''sticky_cid'', ''cid-sticky'', ''cid_sticky'']"

lemmas strategy_names = round_robin_names_def consistent_hash_names_def least_connections_names_def
  latency_aware_names_def sticky_cid_names_def

definition from_lb_type :: "string \<Rightarrow> lb_strategy" where
  "from_lb_type lb_type =
     (let mode = to_ascii_lowercase (trim lb_type) in
      if mode \<in> set round_robin_names then StRoundRobin
      else if mode \<in> set consistent_hash_names then StConsistentHash
      else if mode = ''random'' then StRandom
      else if mode \<in> set least_connections_names then StLeastConnections
      else if mode \<in> set latency_aware_names then StLatencyAware
      else if mode \<in> set sticky_cid_names then StStickyCid
      else StOther)"

fun canonical_name :: "lb_strategy \<Rightarrow> string" where
  "canonical_name StRoundRobin = ''round-robin''"
| "canonical_name StConsistentHash = ''consistent-hash''"
| "canonical_name StRandom = ''random''"
| "canonical_name StLeastConnections = ''least-connections''"
| "canonical_name StLatencyAware = ''latency-aware''"
| "canonical_name StStickyCid = ''sticky-cid''"
| "canonical_name StOther = ''unsupported''"

definition supports_readonly_alternate_pick :: "lb_strategy \<Rightarrow> bool" where
  "supports_readonly_alternate_pick s \<longleftrightarrow> s \<notin> {StConsistentHash, StStickyCid, StOther}"

datatype weight_policy = Honored | RejectedAsInvalid | Unsupported

fun backend_weight_policy :: "lb_strategy \<Rightarrow> weight_policy" where
  "backend_weight_policy StRoundRobin = Honored"
| "backend_weight_policy StConsistentHash = Honored"
| "backend_weight_policy StRandom = Honored"
| "backend_weight_policy StStickyCid = Honored"
| "backend_weight_policy StLeastConnections = RejectedAsInvalid"
| "backend_weight_policy StLatencyAware = RejectedAsInvalid"
| "backend_weight_policy StOther = Unsupported"

definition honors_backend_weight :: "lb_strategy \<Rightarrow> bool" where
  "honors_backend_weight s \<longleftrightarrow> backend_weight_policy s = Honored"

definition rejects_custom_backend_weight :: "lb_strategy \<Rightarrow> bool" where
  "rejects_custom_backend_weight s \<longleftrightarrow> backend_weight_policy s = RejectedAsInvalid"

datatype key_spec =
    KsPath | KsAuthority | KsMethod | KsCid | KsStickyCid | KsPeerIp | KsClientIp | KsBearerToken
  | KsHeader string | KsCookie string | KsQuery string

datatype config_error = UnsupportedKeySpec string | UnsupportedLbType string

definition key_spec_normalize :: "string \<Rightarrow> config_error + key_spec" where
  "key_spec_normalize raw =
     (let normalized = to_ascii_lowercase (trim raw) in
      if normalized = ''path'' then Inr KsPath
      else if normalized = ''authority'' then Inr KsAuthority
      else if normalized = ''method'' then Inr KsMethod
      else if normalized = ''cid'' then Inr KsCid
      else if normalized = ''sticky-cid'' then Inr KsStickyCid
      else if normalized = ''peer_ip'' then Inr KsPeerIp
      else if normalized = ''client_ip'' then Inr KsClientIp
      else if normalized = ''bearer_token'' then Inr KsBearerToken
      else case split_once (CHR '':'') normalized of
          None \<Rightarrow> Inl (UnsupportedKeySpec raw)
        | Some (source, key_name) \<Rightarrow>
            if trim key_name = [] then Inl (UnsupportedKeySpec raw)
            else if source = ''header'' then Inr (KsHeader key_name)
            else if source = ''cookie'' then Inr (KsCookie key_name)
            else if source = ''query'' then Inr (KsQuery key_name)
            else Inl (UnsupportedKeySpec raw))"

record alternate_policy =
  readonly_lb_pick :: bool
  healthy_fallback :: bool

record lb_policy =
  lp_strategy :: lb_strategy
  lp_key :: "string option"
  lp_key_spec :: "key_spec option"
  lp_alternate :: alternate_policy

definition lb_policy_normalize :: "string \<Rightarrow> string option \<Rightarrow> config_error + lb_policy" where
  "lb_policy_normalize lb_type key =
     (let strategy = from_lb_type lb_type;
          policy = (\<lambda>spec. \<lparr>lp_strategy = strategy, lp_key = normalize_optional_string key, lp_key_spec = spec,
             lp_alternate = \<lparr>readonly_lb_pick = supports_readonly_alternate_pick strategy, healthy_fallback = True\<rparr>\<rparr>)
      in if strategy = StOther then Inl (UnsupportedLbType lb_type)
         else case key of
             None \<Rightarrow> Inr (policy None)
           | Some raw \<Rightarrow>
               (case key_spec_normalize raw of Inl e \<Rightarrow> Inl e | Inr spec \<Rightarrow> Inr (policy (Some spec))))"

section \<open>The strategy facade\<close>

datatype load_balancing =
    LbRoundRobin round_robin
  | LbConsistentHash consistent_hash
  | LbRandom weighted_healthy_members
  | LbLeastConnections
  | LbLatencyAware latency_aware
  | LbStickyCid consistent_hash

definition from_config :: "string \<Rightarrow> string + load_balancing" where
  "from_config v =
     (let mode = to_ascii_lowercase (trim v) in
      if mode \<in> set round_robin_names then Inr (LbRoundRobin round_robin_new)
      else if mode \<in> set consistent_hash_names then Inr (LbConsistentHash (consistent_hash_new default_replicas))
      else if mode = ''random'' then Inr (LbRandom random_new)
      else if mode \<in> set least_connections_names then Inr LbLeastConnections
      else if mode \<in> set latency_aware_names then Inr (LbLatencyAware latency_aware_new)
      else if mode \<in> set sticky_cid_names then Inr (LbStickyCid (consistent_hash_new default_replicas))
      else Inl (''unsupported load balancing type: '' @ v))"

text \<open>A pick also takes the random source, which only the random strategy consults.\<close>

fun lb_pick :: "(u64 \<Rightarrow> u64) \<times> string \<Rightarrow> load_balancing \<Rightarrow> backend_pool \<Rightarrow> (nat option \<times> load_balancing) option" where
  "lb_pick (g, key) (LbRoundRobin rr) p = map_option (\<lambda>(r, s). (r, LbRoundRobin s)) (rr_pick rr p)"
| "lb_pick (g, key) (LbConsistentHash ch) p = map_option (\<lambda>(r, s). (r, LbConsistentHash s)) (ch_pick key ch p)"
| "lb_pick (g, key) (LbRandom m) p = Some (case random_pick g m p of (r, s) \<Rightarrow> (r, LbRandom s))"
| "lb_pick (g, key) LbLeastConnections p = map_option (\<lambda>r. (r, LbLeastConnections)) (lc_pick p)"
| "lb_pick (g, key) (LbLatencyAware la) p = map_option (\<lambda>(r, s). (r, LbLatencyAware s)) (la_pick la p)"
| "lb_pick (g, key) (LbStickyCid ch) p = map_option (\<lambda>(r, s). (r, LbStickyCid s)) (sticky_pick key ch p)"

fun lb_pick_readonly :: "(u64 \<Rightarrow> u64) \<times> string \<Rightarrow> load_balancing \<Rightarrow> backend_pool \<Rightarrow> (nat option \<times> load_balancing) option" where
  "lb_pick_readonly (g, key) (LbRoundRobin rr) p = map_option (\<lambda>(r, s). (r, LbRoundRobin s)) (rr_pick_readonly rr p)"
| "lb_pick_readonly (g, key) (LbRandom m) p = Some (case random_pick_readonly g m p of (r, s) \<Rightarrow> (r, LbRandom s))"
| "lb_pick_readonly (g, key) LbLeastConnections p = map_option (\<lambda>r. (r, LbLeastConnections)) (lc_pick_readonly p)"
| "lb_pick_readonly (g, key) (LbLatencyAware la) p = map_option (\<lambda>r. (r, LbLatencyAware la)) (la_pick_readonly p)"
| "lb_pick_readonly (g, key) (LbConsistentHash ch) p = Some (None, LbConsistentHash ch)"
| "lb_pick_readonly (g, key) (LbStickyCid ch) p = Some (None, LbStickyCid ch)"

fun lb_name :: "load_balancing \<Rightarrow> string" where
  "lb_name (LbRoundRobin _) = ''round-robin''"
| "lb_name (LbConsistentHash _) = ''consistent-hash''"
| "lb_name (LbRandom _) = ''random''"
| "lb_name LbLeastConnections = ''least-connections''"
| "lb_name (LbLatencyAware _) = ''latency-aware''"
| "lb_name (LbStickyCid _) = ''sticky-cid''"

definition from_runtime_strategy :: "lb_strategy \<Rightarrow> string + load_balancing" where
  "from_runtime_strategy s = from_config (canonical_name s)"

section \<open>The facade as a strategy\<close>

fun lb_coherent :: "nat \<Rightarrow> backend_pool \<Rightarrow> load_balancing \<Rightarrow> bool" where
  "lb_coherent n p (LbRoundRobin rr) = rr_coherent n p rr"
| "lb_coherent n p (LbConsistentHash ch) = ch_coherent n p ch"
| "lb_coherent n p (LbRandom m) = random_coherent n p m"
| "lb_coherent n p LbLeastConnections = True"
| "lb_coherent n p (LbLatencyAware la) = True"
| "lb_coherent n p (LbStickyCid ch) = ch_coherent n p ch"

interpretation lbp: backend_picker lb_pick "\<lambda>(g, key). gen_range_ok g" lb_coherent
proof
  fix p :: backend_pool and r :: "(u64 \<Rightarrow> u64) \<times> string" and n st
  assume A: "pool_ready p" "case r of (g, key) \<Rightarrow> gen_range_ok g" "lb_coherent n p st" "n < 2 ^ 64"
  obtain g key where r: "r = (g, key)" "gen_range_ok g" using A(2) by (cases r) auto
  show "\<exists>res st'. lb_pick r st p = Some (res, st') \<and> lb_coherent n p st' \<and> pick_ok p res"
  proof (cases st)
    case (LbRoundRobin s)
    then show ?thesis using rrp.pick_member [OF A(1) _ _ A(4), of s] A(3) r by fastforce
  next
    case (LbConsistentHash s)
    then show ?thesis using chp.pick_member [OF A(1) _ _ A(4), of s key] A(3) r by fastforce
  next
    case (LbRandom s)
    then show ?thesis using rnd.pick_member [OF A(1) r(2) _ A(4), of s] A(3) r by (fastforce split: prod.splits)
  next
    case LbLeastConnections
    then show ?thesis using lcp.pick_member [OF A(1)] A(4) r by fastforce
  next
    case (LbLatencyAware s)
    then show ?thesis using lap.pick_member [OF A(1), of n s] A(4) r by fastforce
  next
    case (LbStickyCid s)
    then show ?thesis using stp.pick_member [OF A(1) _ _ A(4), of s key] A(3) r by fastforce
  qed
next
  fix p p' :: backend_pool and n st
  assume "lb_coherent n p st" "pool_evolves p p'"
  then show "lb_coherent (Suc n) p' st"
    using rrp.coherent_evolves chp.coherent_evolves rnd.coherent_evolves by (cases st) auto
qed

section \<open>Properties\<close>

text \<open>
  The two parsers of strategy names agree: the facade builds a strategy exactly for the names
  that the runtime configuration recognises, and the strategy it builds carries the canonical
  name of the recognised one.
\<close>

theorem strategy_parsers_agree:
  "case from_config v of
     Inr lb \<Rightarrow> from_lb_type v \<noteq> StOther \<and> lb_name lb = canonical_name (from_lb_type v)
   | Inl e \<Rightarrow> from_lb_type v = StOther"
  by (simp add: from_config_def from_lb_type_def Let_def)

lemma from_lb_type_canonical: "from_lb_type (canonical_name s) = s"
  by (cases s) (simp_all add: from_lb_type_def Let_def str_eval strategy_names)

text \<open>
  Canonical names round-trip: parsing the canonical name of a strategy gives the strategy
  back, and building the load balancer of a supported runtime strategy cannot fail.
\<close>

theorem canonical_name_roundtrip:
  "from_lb_type (canonical_name s) = s \<and>
   (case from_runtime_strategy s of Inr lb \<Rightarrow> lb_name lb = canonical_name s | Inl e \<Rightarrow> s = StOther)"
proof -
  have "case from_config (canonical_name s) of
      Inr lb \<Rightarrow> lb_name lb = canonical_name (from_lb_type (canonical_name s))
    | Inl e \<Rightarrow> from_lb_type (canonical_name s) = StOther"
    by (simp add: from_config_def from_lb_type_def Let_def)
  then show ?thesis by (simp add: from_runtime_strategy_def from_lb_type_canonical split: sum.splits)
qed

lemma from_config_coherent: "from_config v = Inr lb \<Longrightarrow> lb_coherent n p lb"
  by (auto simp: from_config_def Let_def rr_coherent_def round_robin_new_def random_coherent_def
      random_new_def ch_coherent_new split: if_splits)

text \<open>
  C17. Whatever strategy is configured, a pick answers a member of the current healthy vector, and
  nothing only if no backend is healthy, through any interleaving of fewer than 2^64 pool changes
  and picks; in particular no cached schedule, member table or hash ring is used after the
  membership it was built from has changed.
\<close>

theorem configured_strategy_picks_healthy:
  assumes "from_config v = Inr lb" and "events_ok (\<lambda>(g, key). gen_range_ok g) evs p" and "length evs < 2 ^ 64"
  shows "\<exists>out. picker_run lb_pick evs p lb = Some out \<and> list_all (\<lambda>(q, res). pick_ok q res) out"
  using lbp.coherent_run [OF assms(2) from_config_coherent [OF assms(1), of 0]] assms(3) by simp

theorem configured_strategy_picks_healthy_witness:
  "\<exists>out. picker_run lb_pick [Request (\<lambda>n. 0, ''k''), Evolve sample_ring_pool, Request (\<lambda>n. n - 1, ''k'')]
       sample_ring_pool (LbRandom random_new) = Some out"
proof -
  have cfg: "from_config ''random'' = Inr (LbRandom random_new)"
    by (simp add: from_config_def Let_def str_eval strategy_names)
  have "gen_range_ok (\<lambda>n. 0)" by (simp add: gen_range_ok_def)
  moreover have "gen_range_ok (\<lambda>n. n - 1)"
    unfolding gen_range_ok_def by (metis measure_unat unat_gt_0 unat_minus_one word_gt_0 word_less_nat_alt diff_less zero_less_one)
  ultimately have "events_ok (\<lambda>(g, key :: string). gen_range_ok g)
      [Request (\<lambda>n. 0, ''k''), Evolve sample_ring_pool, Request (\<lambda>n. n - 1, ''k'')] sample_ring_pool"
    by (simp add: sample_ring_ready)
  from configured_strategy_picks_healthy [OF cfg this] show ?thesis by auto
qed

end
