(* ===== verification/Lb_Pool_Trace.thy ===== *)
theory Lb_Pool_Trace
  imports Lb_Pool_Inv
begin

text \<open>
  Probe selection, fresh pools, and histories of pool operations: the invariant along every
  history, what an unchanged membership epoch tells a cache, and the behaviour of builds
  without \<open>debug_assertions\<close>.
\<close>

section \<open>Probe selection\<close>

definition probe_ready :: "backend_state \<Rightarrow> bool" where
  "probe_ready b \<longleftrightarrow> active_requests b = 0 \<and>
     (case health_state b of Probing _ budget \<Rightarrow> 0 < budget | _ \<Rightarrow> False)"

lemma probe_ready_acquire:
  "(active_requests b = 0 \<and> fst (try_acquire_probe_permit b)) = probe_ready b"
  by (auto simp: probe_ready_def try_acquire_probe_permit_def split: health_state.splits)

lemma probe_ready_class: "probe_ready b \<Longrightarrow> is_probing b"
  by (auto simp: probe_ready_def backend_defs split: health_state.splits)

lemma probe_scan_unfold:
  fixes start :: nat
  assumes mm: "members_match p" and ne: "probing p \<noteq> []"
  defines "pos o1 \<equiv> (start + o1) mod length (probing p)"
  shows "probe_scan start (o1 # os) p =
    (let index = probing p ! pos o1 in
     if probe_ready (backends p ! index)
     then Some (Some index, p\<lparr>backends := (backends p)[index :=
            snd (try_acquire_probe_permit (backends p ! index))], next_probing_cursor := pos o1 + 1\<rparr>)
     else probe_scan start os p)"
proof -
  have pos: "pos o1 < length (probing p)" using ne by (simp add: pos_def)
  then have idx: "probing p ! pos o1 < length (backends p)"
    using probing_member_range [OF mm] by simp
  show ?thesis
    using pos idx probe_ready_acquire [of "backends p ! (probing p ! pos o1)"]
    by (auto simp: vec_get_def pos_def Let_def split: prod.splits)
qed

declare probe_scan.simps(2) [simp del]

lemma probe_scan_result:
  assumes "members_match p" and "probing p \<noteq> []"
  shows "(\<exists>o1 \<in> set os. let index = probing p ! ((start + o1) mod length (probing p)) in
            probe_ready (backends p ! index) \<and>
            (\<exists>c. probe_scan start os p = Some (Some index, p\<lparr>backends := (backends p)[index :=
               snd (try_acquire_probe_permit (backends p ! index))], next_probing_cursor := c\<rparr>))) \<or>
         probe_scan start os p = Some (None, p) \<and>
         (\<forall>o1 \<in> set os. \<not> probe_ready (backends p ! (probing p ! ((start + o1) mod length (probing p)))))"
proof (induction os)
  case Nil
  then show ?case by simp
next
  case (Cons o1 os)
  then show ?case
    by (cases "probe_ready (backends p ! (probing p ! ((start + o1) mod length (probing p))))")
      (auto simp: probe_scan_unfold [OF assms] Let_def)
qed

lemma rotation_covers:
  assumes "k < n"
  shows "\<exists>o1 \<in> set [0..<n]. (start mod n + o1) mod n = (k::nat)"
proof -
  let ?s = "start mod n"
  have s: "?s < n" using assms by simp
  show ?thesis
  proof (cases "?s \<le> k")
    case True
    then have "(?s + (k - ?s)) mod n = k" using assms by simp
    then show ?thesis using assms by (intro bexI [of _ "k - ?s"]) auto
  next
    case False
    then have "(?s + (n + k - ?s)) mod n = k" using assms s by simp
    then show ?thesis using False s by (intro bexI [of _ "n + k - ?s"]) auto
  qed
qed

text \<open>The pick grants a permit to some ready probing member, whenever there is one.\<close>

lemma pick_probing_backend_result:
  assumes mm: "members_match p"
  shows "(\<exists>index c. index \<in> set (probing p) \<and> probe_ready (backends p ! index) \<and>
            pick_probing_backend beg p = Some (Some index,
              let q = p\<lparr>backends := (backends p)[index := snd (try_acquire_probe_permit (backends p ! index))],
                        next_probing_cursor := c\<rparr>
              in if beg then begin_request index q else q)) \<or>
         pick_probing_backend beg p = Some (None, p) \<and>
         (\<forall>index \<in> set (probing p). \<not> probe_ready (backends p ! index))"
proof (cases "probing p = []")
  case True
  then show ?thesis by (simp add: pick_probing_backend_def)
next
  case ne: False
  let ?n = "length (probing p)"
  let ?start = "next_probing_cursor p mod ?n"
  let ?os = "[0..<?n]"
  from probe_scan_result [OF mm ne, of ?os ?start] show ?thesis
  proof
    assume "\<exists>o1 \<in> set ?os. let index = probing p ! ((?start + o1) mod ?n) in
            probe_ready (backends p ! index) \<and>
            (\<exists>c. probe_scan ?start ?os p = Some (Some index, p\<lparr>backends := (backends p)[index :=
               snd (try_acquire_probe_permit (backends p ! index))], next_probing_cursor := c\<rparr>))"
    then obtain o1 c where o1: "probe_ready (backends p ! (probing p ! ((?start + o1) mod ?n)))"
      "probe_scan ?start ?os p = Some (Some (probing p ! ((?start + o1) mod ?n)),
         p\<lparr>backends := (backends p)[probing p ! ((?start + o1) mod ?n) :=
             snd (try_acquire_probe_permit (backends p ! (probing p ! ((?start + o1) mod ?n))))],
           next_probing_cursor := c\<rparr>)"
      by (auto simp: Let_def)
    have "probing p ! ((?start + o1) mod ?n) \<in> set (probing p)" using ne by simp
    then show ?thesis using o1 ne
      by (intro disjI1 exI [of _ "probing p ! ((?start + o1) mod ?n)"] exI [of _ c])
        (simp add: pick_probing_backend_def Let_def)
  next
    assume none: "probe_scan ?start ?os p = Some (None, p) \<and>
         (\<forall>o1 \<in> set ?os. \<not> probe_ready (backends p ! (probing p ! ((?start + o1) mod ?n))))"
    have "\<not> probe_ready (backends p ! index)" if "index \<in> set (probing p)" for index
    proof -
      from that obtain k where "k < ?n" "probing p ! k = index" by (auto simp: in_set_conv_nth)
      then show ?thesis using none rotation_covers [of k ?n "next_probing_cursor p"] by auto
    qed
    then show ?thesis using none ne by (simp add: pick_probing_backend_def)
  qed
qed

lemma pick_probing_backend_wf:
  assumes wf: "pool_wf clk p"
  shows "\<exists>sel p'. pick_probing_backend beg p = Some (sel, p') \<and> pool_wf clk p' \<and> pool_evolves p p' \<and>
           healthy p' = healthy p \<and> membership_epoch p' = membership_epoch p"
proof -
  have mm: "members_match p" using wf by (simp add: pool_wf_def)
  from pick_probing_backend_result [OF mm, of beg] show ?thesis
  proof
    assume "\<exists>index c. index \<in> set (probing p) \<and> probe_ready (backends p ! index) \<and>
            pick_probing_backend beg p = Some (Some index,
              let q = p\<lparr>backends := (backends p)[index := snd (try_acquire_probe_permit (backends p ! index))],
                        next_probing_cursor := c\<rparr>
              in if beg then begin_request index q else q)"
    then obtain i c where i: "i \<in> set (probing p)"
      and eq: "pick_probing_backend beg p = Some (Some i,
              let q = p\<lparr>backends := (backends p)[i := snd (try_acquire_probe_permit (backends p ! i))],
                        next_probing_cursor := c\<rparr>
              in if beg then begin_request i q else q)" by blast
    obtain r b' where ta: "try_acquire_probe_permit (backends p ! i) = (r, b')" by force
    let ?q = "p\<lparr>backends := (backends p)[i := b'], next_probing_cursor := c\<rparr>"
    have il: "i < length (backends p)" by (rule probing_member_range [OF mm i])
    have q: "pool_wf clk ?q \<and> pool_evolves p ?q"
      by (rule touch_wf [OF wf il, where b' = b'])
        (use try_acquire_frame [OF ta] try_acquire_keeps_class [OF ta] in simp_all)
    have "pool_wf clk (begin_request i ?q) \<and> pool_evolves p (begin_request i ?q) \<and>
        healthy (begin_request i ?q) = healthy p \<and>
        membership_epoch (begin_request i ?q) = membership_epoch p"
      using begin_request_wf [OF conjunct1 [OF q], of i] q
      by (auto simp: pool_evolves_def begin_request_def vec_get_def intro: same_identity_trans)
    then show ?thesis using eq q ta by (auto simp: Let_def)
  next
    assume "pick_probing_backend beg p = Some (None, p) \<and>
         (\<forall>index \<in> set (probing p). \<not> probe_ready (backends p ! index))"
    then show ?thesis using wf by simp
  qed
qed

section \<open>Fresh pools\<close>

lemma positions_Cons:
  "{k. k < length (x # xs) \<and> P ((x # xs) ! k)} =
     (if P x then {0} else {}) \<union> Suc ` {k. k < length xs \<and> P (xs ! k)}"
  by (auto simp: less_Suc_eq_0_disj)

lemma index_healthy_ok:
  assumes "idx_ok n hl hp" and "idx + length bs \<le> n" and "\<forall>i \<in> set hl. i < idx"
  shows "\<exists>hl' hp'. index_healthy idx bs hl hp = (hl', hp') \<and> idx_ok n hl' hp' \<and>
     set hl' = set hl \<union> (\<lambda>k. idx + k) ` {k. k < length bs \<and> is_healthy (bs ! k)}"
  using assms
proof (induction bs arbitrary: idx hl hp)
  case Nil
  then show ?case by simp
next
  case (Cons b bs)
  have range: "(\<lambda>k. idx + k) ` {k. k < length (b # bs) \<and> is_healthy ((b # bs) ! k)} =
      (if is_healthy b then {idx} else {}) \<union>
      (\<lambda>k. Suc idx + k) ` {k. k < length bs \<and> is_healthy (bs ! k)}"
    unfolding positions_Cons by (simp add: image_Un image_image)
  show ?case
  proof (cases "is_healthy b")
    case True
    have "idx \<notin> set hl" using Cons.prems(3) by blast
    then have "hp ! idx = None"
      using idx_ok_None [OF Cons.prems(1), of idx] Cons.prems(2) by simp
    then have ok: "idx_ok n (hl @ [idx]) (hp[idx := Some (length hl)])"
      using idx_ok_push [OF Cons.prems(1)] Cons.prems(2) by simp
    have "\<forall>i \<in> set (hl @ [idx]). i < Suc idx" using Cons.prems(3) by (simp add: less_SucI)
    with Cons.IH [OF ok, of "Suc idx"] Cons.prems(2) True show ?thesis
      unfolding range by simp
  next
    case False
    have "\<forall>i \<in> set hl. i < Suc idx" using Cons.prems(3) by (simp add: less_SucI)
    with Cons.IH [OF Cons.prems(1), of "Suc idx"] Cons.prems(2) False show ?thesis
      unfolding range by simp
  qed
qed

lemma new_from_states_wf:
  assumes "\<forall>b \<in> set bs. is_healthy b"
  shows "pool_wf clk (new_from_states bs)"
proof -
  obtain hl hp where h: "index_healthy 0 bs [] (replicate (length bs) None) = (hl, hp)"
    "idx_ok (length bs) hl hp" "set hl = {i. i < length bs \<and> is_healthy (bs ! i)}"
    using index_healthy_ok [OF idx_ok_empty, of 0 bs "length bs"] by (auto simp del: replicate.simps)
  have np: "\<not> is_probing (bs ! i)" "cooldown_until (bs ! i) = None" if "i < length bs" for i
    using assms nth_mem [OF that] by (auto simp: backend_defs split: health_state.splits)
  show ?thesis
    using h np idx_ok_empty
    by (simp add: new_from_states_def pool_wf_def members_match_def readmit_ok_def healthy_index_def
        probing_index_def)
qed

section \<open>Histories\<close>

datatype pool_op =
    MarkSuccess nat
  | MarkRequestSuccess nat
  | MarkFailure nat
  | MarkRequestFailure nat health_failure_reason
  | ObserveRequestFailure nat duration "health_failure_reason option"
  | ReconcileReadmit
  | PickProbing bool
  | BeginRequest nat
  | FinishRequest nat duration "u16 option"

fun pool_apply :: "bool \<Rightarrow> instant \<Rightarrow> pool_op \<Rightarrow> backend_pool \<Rightarrow> backend_pool option" where
  "pool_apply dbg now (MarkSuccess i) p = map_option snd (mark_success dbg now i p)"
| "pool_apply dbg now (MarkRequestSuccess i) p = map_option snd (mark_request_success dbg now i p)"
| "pool_apply dbg now (MarkFailure i) p = map_option snd (mark_failure dbg now i p)"
| "pool_apply dbg now (MarkRequestFailure i r) p = map_option snd (mark_request_failure dbg now i r p)"
| "pool_apply dbg now (ObserveRequestFailure i l r) p =
     map_option snd (observe_request_failure dbg now i l r p)"
| "pool_apply dbg now ReconcileReadmit p = reconcile_readmit dbg now p"
| "pool_apply dbg now (PickProbing beg) p = map_option snd (pick_probing_backend beg p)"
| "pool_apply dbg now (BeginRequest i) p = Some (begin_request i p)"
| "pool_apply dbg now (FinishRequest i l s) p = Some (finish_request i l s p)"

text \<open>A history is a list of operations with their clock readings.\<close>

fun pool_run :: "bool \<Rightarrow> (instant \<times> pool_op) list \<Rightarrow> backend_pool \<Rightarrow> backend_pool option" where
  "pool_run dbg [] p = Some p"
| "pool_run dbg ((now, op1) # ops) p = do { q \<leftarrow> pool_apply dbg now op1 p; pool_run dbg ops q }"

fun clock_ok :: "instant \<Rightarrow> (instant \<times> pool_op) list \<Rightarrow> bool" where
  "clock_ok clk [] = True"
| "clock_ok clk ((now, op1) # ops) = (clk \<le> now \<and> clock_ok now ops)"

fun last_clock :: "instant \<Rightarrow> (instant \<times> pool_op) list \<Rightarrow> instant" where
  "last_clock clk [] = clk"
| "last_clock clk ((now, op1) # ops) = last_clock now ops"

lemma pool_evolves_trans_same:
  "pool_evolves p q \<Longrightarrow> membership_epoch q = membership_epoch p \<Longrightarrow> healthy q = healthy p \<Longrightarrow>
     pool_evolves q r \<Longrightarrow> pool_evolves p r"
  unfolding pool_evolves_def by (auto intro: same_identity_trans)

lemma mark_request_failure_wf:
  assumes "pool_wf clk p" and "clk \<le> now"
  shows "\<exists>t p'. mark_request_failure True now i r p = Some (t, p') \<and> pool_wf now p' \<and> pool_evolves p p'"
  using mark_failure_with_reason_wf [OF assms, of i r] pool_wf_later [OF assms]
  by (auto simp: mark_request_failure_def)

lemma observe_request_failure_wf:
  assumes wf: "pool_wf clk p" and clk: "clk \<le> now"
  shows "\<exists>t p'. observe_request_failure True now i l r p = Some (t, p') \<and> pool_wf now p' \<and>
                pool_evolves p p'"
proof -
  let ?q = "record_failure_latency_penalty i l p"
  have q: "pool_wf clk ?q" "pool_evolves p ?q"
    using record_failure_latency_penalty_wf [OF wf] by auto
  have fr: "membership_epoch ?q = membership_epoch p" "healthy ?q = healthy p"
    by (auto simp: record_failure_latency_penalty_def Let_def split: option.splits)
  show ?thesis
  proof (cases r)
    case None
    then show ?thesis using q pool_wf_later [OF q(1) clk] by (simp add: observe_request_failure_def)
  next
    case (Some r')
    obtain t p' where "mark_request_failure True now i r' ?q = Some (t, p')" "pool_wf now p'"
      "pool_evolves ?q p'" using mark_request_failure_wf [OF q(1) clk] by blast
    then show ?thesis
      using Some pool_evolves_trans_same [OF q(2) fr] by (simp add: observe_request_failure_def)
  qed
qed

lemma pool_apply_wf:
  assumes "pool_wf clk p" and "clk \<le> now"
  shows "\<exists>p'. pool_apply True now op1 p = Some p' \<and> pool_wf now p' \<and> pool_evolves p p'"
proof (cases op1)
  case (MarkSuccess i)
  then show ?thesis using mark_success_wf [OF assms, of i] by auto
next
  case (MarkRequestSuccess i)
  then show ?thesis using mark_success_wf [OF assms, of i] pool_wf_later [OF assms]
    by (auto simp: mark_request_success_def)
next
  case (MarkFailure i)
  then show ?thesis using mark_failure_with_reason_wf [OF assms, of i HttpStatus5xx]
    by (auto simp: mark_failure_def)
next
  case (MarkRequestFailure i r)
  then show ?thesis using mark_request_failure_wf [OF assms, of i r] by auto
next
  case (ObserveRequestFailure i l r)
  then show ?thesis using observe_request_failure_wf [OF assms, of i l r] by auto
next
  case ReconcileReadmit
  then show ?thesis using reconcile_readmit_wf [OF assms] by auto
next
  case (PickProbing beg)
  then show ?thesis using pick_probing_backend_wf [OF pool_wf_later [OF assms], of beg] by auto
next
  case (BeginRequest i)
  then show ?thesis using begin_request_wf [OF pool_wf_later [OF assms], of i] by auto
next
  case (FinishRequest i l st)
  then show ?thesis using finish_request_wf [OF pool_wf_later [OF assms], of i l st] by auto
qed

lemma pool_run_total:
  "clock_ok clk ops \<Longrightarrow> pool_wf clk p \<Longrightarrow>
     \<exists>p'. pool_run True ops p = Some p' \<and> pool_wf (last_clock clk ops) p'"
proof (induction ops arbitrary: clk p)
  case (Cons a ops)
  obtain now op1 where a: "a = (now, op1)" by force
  with Cons.prems obtain q where "pool_apply True now op1 p = Some q" "pool_wf now q"
    using pool_apply_wf [of clk p now op1] by auto
  then show ?case using Cons.IH [of now q] Cons.prems a by simp
qed simp

text \<open>Along a history the epoch counts the membership changes.\<close>

lemma pool_run_epoch:
  "clock_ok clk ops \<Longrightarrow> pool_wf clk p \<Longrightarrow> pool_run True ops p = Some p' \<Longrightarrow>
     \<exists>k. k \<le> length ops \<and> membership_epoch p' = membership_epoch p + of_nat k \<and>
         length (backends p') = length (backends p) \<and>
         (\<forall>i < length (backends p). same_identity (backends p ! i) (backends p' ! i)) \<and>
         (k = 0 \<longrightarrow> healthy p' = healthy p)"
proof (induction ops arbitrary: clk p)
  case Nil
  then show ?case by (intro exI [of _ 0]) simp
next
  case (Cons a ops)
  obtain now op1 where a: "a = (now, op1)" by force
  with Cons.prems obtain q where q: "pool_apply True now op1 p = Some q" "pool_wf now q" "pool_evolves p q"
    using pool_apply_wf [of clk p now op1] by auto
  obtain k where k: "k \<le> length ops" "membership_epoch p' = membership_epoch q + of_nat k"
    "length (backends p') = length (backends q)"
    "\<forall>i < length (backends q). same_identity (backends q ! i) (backends p' ! i)"
    "k = 0 \<longrightarrow> healthy p' = healthy q"
    using Cons.IH [of now q] Cons.prems a q by auto
  have ids: "length (backends p') = length (backends p) \<and>
      (\<forall>i < length (backends p). same_identity (backends p ! i) (backends p' ! i))"
    using q(3) k(3,4) by (auto simp: pool_evolves_def intro: same_identity_trans)
  from q(3) consider "membership_epoch q = membership_epoch p" "healthy q = healthy p"
    | "membership_epoch q = membership_epoch p + 1" by (auto simp: pool_evolves_def)
  then show ?case
  proof cases
    case 1
    then show ?thesis using k ids by (intro exI [of _ k]) auto
  next
    case 2
    then show ?thesis using k ids by (intro exI [of _ "Suc k"]) (auto simp: algebra_simps)
  qed
qed

section \<open>Repeated outcomes\<close>

lemma record_success_iter:
  assumes "health_state b = Probing s r" and "unat s < unat (success_threshold b)"
  shows "is_healthy (((\<lambda>b. snd (record_success now b)) ^^ k) b) \<longleftrightarrow>
         unat (success_threshold b) - unat s \<le> k"
  using assms
proof (induction k arbitrary: b s)
  case 0
  then show ?case by (simp add: is_healthy_def)
next
  case (Suc k)
  let ?f = "\<lambda>b. snd (record_success now b)"
  have swap: "(?f ^^ Suc k) b = (?f ^^ k) (?f b)" by (simp only: funpow_Suc_right o_apply)
  have s1: "unat (saturating_add s 1) = unat s + 1"
    using Suc.prems(2) unat_bound [of "success_threshold b"] by (simp add: sat_simps)
  show ?case
  proof (cases "success_threshold b \<le> saturating_add s 1")
    case True
    then have "?f b = b\<lparr>consecutive_failures := 0, health_state := Healthy\<rparr>"
      using Suc.prems(1) by (simp add: record_success_def record_probing_success_def Let_def)
    then have "is_healthy (?f b)" by (simp add: is_healthy_def)
    then have "is_healthy ((?f ^^ j) (?f b))" for j
      by (induction j) (auto simp: is_healthy_def record_success_def split: health_state.splits)
    then show ?thesis
      using True s1 Suc.prems(2) unfolding swap by (simp add: word_le_nat_alt)
  next
    case False
    then have f: "?f b = b\<lparr>health_state := Probing (saturating_add s 1) r\<rparr>"
      using Suc.prems(1) by (simp add: record_success_def record_probing_success_def Let_def)
    have thr: "success_threshold (?f b) = success_threshold b" by (simp add: f success_threshold_def)
    have "is_healthy ((?f ^^ k) (?f b)) \<longleftrightarrow> unat (success_threshold b) - (unat s + 1) \<le> k"
      using Suc.IH [of "?f b" "saturating_add s 1"] False s1 thr
      by (simp add: f word_le_nat_alt not_le)
    then show ?thesis unfolding swap by linarith
  qed
qed

lemma record_failure_iter:
  assumes "is_healthy b"
  shows "is_healthy (((\<lambda>b. snd (record_failure now r b)) ^^ k) b) \<longleftrightarrow>
         k = 0 \<or> unat (consecutive_failures b) + k < unat (failure_threshold b)"
  using assms
proof (induction k arbitrary: b)
  case 0
  then show ?case by simp
next
  case (Suc k)
  let ?f = "\<lambda>b. snd (record_failure now r b)"
  have swap: "(?f ^^ Suc k) b = (?f ^^ k) (?f b)" by (simp only: funpow_Suc_right o_apply)
  let ?c = "saturating_add (consecutive_failures b) 1"
  have np: "\<not> is_probing b" using Suc.prems by simp
  have c: "?c < failure_threshold b \<longleftrightarrow> unat (consecutive_failures b) + 1 < unat (failure_threshold b)"
    using unat_bound [of "failure_threshold b"]
    by (simp add: word_less_nat_alt sat_simps min_def) linarith?
  show ?case
  proof (cases "?c < failure_threshold b")
    case True
    then have f: "?f b = b\<lparr>consecutive_failures := ?c\<rparr>"
      using np by (simp add: record_failure_def Let_def)
    have cn: "unat ?c = unat (consecutive_failures b) + 1"
      using True c unat_bound [of "failure_threshold b"] by (simp add: sat_simps)
    have "is_healthy (?f b)" using Suc.prems f by (simp add: is_healthy_def)
    then have "is_healthy ((?f ^^ k) (?f b)) \<longleftrightarrow>
        k = 0 \<or> unat (consecutive_failures b) + 1 + k < unat (failure_threshold b)"
      using Suc.IH [of "?f b"] cn by (simp add: f failure_threshold_def)
    then show ?thesis using True c unfolding swap by auto
  next
    case False
    then have "health_state (?f b) = Unhealthy (now + cooldown_duration b)"
      using np by (simp add: record_failure_def Let_def)
    then have "\<not> is_healthy (?f b)" by (simp add: is_healthy_def)
    then have "\<not> is_healthy ((?f ^^ j) (?f b))" for j
      by (induction j) (auto simp: backend_defs split: health_state.splits if_splits)
    then show ?thesis using False c unfolding swap by simp
  qed
qed

text \<open>A history of one repeated outcome iterates the backend's transition.\<close>

lemma pool_run_repeat:
  assumes i: "i < length (backends p)"
    and step: "\<And>q. Q q \<Longrightarrow> i < length (backends q) \<Longrightarrow>
      \<exists>q'. pool_apply dbg now op1 q = Some q' \<and> Q q' \<and> backends q' = (backends q)[i := f (backends q ! i)]"
    and start: "Q p"
  shows "\<exists>p'. pool_run dbg (replicate k (now, op1)) p = Some p' \<and> Q p' \<and>
              backends p' = (backends p)[i := (f ^^ k) (backends p ! i)]"
  using i start
proof (induction k arbitrary: p)
  case 0
  then show ?case by simp
next
  case (Suc k)
  obtain q where q: "pool_apply dbg now op1 p = Some q" "Q q" "backends q = (backends p)[i := f (backends p ! i)]"
    using step [OF Suc.prems(2,1)] by blast
  obtain p' where "pool_run dbg (replicate k (now, op1)) q = Some p'" "Q p'"
    "backends p' = (backends q)[i := (f ^^ k) (backends q ! i)]"
    using Suc.IH [of q] Suc.prems q by auto
  then show ?case using q Suc.prems by (auto simp: funpow_swap1)
qed

section \<open>Builds without debug assertions\<close>

lemma debug_assert_off [simp]: "debug_assert False act s = Some s"
  by (simp add: debug_assert_def)

definition frozen :: "backend_pool \<Rightarrow> backend_pool \<Rightarrow> bool" where
  "frozen p p' \<longleftrightarrow> healthy p' = healthy p \<and> healthy_pos p' = healthy_pos p \<and> probing p' = probing p \<and>
     list_all2 same_identity (backends p) (backends p')"

lemma frozen_refl [simp]: "frozen p p"
  by (simp add: frozen_def list_all2_refl)

lemma frozen_length: "frozen p p' \<Longrightarrow> length (backends p') = length (backends p)"
  by (auto simp: frozen_def dest: list_all2_lengthD)

lemma frozen_trans: "frozen p q \<Longrightarrow> frozen q r \<Longrightarrow> frozen p r"
  unfolding frozen_def using list_all2_trans [of same_identity same_identity same_identity] same_identity_trans by metis

lemma frozen_note [simp]: "frozen p (note_readmit b q) = frozen p q"
  by (simp add: frozen_def)

lemma frozen_update:
  assumes "same_identity (backends p ! i) b"
  shows "frozen p (p\<lparr>backends := (backends p)[i := b]\<rparr>)"
  using list_all2_update_cong [of same_identity "backends p" "backends p" "backends p ! i" b i] assms
  by (simp add: frozen_def list_all2_refl)

lemma sync_off:
  "\<exists>p'. sync_healthy False i was flag p = Some p' \<and> frozen p p' \<and> backends p' = backends p"
  "sync_probing False i was flag p = Some p"
  by (auto simp: sync_healthy_def sync_probing_def frozen_def list_all2_refl)

lemma mark_success_off:
  "\<exists>t p'. mark_success False now i p = Some (t, p') \<and> frozen p p' \<and>
     (i < length (backends p) \<longrightarrow> backends p' = (backends p)[i := snd (record_success now (backends p ! i))])"
proof (cases "i < length (backends p)")
  case True
  obtain t b' where rs: "record_success now (backends p ! i) = (t, b')" by force
  let ?p1 = "p\<lparr>backends := (backends p)[i := b']\<rparr>"
  obtain p2 where p2: "sync_healthy False i (is_healthy (backends p ! i)) (is_healthy b') ?p1 = Some p2"
      "frozen ?p1 p2" "backends p2 = backends ?p1"
    using sync_off(1) [of i "is_healthy (backends p ! i)" "is_healthy b'" ?p1] by blast
  have "frozen p p2" using frozen_trans [OF frozen_update p2(2)] record_success_frame [OF rs] by blast
  then show ?thesis using True rs p2 by (simp add: mark_success_def sync_off(2))
qed (simp add: mark_success_def)

lemma mark_failure_off:
  "\<exists>t p'. mark_failure_with_reason False now i r p = Some (t, p') \<and> frozen p p' \<and>
     (i < length (backends p) \<longrightarrow> backends p' = (backends p)[i := snd (record_failure now r (backends p ! i))])"
proof (cases "i < length (backends p)")
  case True
  obtain t b' where rs: "record_failure now r (backends p ! i) = (t, b')" by force
  let ?p1 = "p\<lparr>backends := (backends p)[i := b']\<rparr>"
  obtain p2 where p2: "sync_healthy False i (is_healthy (backends p ! i)) (is_healthy b') ?p1 = Some p2"
      "frozen ?p1 p2" "backends p2 = backends ?p1"
    using sync_off(1) [of i "is_healthy (backends p ! i)" "is_healthy b'" ?p1] by blast
  have "frozen p p2" using frozen_trans [OF frozen_update p2(2)] record_failure_frame [OF rs] by blast
  then show ?thesis using True rs p2 by (simp add: mark_failure_with_reason_def sync_off(2) Let_def)
qed (simp add: mark_failure_with_reason_def)

lemma readmit_loop_off:
  "\<forall>j \<in> set js. j < length (backends q) \<Longrightarrow>
     \<exists>nxt' q'. readmit_loop False now js (nxt, q) = Some (nxt', q') \<and> frozen q q'"
proof (induction js arbitrary: nxt q)
  case Nil
  then show ?case by simp
next
  case (Cons j js)
  obtain f b' where rd: "readmit_if_expired now (backends q ! j) = (f, b')" by force
  have "frozen q (q\<lparr>backends := (backends q)[j := b']\<rparr>)"
    using frozen_update readmit_if_expired_frame [OF rd] by blast
  then have "\<exists>n1 q1. readmit_step False now j (nxt, q) = Some (n1, q1) \<and> frozen q q1"
    using Cons.prems rd by (auto simp: readmit_step_def vec_get_def Let_def split: option.splits)
  then obtain n1 q1 where s: "readmit_step False now j (nxt, q) = Some (n1, q1)" "frozen q q1" by blast
  then have "\<forall>j \<in> set js. j < length (backends q1)" using Cons.prems frozen_length [of q q1] by simp
  from Cons.IH [OF this, of n1] s show ?case by (auto intro: frozen_trans)
qed

lemma pool_apply_off:
  assumes "probing p = []"
  shows "\<exists>p'. pool_apply False now op1 p = Some p' \<and> frozen p p'"
proof (cases op1)
  case (MarkSuccess i)
  then show ?thesis using mark_success_off [of now i p] by auto
next
  case (MarkRequestSuccess i)
  then show ?thesis using mark_success_off [of now i p] by (auto simp: mark_request_success_def)
next
  case (MarkFailure i)
  then show ?thesis using mark_failure_off [of now i HttpStatus5xx p] by (auto simp: mark_failure_def)
next
  case (MarkRequestFailure i r)
  then show ?thesis using mark_failure_off [of now i r p] by (auto simp: mark_request_failure_def)
next
  case (ObserveRequestFailure i l r)
  have "frozen p (record_failure_latency_penalty i l p)"
    by (auto simp: record_failure_latency_penalty_def vec_get_def same_identity_def Let_def intro!: frozen_update
        split: option.splits if_splits)
  then show ?thesis
    using ObserveRequestFailure
      mark_failure_off [of now i "the r" "record_failure_latency_penalty i l p"]
    by (cases r) (auto simp: observe_request_failure_def mark_request_failure_def Let_def
        dest: frozen_trans)
next
  case ReconcileReadmit
  obtain nxt q where "readmit_loop False now [0..<length (backends p)] (None, p) = Some (nxt, q)" "frozen p q"
    using readmit_loop_off [of "[0..<length (backends p)]" p now None] by auto
  then show ?thesis using ReconcileReadmit
    by (auto simp: reconcile_readmit_def reconcile_readmit_at_def frozen_def list_all2_refl split: option.splits)
next
  case (PickProbing beg)
  then show ?thesis using assms by (simp add: pick_probing_backend_def)
next
  case (BeginRequest i)
  then show ?thesis
    by (auto simp: begin_request_def vec_get_def same_identity_def intro!: frozen_update split: option.splits if_splits)
next
  case (FinishRequest i l st)
  then show ?thesis
    by (auto simp: finish_request_def vec_get_def same_identity_def record_latency_sample_def Let_def intro!: frozen_update
        split: option.splits if_splits)
qed

lemma pool_run_off:
  "probing p = [] \<Longrightarrow> \<exists>p'. pool_run False ops p = Some p' \<and> frozen p p'"
proof (induction ops arbitrary: p)
  case Nil
  then show ?case by simp
next
  case (Cons a ops)
  obtain now op1 where a: "a = (now, op1)" by force
  obtain q where q: "pool_apply False now op1 p = Some q" "frozen p q"
    using pool_apply_off [OF Cons.prems] by blast
  then have "probing q = []" using Cons.prems by (simp add: frozen_def)
  from Cons.IH [OF this] q a show ?case by (auto intro: frozen_trans)
qed

subsection \<open>One step in both builds\<close>

lemma outcome_off_epoch:
  "mark_success False now i p = Some (t, p') \<Longrightarrow> membership_epoch p' \<in> {membership_epoch p, membership_epoch p + 1}"
  "mark_failure_with_reason False now i r p = Some (t, p') \<Longrightarrow> membership_epoch p' \<in> {membership_epoch p, membership_epoch p + 1}"
  by (auto simp: mark_success_def mark_failure_with_reason_def sync_healthy_def sync_probing_def note_readmit_def Let_def
      split: if_splits prod.splits option.splits)

lemma readmit_loop_off_epoch:
  "readmit_loop False now js (nxt, q) = Some (nxt', q') \<Longrightarrow> membership_epoch q' = membership_epoch q"
proof (induction js arbitrary: nxt q)
  case (Cons j js)
  then obtain n1 q1 where s: "readmit_step False now j (nxt, q) = Some (n1, q1)" "readmit_loop False now js (n1, q1) = Some (nxt', q')"
    by (auto simp: bind_eq_Some_conv)
  then have "membership_epoch q1 = membership_epoch q"
    by (auto simp: readmit_step_def bind_eq_Some_conv Let_def split: if_splits prod.splits option.splits)
  then show ?case using Cons.IH [OF s(2)] by simp
qed simp

lemma pool_apply_off_epoch:
  assumes "probing p = []" and "pool_apply False now op1 p = Some p'"
  shows "membership_epoch p' \<in> {membership_epoch p, membership_epoch p + 1}"
proof -
  have pen: "membership_epoch (record_failure_latency_penalty i l p) = membership_epoch p" for i l
    by (simp add: record_failure_latency_penalty_def Let_def split: option.splits)
  show ?thesis
    using assms
    by (cases op1)
      (auto dest!: outcome_off_epoch readmit_loop_off_epoch simp: mark_request_success_def mark_failure_def mark_request_failure_def observe_request_failure_def pen
        reconcile_readmit_def reconcile_readmit_at_def pick_probing_backend_def begin_request_def finish_request_def
        bind_eq_Some_conv Let_def split: if_splits option.splits)
qed

text \<open>What every operation keeps: a well-formed pool with debug assertions; without them an empty
  probing vector and a healthy vector of distinct backends.\<close>

definition pool_inv :: "bool \<Rightarrow> instant \<Rightarrow> backend_pool \<Rightarrow> bool" where
  "pool_inv dbg clk p \<longleftrightarrow>
     (if dbg then pool_wf clk p
      else probing p = [] \<and> distinct (healthy p) \<and> (\<forall>i \<in> set (healthy p). i < length (backends p)))"

lemma pool_inv_new:
  assumes "\<forall>b \<in> set bs. is_healthy b"
  shows "pool_inv dbg clk (new_from_states bs)"
proof -
  have wf: "pool_wf clk (new_from_states bs)" by (rule new_from_states_wf [OF assms])
  then have mm: "members_match (new_from_states bs)" by (simp add: pool_wf_def)
  have "probing (new_from_states bs) = []" by (simp add: new_from_states_def split: prod.splits)
  moreover have "distinct (healthy (new_from_states bs))"
    using members_matchD(1) [OF mm] idx_ok_distinct by (auto simp: healthy_index_def)
  ultimately show ?thesis using wf healthy_set [OF mm] by (simp add: pool_inv_def)
qed

lemma pool_apply_inv:
  assumes "pool_inv dbg clk p" and "clk \<le> now"
  shows "\<exists>p'. pool_apply dbg now op1 p = Some p' \<and> pool_inv dbg now p' \<and> pool_evolves p p'"
proof (cases dbg)
  case True
  then show ?thesis using pool_apply_wf [OF _ assms(2), of p op1] assms(1) by (simp add: pool_inv_def)
next
  case False
  then have pr: "probing p = []" using assms(1) by (simp add: pool_inv_def)
  obtain p' where p': "pool_apply False now op1 p = Some p'" "frozen p p'" using pool_apply_off [OF pr] by blast
  then have "pool_evolves p p'"
    using pool_apply_off_epoch [OF pr p'(1)] by (auto simp: pool_evolves_def frozen_def list_all2_conv_all_nth)
  then show ?thesis
    using p' False assms(1) by (auto simp: pool_inv_def frozen_def list_all2_lengthD)
qed

lemma pool_inv_later: "pool_inv dbg clk p \<Longrightarrow> clk \<le> now \<Longrightarrow> pool_inv dbg now p"
  using pool_wf_later by (auto simp: pool_inv_def)

lemma pool_inv_member: "pool_inv True clk p \<Longrightarrow> i \<in> set (healthy p) \<longleftrightarrow> i < length (backends p) \<and> is_healthy (backends p ! i)"
  using healthy_set [of p] by (auto simp: pool_inv_def pool_wf_def)

subsection \<open>Repeated outcomes in both builds\<close>

text \<open>\<open>k\<close> equal outcomes for one backend: its state is iterated in both builds; the healthy vector
  follows it with debug assertions and stays as it was without them.\<close>

definition outcomes_applied :: "bool \<Rightarrow> nat \<Rightarrow> backend_state \<Rightarrow> backend_pool \<Rightarrow> backend_pool \<Rightarrow> bool" where
  "outcomes_applied dbg i b p p' \<longleftrightarrow> backends p' = (backends p)[i := b] \<and>
     (if dbg then i \<in> set (healthy p') \<longleftrightarrow> is_healthy b else healthy p' = healthy p)"

lemma repeated_outcomes:
  assumes wf: "dbg \<longrightarrow> pool_wf now p" and i: "i < length (backends p)"
    and on: "\<And>q. pool_wf now q \<Longrightarrow> i < length (backends q) \<Longrightarrow>
      \<exists>q'. pool_apply True now op1 q = Some q' \<and> pool_wf now q' \<and> backends q' = (backends q)[i := f (backends q ! i)]"
    and off: "\<And>q. i < length (backends q) \<Longrightarrow>
      \<exists>q'. pool_apply False now op1 q = Some q' \<and> frozen q q' \<and> backends q' = (backends q)[i := f (backends q ! i)]"
  shows "\<exists>p'. pool_run dbg (replicate k (now, op1)) p = Some p' \<and> outcomes_applied dbg i ((f ^^ k) (backends p ! i)) p p'"
proof (cases dbg)
  case True
  obtain p' where "pool_run True (replicate k (now, op1)) p = Some p'" "pool_wf now p'"
      "backends p' = (backends p)[i := (f ^^ k) (backends p ! i)]"
    using pool_run_repeat [OF i on] wf True by blast
  moreover from this have "i \<in> set (healthy p') \<longleftrightarrow> is_healthy ((f ^^ k) (backends p ! i))"
    using members_matchD(3) [of p' i] i by (simp add: pool_wf_def)
  ultimately show ?thesis using True by (auto simp: outcomes_applied_def)
next
  case False
  have "\<exists>q'. pool_apply False now op1 q = Some q' \<and> healthy q' = healthy p \<and> backends q' = (backends q)[i := f (backends q ! i)]"
    if "healthy q = healthy p" "i < length (backends q)" for q
    using off [OF that(2)] that(1) by (auto simp: frozen_def)
  from pool_run_repeat [OF i this refl, of k] show ?thesis using False by (auto simp: outcomes_applied_def)
qed

lemma repeated_failures:
  assumes "dbg \<longrightarrow> pool_wf now p" and "i < length (backends p)"
  shows "\<exists>p'. pool_run dbg (replicate k (now, MarkFailure i)) p = Some p' \<and>
    outcomes_applied dbg i (((\<lambda>b. snd (record_failure now HttpStatus5xx b)) ^^ k) (backends p ! i)) p p'"
proof (rule repeated_outcomes [OF assms])
  fix q :: backend_pool
  assume q: "pool_wf now q" "i < length (backends q)"
  show "\<exists>q'. pool_apply True now (MarkFailure i) q = Some q' \<and> pool_wf now q' \<and>
      backends q' = (backends q)[i := snd (record_failure now HttpStatus5xx (backends q ! i))]"
    using mark_failure_with_reason_wf [OF q(1) order_refl, of i HttpStatus5xx] q(2) by (auto simp: mark_failure_def)
next
  fix q :: backend_pool
  assume "i < length (backends q)"
  then show "\<exists>q'. pool_apply False now (MarkFailure i) q = Some q' \<and> frozen q q' \<and>
      backends q' = (backends q)[i := snd (record_failure now HttpStatus5xx (backends q ! i))]"
    using mark_failure_off [of now i HttpStatus5xx q] by (auto simp: mark_failure_def)
qed

lemma repeated_successes:
  assumes "dbg \<longrightarrow> pool_wf now p" and "i < length (backends p)"
  shows "\<exists>p'. pool_run dbg (replicate k (now, MarkSuccess i)) p = Some p' \<and>
    outcomes_applied dbg i (((\<lambda>b. snd (record_success now b)) ^^ k) (backends p ! i)) p p'"
proof (rule repeated_outcomes [OF assms])
  fix q :: backend_pool
  assume q: "pool_wf now q" "i < length (backends q)"
  show "\<exists>q'. pool_apply True now (MarkSuccess i) q = Some q' \<and> pool_wf now q' \<and>
      backends q' = (backends q)[i := snd (record_success now (backends q ! i))]"
    using mark_success_wf [OF q(1) order_refl, of i] q(2) by auto
next
  fix q :: backend_pool
  assume "i < length (backends q)"
  then show "\<exists>q'. pool_apply False now (MarkSuccess i) q = Some q' \<and> frozen q q' \<and>
      backends q' = (backends q)[i := snd (record_success now (backends q ! i))]"
    using mark_success_off [of now i q] by auto
qed

lemma mark_success_repeat:
  assumes "dbg \<longrightarrow> pool_wf now p" and "i < length (backends p)"
    and "health_state (backends p ! i) = Probing s r"
    and "unat s < unat (success_threshold (backends p ! i))"
  shows "\<exists>p'. pool_run dbg (replicate k (now, MarkSuccess i)) p = Some p' \<and>
     (is_healthy (backends p' ! i) \<longleftrightarrow> unat (success_threshold (backends p ! i)) \<le> unat s + k) \<and>
     (if dbg then i \<in> set (healthy p') \<longleftrightarrow> is_healthy (backends p' ! i) else healthy p' = healthy p)"
proof -
  have "is_healthy (((\<lambda>b. snd (record_success now b)) ^^ k) (backends p ! i)) \<longleftrightarrow>
      unat (success_threshold (backends p ! i)) \<le> unat s + k"
    unfolding record_success_iter [OF assms(3,4)] by linarith
  moreover obtain p' where "pool_run dbg (replicate k (now, MarkSuccess i)) p = Some p'"
    "outcomes_applied dbg i (((\<lambda>b. snd (record_success now b)) ^^ k) (backends p ! i)) p p'"
    using repeated_successes [OF assms(1,2)] by blast
  ultimately show ?thesis using assms(2) by (auto simp: outcomes_applied_def)
qed

section \<open>Properties\<close>

text \<open>
  C1. With \<open>debug_assertions\<close> on, no history of pool operations on a freshly built pool
  panics, whatever indices, outcomes and latencies it carries, as long as the clock does not
  run backwards.  After it the healthy vector lists exactly the backends whose state is
  healthy, the probing vector exactly the probing ones, both without duplicates, and the O(1)
  membership test agrees with the healthy vector.
\<close>

theorem pool_history_invariant:
  assumes "clock_ok clk ops"
  shows "\<exists>p'. pool_run True ops (new_from_states (map backend_state_new cfgs)) = Some p' \<and>
     distinct (healthy p') \<and> distinct (probing p') \<and> length (backends p') = length cfgs \<and>
     set (healthy p') = {i. i < length cfgs \<and> is_healthy (backends p' ! i)} \<and>
     set (probing p') = {i. i < length cfgs \<and> is_probing (backends p' ! i)} \<and>
     (\<forall>i. is_healthy_index i p' \<longleftrightarrow> i \<in> set (healthy p'))"
proof -
  let ?p = "new_from_states (map backend_state_new cfgs)"
  have "\<forall>b \<in> set (map backend_state_new cfgs). is_healthy b"
    by (auto simp: backend_state_new_def is_healthy_def)
  then have wf: "pool_wf clk ?p" by (rule new_from_states_wf)
  then obtain p' where run: "pool_run True ops ?p = Some p'" and wf': "pool_wf (last_clock clk ops) p'"
    using pool_run_total [OF assms] by blast
  then have mm: "members_match p'" by (simp add: pool_wf_def)
  have len: "length (backends p') = length cfgs"
    using pool_run_epoch [OF assms wf run] by (auto simp: new_from_states_def split: prod.splits)
  have "distinct (healthy p')" "distinct (probing p')"
    using members_matchD(1,2) [OF mm] idx_ok_distinct by (auto simp: healthy_index_def probing_index_def)
  moreover have "set (probing p') = {i. i < length cfgs \<and> is_probing (backends p' ! i)}"
    using probing_set [OF mm] by (simp only: len)
  moreover have "set (healthy p') = {i. i < length cfgs \<and> is_healthy (backends p' ! i)}"
    using healthy_set [OF mm] by (simp only: len)
  moreover have "\<forall>i. is_healthy_index i p' \<longleftrightarrow> i \<in> set (healthy p')"
    using is_healthy_index_iff [OF mm] by blast
  ultimately show ?thesis using run len by blast
qed

theorem pool_history_invariant_witness:
  "\<exists>p'. pool_run True [(1, MarkRequestFailure 0 Transport), (2, MarkSuccess 1)]
          (new_from_states (map backend_state_new
             [\<lparr>bc_id = ''a'', bc_address = ''10.0.0.1:80'', bc_weight = 1, bc_health_check = None\<rparr>,
              \<lparr>bc_id = ''b'', bc_address = ''10.0.0.2:80'', bc_weight = 2, bc_health_check = None\<rparr>])) = Some p' \<and>
     distinct (healthy p')"
proof -
  have "clock_ok 0 [(1, MarkRequestFailure 0 Transport), (2, MarkSuccess 1)]" by simp
  from pool_history_invariant [OF this] show ?thesis by blast
qed

text \<open>
  C6. The membership epoch is a sound cache key in both builds: along a history of fewer than 2^64
  operations that ends with the epoch it started with, the healthy vector (including its order) is
  unchanged, and so are the address, the weight and the health-check configuration of every
  backend.  The pool is well-formed in a build with \<open>debug_assertions\<close>, and has an empty probing
  vector in one without; every pool reached from a new one is (C1, C7).  This is what the cached
  round-robin schedule, weighted members and hash ring rely on.
\<close>

theorem epoch_identifies_membership:
  assumes "clock_ok clk ops" and "if dbg then pool_wf clk p else probing p = []" and "pool_run dbg ops p = Some p'"
    and "length ops < 2 ^ 64" and "membership_epoch p' = membership_epoch p"
  shows "healthy p' = healthy p \<and> length (backends p') = length (backends p) \<and>
     (\<forall>i < length (backends p). address (backends p' ! i) = address (backends p ! i) \<and>
        weight (backends p' ! i) = weight (backends p ! i) \<and>
        health_check (backends p' ! i) = health_check (backends p ! i))"
proof (cases dbg)
  case True
  obtain k where k: "k \<le> length ops" "membership_epoch p' = membership_epoch p + of_nat k"
    "length (backends p') = length (backends p)"
    "\<forall>i < length (backends p). same_identity (backends p ! i) (backends p' ! i)"
    "k = 0 \<longrightarrow> healthy p' = healthy p"
    using pool_run_epoch [OF assms(1)] assms(2,3) True by fastforce
  have "(of_nat k :: u64) = 0" using k(2) assms(5) by simp
  then have "k = 0" by (rule of_nat_word_0D) (use k(1) assms(4) in simp)
  then show ?thesis using k by (simp add: same_identity_def)
next
  case False
  then have "frozen p p'" using pool_run_off [of p ops] assms(2,3) by auto
  then show ?thesis by (auto simp: frozen_def same_identity_def list_all2_conv_all_nth)
qed

text \<open>Two backends; one failure below the threshold of the first and one request to the second leave
  the epoch, and three failures of the first change it.\<close>

definition pair_backends :: "backend_state list" where
  "pair_backends = map backend_state_new
     [\<lparr>bc_id = ''a'', bc_address = ''10.0.0.1:80'', bc_weight = 1, bc_health_check = None\<rparr>,
      \<lparr>bc_id = ''b'', bc_address = ''10.0.0.2:80'', bc_weight = 2, bc_health_check = None\<rparr>]"

lemma pair_pool_wf: "pool_wf clk (new_from_states pair_backends)"
  by (rule new_from_states_wf) (simp add: pair_backends_def backend_state_new_def is_healthy_def)

theorem epoch_identifies_membership_witness:
  "\<exists>p'. pool_run True [(1, MarkFailure 0), (2, BeginRequest 1)] (new_from_states pair_backends) = Some p' \<and>
     consecutive_failures (backends p' ! 0) = 1 \<and> active_requests (backends p' ! 1) = 1 \<and>
     healthy p' = [0, 1] \<and> weight (backends p' ! 1) = 2"
proof -
  let ?p = "new_from_states pair_backends"
  let ?p' = "?p\<lparr>backends := [(pair_backends ! 0)\<lparr>consecutive_failures := 1\<rparr>, (pair_backends ! 1)\<lparr>active_requests := 1\<rparr>]\<rparr>"
  have run: "pool_run True [(1, MarkFailure 0), (2, BeginRequest 1)] ?p = Some ?p'"
    by (simp add: pair_backends_def new_from_states_def mark_failure_def mark_failure_with_reason_def record_failure_def
        begin_request_def vec_get_def sync_healthy_def sync_probing_def is_healthy_def is_probing_def backend_state_new_def
        failure_threshold_def saturating_add_def Let_def)
  have "healthy ?p = [0, 1]" by (simp add: pair_backends_def new_from_states_def backend_state_new_def is_healthy_def)
  moreover have "weight (backends ?p ! 1) = 2" "length (backends ?p) = 2"
    by (simp_all add: pair_backends_def new_from_states_def backend_state_new_def)
  moreover have c: "clock_ok 0 [(1, MarkFailure 0), (2, BeginRequest 1)]" by simp
  have w: "if True then pool_wf 0 ?p else probing ?p = []" by (simp add: pair_pool_wf)
  have e: "membership_epoch ?p' = membership_epoch ?p" by simp
  note same = epoch_identifies_membership [OF c w run _ e, simplified, THEN conjunct2, rule_format]
  ultimately show ?thesis using run epoch_identifies_membership [OF c w run _ e] same [of 1] by auto
qed

text \<open>
  C7. Without \<open>debug_assertions\<close> (the default of a release build) the calls that maintain the
  index sets are never evaluated: whatever happens to a freshly built pool, its healthy vector
  stays the initial one, its probing vector stays empty, and the O(1) membership test keeps
  answering as at start-up, so an ejected backend stays in rotation.
\<close>

theorem release_membership_frozen:
  "\<exists>p'. pool_run False ops (new_from_states bs) = Some p' \<and>
     healthy p' = healthy (new_from_states bs) \<and> probing p' = [] \<and>
     (\<forall>i. is_healthy_index i p' \<longleftrightarrow> is_healthy_index i (new_from_states bs))"
proof -
  have "probing (new_from_states bs) = []" by (simp add: new_from_states_def split: prod.splits)
  with pool_run_off [OF this, of ops] show ?thesis by (auto simp: frozen_def is_healthy_index_def)
qed

text \<open>
  C8. Ejection happens exactly at the failure threshold: in both builds, a healthy backend with \<open>c\<close>
  recorded consecutive failures is still healthy after \<open>k\<close> further failures at one instant if and
  only if \<open>k = 0\<close> or \<open>c + k\<close> is below its threshold.  In a build with \<open>debug_assertions\<close> and a
  well-formed pool it is in the healthy vector, from which the strategies pick, exactly then; in a
  build without them the healthy vector does not change, so the ejected backend is still picked.
\<close>

theorem ejected_at_failure_threshold:
  assumes "dbg \<longrightarrow> pool_wf now p" and "i < length (backends p)" and "is_healthy (backends p ! i)"
  shows "\<exists>p'. pool_run dbg (replicate k (now, MarkFailure i)) p = Some p' \<and>
     (is_healthy (backends p' ! i) \<longleftrightarrow>
        k = 0 \<or> unat (consecutive_failures (backends p ! i)) + k < unat (failure_threshold (backends p ! i))) \<and>
     (if dbg then i \<in> set (healthy p') \<longleftrightarrow> is_healthy (backends p' ! i) else healthy p' = healthy p)"
proof -
  obtain p' where "pool_run dbg (replicate k (now, MarkFailure i)) p = Some p'"
    "outcomes_applied dbg i (((\<lambda>b. snd (record_failure now HttpStatus5xx b)) ^^ k) (backends p ! i)) p p'"
    using repeated_failures [OF assms(1,2)] by blast
  then show ?thesis using record_failure_iter [OF assms(3), where k = k] assms(2) by (auto simp: outcomes_applied_def)
qed

definition sample_backend :: backend_state where
  "sample_backend = backend_state_new
     \<lparr>bc_id = ''a'', bc_address = ''10.0.0.1:80'', bc_weight = 1, bc_health_check = None\<rparr>"

lemma sample_pool_wf: "pool_wf clk (new_from_states [sample_backend])"
  by (rule new_from_states_wf) (simp add: sample_backend_def backend_state_new_def is_healthy_def)

lemma sample_pool_backends [simp]: "backends (new_from_states bs) = bs"
  by (simp add: new_from_states_def split: prod.splits)

theorem ejected_at_failure_threshold_witness:
  "(\<exists>p'. pool_run True (replicate 3 (7, MarkFailure 0)) (new_from_states [sample_backend]) = Some p' \<and>
        \<not> is_healthy (backends p' ! 0) \<and> 0 \<notin> set (healthy p')) \<and>
   (\<exists>p'. pool_run False (replicate 3 (7, MarkFailure 0)) (new_from_states [sample_backend]) = Some p' \<and>
        \<not> is_healthy (backends p' ! 0) \<and> 0 \<in> set (healthy p'))"
proof -
  have b: "is_healthy sample_backend" "consecutive_failures sample_backend = 0" "failure_threshold sample_backend = 3"
    by (simp_all add: sample_backend_def backend_state_new_def is_healthy_def failure_threshold_def)
  then have h: "healthy (new_from_states [sample_backend]) = [0]" by (simp add: new_from_states_def)
  let ?p = "new_from_states [sample_backend]"
  have on: "True \<longrightarrow> pool_wf 7 ?p" and off: "False \<longrightarrow> pool_wf 7 ?p" by (simp_all add: sample_pool_wf)
  have i: "0 < length (backends ?p)" "is_healthy (backends ?p ! 0)" by (simp_all add: b)
  have "\<exists>p'. pool_run True (replicate 3 (7, MarkFailure 0)) ?p = Some p' \<and> \<not> is_healthy (backends p' ! 0) \<and> 0 \<notin> set (healthy p')"
    using ejected_at_failure_threshold [OF on i, of 3] by (force simp: b)
  moreover have "\<exists>p'. pool_run False (replicate 3 (7, MarkFailure 0)) ?p = Some p' \<and> \<not> is_healthy (backends p' ! 0) \<and>
      0 \<in> set (healthy p')"
    using ejected_at_failure_threshold [OF off i, of 3] by (force simp: b h)
  ultimately show ?thesis by blast
qed

text \<open>
  C9. Recovery is complete and needs exactly the configured number of successes: in both builds, a
  probing backend with \<open>s\<close> recorded probe successes is healthy after \<open>k\<close> successes at one instant if
  and only if \<open>s + k\<close> reaches its success threshold.  In a build with \<open>debug_assertions\<close> and a
  well-formed pool it is back in the healthy vector exactly then; in a build without them the
  healthy vector does not change.
\<close>

theorem probing_backend_recovers:
  assumes "dbg \<longrightarrow> pool_wf now p" and "i < length (backends p)"
    and "health_state (backends p ! i) = Probing s r"
    and "unat s < unat (success_threshold (backends p ! i))"
  shows "\<exists>p'. pool_run dbg (replicate k (now, MarkSuccess i)) p = Some p' \<and>
     (is_healthy (backends p' ! i) \<longleftrightarrow> unat (success_threshold (backends p ! i)) \<le> unat s + k) \<and>
     (if dbg then i \<in> set (healthy p') \<longleftrightarrow> is_healthy (backends p' ! i) else healthy p' = healthy p)"
  by (rule mark_success_repeat [OF assms])

definition sample_pool :: "health_state \<Rightarrow> backend_pool" where
  "sample_pool st =
     \<lparr>backends = [sample_backend\<lparr>health_state := st\<rparr>], healthy = [], healthy_pos = [None],
      probing = (case st of Probing _ _ \<Rightarrow> [0] | _ \<Rightarrow> []),
      probing_pos = [case st of Probing _ _ \<Rightarrow> Some 0 | _ \<Rightarrow> None],
      membership_epoch = 1, earliest_readmit = (case st of Unhealthy u \<Rightarrow> Some u | _ \<Rightarrow> None),
      next_probing_cursor = 0\<rparr>"

lemmas sample_defs = sample_pool_def sample_backend_def backend_state_new_def

lemma sample_probing_wf: "pool_wf clk (sample_pool (Probing 0 1))"
  by (auto simp: sample_defs pool_wf_def members_match_def readmit_ok_def healthy_index_def
      probing_index_def idx_ok_def is_healthy_def is_probing_def cooldown_until_def)

lemma sample_unhealthy_wf: "pool_wf clk (sample_pool (Unhealthy clk))"
  by (auto simp: sample_defs pool_wf_def members_match_def readmit_ok_def healthy_index_def
      probing_index_def idx_ok_def is_healthy_def is_probing_def cooldown_until_def)

theorem probing_backend_recovers_witness:
  "\<exists>p'. pool_run True (replicate 1 (9, MarkSuccess 0)) (sample_pool (Probing 0 1)) = Some p' \<and>
        is_healthy (backends p' ! 0) \<and> 0 \<in> set (healthy p')"
  using probing_backend_recovers [of True 9 "sample_pool (Probing 0 1)" 0 0 1 1] sample_probing_wf [of 9]
  by (auto simp: sample_defs success_threshold_def)

text \<open>
  C10. In a build with \<open>debug_assertions\<close> and a well-formed pool, a passively checked backend cannot
  be lost: once its cooldown is over, one reconciliation pass followed by as many successes as its
  success threshold asks for, all at one instant, puts it back into the healthy vector.
\<close>

theorem cooled_down_backend_returns:
  assumes "pool_wf clk p" and "clk \<le> now" and "i < length (backends p)"
    and "\<not> has_active_health_check (backends p ! i)"
    and "cooldown_until (backends p ! i) = Some u" and "u \<le> now"
  shows "\<exists>p'. pool_run True ((now, ReconcileReadmit) #
       replicate (unat (success_threshold (backends p ! i))) (now, MarkSuccess i)) p = Some p' \<and>
     i \<in> set (healthy p')"
proof -
  obtain e where "earliest_readmit p = Some e"
    using assms by (auto simp: pool_wf_def readmit_ok_def)
  then have rec: "pool_apply True now ReconcileReadmit p = reconcile_readmit_at True now p"
    by (simp add: reconcile_readmit_def)
  obtain q where q: "reconcile_readmit_at True now p = Some q" "pool_wf now q" "pool_evolves p q"
    "health_state (backends q ! i) = Probing 0 (probe_budget (backends p ! i))"
    using reconcile_readmit_at_wf [OF assms(1,2)] assms(3-6) by blast
  have thr: "success_threshold (backends q ! i) = success_threshold (backends p ! i)"
    and len: "i < length (backends q)"
    using q(3) assms(3) by (auto simp: pool_evolves_def same_identity_def success_threshold_def)
  have "unat (0 :: u32) < unat (success_threshold (backends q ! i))"
    by (simp add: success_threshold_def max_1_pos unat_max)
  from mark_success_repeat [of True now, OF _ len q(4) this, of "unat (success_threshold (backends p ! i))"] q(2)
  show ?thesis using q(1) rec thr by auto
qed

theorem cooled_down_backend_returns_witness:
  "\<exists>p'. pool_run True ((9, ReconcileReadmit) # replicate 1 (9, MarkSuccess 0)) (sample_pool (Unhealthy 5)) = Some p' \<and>
        0 \<in> set (healthy p')"
  using cooled_down_backend_returns [where now = 9 and i = 0 and u = 5, OF sample_unhealthy_wf [of 5]]
  by (simp add: sample_defs success_threshold_def has_active_health_check_def cooldown_until_def)

end
