(* ===== verification/Lb_Upstream.thy ===== *)
theory Lb_Upstream
  imports Lb_Facade Lb_Pool_Trace
begin

text \<open>
  The upstream pool (\<open>upstream_pool.rs\<close>): a backend pool with its configured strategy, and the
  choice of an alternate backend for retries and hedges (\<open>alternate_backend.rs\<close>).  A request is
  the pair of the random source and the load-balancing key.
\<close>

section \<open>The upstream pool\<close>

record upstream_pool =
  up_pool :: backend_pool
  up_lb :: load_balancing
  up_policy :: lb_policy

type_synonym lb_request = "(u64 \<Rightarrow> u64) \<times> string"

record membership_summary_state =
  total_backends :: nat
  healthy_backends :: nat
  summary_epoch :: u64

record backend_runtime =
  rt_healthy :: bool
  rt_active_requests :: usize
  rt_ewma_latency_ms :: "real option"

definition from_runtime_upstream :: "backend_config list \<Rightarrow> lb_policy \<Rightarrow> string + upstream_pool" where
  "from_runtime_upstream cfgs policy =
     (case from_runtime_strategy (lp_strategy policy) of
        Inl e \<Rightarrow> Inl e
      | Inr lb \<Rightarrow> Inr \<lparr>up_pool = new_from_states (map backend_state_new cfgs), up_lb = lb, up_policy = policy\<rparr>)"

definition up_pick :: "bool \<Rightarrow> instant \<Rightarrow> lb_request \<Rightarrow> upstream_pool \<Rightarrow> (nat option \<times> upstream_pool) option" where
  "up_pick dbg now req u = do {
     p1 \<leftarrow> reconcile_readmit dbg now (up_pool u);
     (probe, p2) \<leftarrow> pick_probing_backend True p1;
     case probe of
       Some i \<Rightarrow> Some (Some i, u\<lparr>up_pool := p2\<rparr>)
     | None \<Rightarrow> do {
         (r, lb') \<leftarrow> lb_pick req (up_lb u) p2;
         Some (case r of
             None \<Rightarrow> (None, u\<lparr>up_pool := p2, up_lb := lb'\<rparr>)
           | Some i \<Rightarrow> (Some i, u\<lparr>up_pool := begin_request i p2, up_lb := lb'\<rparr>))
       }
   }"

definition up_pick_without_begin ::
  "bool \<Rightarrow> instant \<Rightarrow> lb_request \<Rightarrow> upstream_pool \<Rightarrow> (nat option \<times> upstream_pool) option" where
  "up_pick_without_begin dbg now req u = do {
     p1 \<leftarrow> reconcile_readmit dbg now (up_pool u);
     (probe, p2) \<leftarrow> pick_probing_backend False p1;
     case probe of
       Some i \<Rightarrow> Some (Some i, u\<lparr>up_pool := p2\<rparr>)
     | None \<Rightarrow> do {
         (r, lb') \<leftarrow> lb_pick req (up_lb u) p2;
         Some (r, u\<lparr>up_pool := p2, up_lb := lb'\<rparr>)
       }
   }"

definition up_pick_readonly :: "lb_request \<Rightarrow> upstream_pool \<Rightarrow> (nat option \<times> upstream_pool) option" where
  "up_pick_readonly req u = do {
     (r, lb') \<leftarrow> lb_pick_readonly req (up_lb u) (up_pool u);
     Some (r, u\<lparr>up_lb := lb'\<rparr>)
   }"

definition begin_request_if_healthy :: "nat \<Rightarrow> upstream_pool \<Rightarrow> bool \<times> upstream_pool" where
  "begin_request_if_healthy index u =
     (if is_healthy_index index (up_pool u)
      then (True, u\<lparr>up_pool := begin_request index (up_pool u)\<rparr>)
      else (False, u))"

text \<open>The operations that only forward to the pool.\<close>

definition up_forward :: "bool \<Rightarrow> instant \<Rightarrow> pool_op \<Rightarrow> upstream_pool \<Rightarrow> upstream_pool option" where
  "up_forward dbg now op1 u = do {
     p \<leftarrow> pool_apply dbg now op1 (up_pool u);
     Some (u\<lparr>up_pool := p\<rparr>)
   }"

definition membership_summary :: "upstream_pool \<Rightarrow> membership_summary_state" where
  "membership_summary u =
     \<lparr>total_backends = length (backends (up_pool u)), healthy_backends = length (healthy (up_pool u)),
      summary_epoch = membership_epoch (up_pool u)\<rparr>"

definition backend_runtime_state :: "nat \<Rightarrow> upstream_pool \<Rightarrow> backend_runtime option" where
  "backend_runtime_state index u = do {
     b \<leftarrow> vec_get (backends (up_pool u)) index;
     Some \<lparr>rt_healthy = is_healthy_index index (up_pool u), rt_active_requests = active_requests b,
           rt_ewma_latency_ms = ewma_latency_ms b\<rparr>
   }"

section \<open>Alternate backends\<close>

datatype alternate_mode = LoadBalancerReadonly | HealthyFallback

datatype alternate_denial = NoHealthyBackends | OnlyExcludedBackendsHealthy | PoolUnavailable | BackendAddressMissing

datatype alternate_decision = SelectAlternate nat alternate_mode | DoNotSelect alternate_denial

definition is_excluded :: "nat \<Rightarrow> nat list \<Rightarrow> bool" where
  "is_excluded index excluded = (index \<in> set excluded)"

definition healthy_fallback_choice :: "upstream_pool \<Rightarrow> nat list \<Rightarrow> alternate_decision" where
  "healthy_fallback_choice u excluded =
     (case (if healthy_fallback (lp_alternate (up_policy u))
            then List.find (\<lambda>i. \<not> is_excluded i excluded) (healthy (up_pool u)) else None) of
        Some i \<Rightarrow> SelectAlternate i HealthyFallback
      | None \<Rightarrow> (if healthy_backends (membership_summary u) = 0 then DoNotSelect NoHealthyBackends
                 else DoNotSelect OnlyExcludedBackendsHealthy))"

definition choose_alternate_backend ::
  "(u64 \<Rightarrow> u64) \<Rightarrow> upstream_pool \<Rightarrow> nat list \<Rightarrow> string option \<Rightarrow> (alternate_decision \<times> upstream_pool) option" where
  "choose_alternate_backend g u excluded lb_key =
     (if readonly_lb_pick (lp_alternate (up_policy u))
      then do {
        (r, u') \<leftarrow> up_pick_readonly (g, case lb_key of None \<Rightarrow> [] | Some k \<Rightarrow> k) u;
        Some (case r of
            Some i \<Rightarrow> (if is_excluded i excluded then (healthy_fallback_choice u' excluded, u')
                       else (SelectAlternate i LoadBalancerReadonly, u'))
          | None \<Rightarrow> (healthy_fallback_choice u' excluded, u'))
      }
      else Some (healthy_fallback_choice u excluded, u))"

section \<open>The upstream invariant\<close>

definition up_inv :: "bool \<Rightarrow> nat \<Rightarrow> instant \<Rightarrow> upstream_pool \<Rightarrow> bool" where
  "up_inv dbg n clk u \<longleftrightarrow> pool_inv dbg clk (up_pool u) \<and> length (backends (up_pool u)) \<le> 2 ^ 15 \<and>
     (\<forall>b \<in> set (backends (up_pool u)). 0 < weight b) \<and> lb_coherent n (up_pool u) (up_lb u)"

lemma up_inv_ready: "up_inv dbg n clk u \<Longrightarrow> pool_ready (up_pool u)"
  using pool_wf_ready by (cases dbg) (auto simp: up_inv_def pool_inv_def pool_ready_def)

lemma evolves_weights:
  assumes "pool_evolves p p'" and "\<forall>b \<in> set (backends p). 0 < weight b"
  shows "\<forall>b \<in> set (backends p'). 0 < weight b"
  using assms by (auto simp: pool_evolves_def same_identity_def all_set_conv_all_nth)

text \<open>One step of the pool keeps the invariant, with one more membership change allowed for.\<close>

lemma up_inv_step:
  assumes "up_inv dbg n clk u" and "pool_evolves (up_pool u) p'" and "pool_inv dbg now p'"
  shows "up_inv dbg (Suc n) now (u\<lparr>up_pool := p'\<rparr>)"
proof -
  have "length (backends p') = length (backends (up_pool u))" using assms(2) by (simp add: pool_evolves_def)
  then show ?thesis
    using assms lbp.coherent_evolves [OF _ assms(2)] evolves_weights [OF assms(2)] by (simp add: up_inv_def)
qed

lemma up_inv_commute [simp]:
  "up_inv dbg n clk (u\<lparr>up_lb := l, up_pool := p\<rparr>) = up_inv dbg n clk (u\<lparr>up_pool := p, up_lb := l\<rparr>)"
  by (simp add: up_inv_def)

definition served_ok :: "backend_pool \<Rightarrow> nat option \<Rightarrow> bool" where
  "served_ok p r \<longleftrightarrow>
     (case r of
        Some i \<Rightarrow> i \<in> set (healthy p) \<union> set (probing p)
      | None \<Rightarrow> healthy p = [] \<and> (\<forall>i \<in> set (probing p). \<not> probe_ready (backends p ! i)))"

lemma pick_probing_members:
  assumes "pool_inv dbg clk p" and "pick_probing_backend beg p = Some (r, p')"
  shows "probing p' = probing p \<and> (\<forall>i. r = Some i \<longrightarrow> i \<in> set (probing p)) \<and>
     (r = None \<longrightarrow> p' = p \<and> (\<forall>i \<in> set (probing p). \<not> probe_ready (backends p ! i)))"
proof (cases "probing p = []")
  case True
  then show ?thesis using assms(2) by (simp add: pick_probing_backend_def)
next
  case False
  then have "members_match p" using assms(1) by (cases dbg) (auto simp: pool_inv_def pool_wf_def)
  then show ?thesis
    using pick_probing_backend_result [of p beg] assms(2)
    by (auto simp: Let_def begin_request_def vec_get_def split: if_splits)
qed

lemma pick_steps:
  assumes "up_inv dbg n clk u" and "clk \<le> now"
  obtains p1 probe p2 where "reconcile_readmit dbg now (up_pool u) = Some p1" "pool_inv dbg now p1"
    "pick_probing_backend beg p1 = Some (probe, p2)" "pool_inv dbg now p2" "up_inv dbg (n + 2) now (u\<lparr>up_pool := p2\<rparr>)"
proof -
  have "pool_inv dbg clk (up_pool u)" using assms(1) by (simp add: up_inv_def)
  from pool_apply_inv [OF this assms(2), of ReconcileReadmit] obtain p1
    where p1: "reconcile_readmit dbg now (up_pool u) = Some p1" "pool_inv dbg now p1" "pool_evolves (up_pool u) p1" by auto
  from pool_apply_inv [OF p1(2) order_refl, of "PickProbing beg"] obtain probe p2
    where p2: "pick_probing_backend beg p1 = Some (probe, p2)" "pool_inv dbg now p2" "pool_evolves p1 p2" by auto
  have "up_inv dbg (n + 2) now (u\<lparr>up_pool := p2\<rparr>)"
    using up_inv_step [OF up_inv_step [OF assms(1) p1(3,2)], of p2 now] p2 by simp
  then show ?thesis using that p1 p2 by blast
qed

lemma begin_request_members [simp]:
  "healthy (begin_request i p) = healthy p" "probing (begin_request i p) = probing p"
  by (simp_all add: begin_request_def vec_get_def)

lemma up_pick_inv:
  assumes inv: "up_inv dbg n clk u" and clk: "clk \<le> now" and req: "gen_range_ok g" and n: "n + 3 < 2 ^ 64"
  shows "\<exists>r u'. up_pick dbg now (g, key) u = Some (r, u') \<and> up_inv dbg (n + 3) now u' \<and> served_ok (up_pool u') r"
proof -
  obtain p1 probe p2 where p: "reconcile_readmit dbg now (up_pool u) = Some p1" "pool_inv dbg now p1"
    "pick_probing_backend True p1 = Some (probe, p2)" "pool_inv dbg now p2" and inv2: "up_inv dbg (n + 2) now (u\<lparr>up_pool := p2\<rparr>)"
    by (rule pick_steps [OF inv clk])
  note mem = pick_probing_members [OF p(2,3)]
  show ?thesis
  proof (cases probe)
    case (Some i)
    have "up_inv dbg (n + 3) now (u\<lparr>up_pool := p2\<rparr>)" using up_inv_step [OF inv2, of p2 now] p(4) by (simp add: numeral_3_eq_3)
    then show ?thesis using Some p(1,3) mem by (auto simp: up_pick_def served_ok_def)
  next
    case None
    have rdy: "pool_ready p2" using up_inv_ready [OF inv2] by simp
    obtain r lb' where pick: "lb_pick (g, key) (up_lb u) p2 = Some (r, lb')" "lb_coherent (n + 2) p2 lb'"
      "pick_ok p2 r"
      using lbp.pick_member [OF rdy, of "(g, key)" "n + 2" "up_lb u"] inv2 req n by (auto simp: up_inv_def)
    have inv3: "up_inv dbg (n + 2) now (u\<lparr>up_pool := p2, up_lb := lb'\<rparr>)"
      using inv2 pick(2) by (simp add: up_inv_def)
    have step: "up_inv dbg (n + 3) now (u\<lparr>up_pool := q, up_lb := lb'\<rparr>)" if "q = p2 \<or> q = begin_request i p2" for q i
      using up_inv_step [OF inv3, of q now] that p(4) pool_apply_inv [OF p(4) order_refl, of "BeginRequest i"]
      by (auto simp: numeral_3_eq_3)
    show ?thesis
      using None p(1,3) pick mem step
      by (cases r) (auto simp: up_pick_def served_ok_def pick_ok_def)
  qed
qed

section \<open>Histories of an upstream pool\<close>

datatype upstream_op =
    UpPick lb_request
  | UpPickWithoutBegin lb_request
  | UpBeginIfHealthy nat
  | UpForward pool_op

text \<open>The answer of an operation that picks is recorded with the pool after it.\<close>

fun up_apply :: "bool \<Rightarrow> instant \<Rightarrow> upstream_op \<Rightarrow> upstream_pool
    \<Rightarrow> ((backend_pool \<times> nat option) list \<times> upstream_pool) option" where
  "up_apply dbg now (UpPick req) u = map_option (\<lambda>(r, u'). ([(up_pool u', r)], u')) (up_pick dbg now req u)"
| "up_apply dbg now (UpPickWithoutBegin req) u =
     map_option (\<lambda>(r, u'). ([(up_pool u', r)], u')) (up_pick_without_begin dbg now req u)"
| "up_apply dbg now (UpBeginIfHealthy i) u = Some ([], snd (begin_request_if_healthy i u))"
| "up_apply dbg now (UpForward op1) u = map_option (\<lambda>u'. ([], u')) (up_forward dbg now op1 u)"

fun up_run :: "bool \<Rightarrow> (instant \<times> upstream_op) list \<Rightarrow> upstream_pool
    \<Rightarrow> ((backend_pool \<times> nat option) list \<times> upstream_pool) option" where
  "up_run dbg [] u = Some ([], u)"
| "up_run dbg ((now, op1) # ops) u = do {
     (out, u') \<leftarrow> up_apply dbg now op1 u;
     (rest, u'') \<leftarrow> up_run dbg ops u';
     Some (out @ rest, u'')
   }"

fun op_ok :: "upstream_op \<Rightarrow> bool" where
  "op_ok (UpPick (g, key)) = gen_range_ok g"
| "op_ok (UpPickWithoutBegin (g, key)) = gen_range_ok g"
| "op_ok (UpBeginIfHealthy i) = True"
| "op_ok (UpForward op1) = True"

fun up_ops_ok :: "instant \<Rightarrow> (instant \<times> upstream_op) list \<Rightarrow> bool" where
  "up_ops_ok clk [] = True"
| "up_ops_ok clk ((now, op1) # ops) = (clk \<le> now \<and> op_ok op1 \<and> up_ops_ok now ops)"

lemma up_inv_mono:
  assumes "up_inv dbg n clk u"
  shows "up_inv dbg (n + k) clk u"
proof (induction k)
  case (Suc k)
  then show ?case using up_inv_step [OF Suc.IH, of "up_pool u" clk] assms by (simp add: up_inv_def)
qed (simp add: assms)

lemma up_pick_without_begin_inv:
  assumes inv: "up_inv dbg n clk u" and clk: "clk \<le> now" and req: "gen_range_ok g" and n: "n + 3 < 2 ^ 64"
  shows "\<exists>r u'. up_pick_without_begin dbg now (g, key) u = Some (r, u') \<and> up_inv dbg (n + 3) now u' \<and>
     served_ok (up_pool u') r"
proof -
  obtain p1 probe p2 where p: "reconcile_readmit dbg now (up_pool u) = Some p1" "pool_inv dbg now p1"
    "pick_probing_backend False p1 = Some (probe, p2)" and inv2: "up_inv dbg (n + 2) now (u\<lparr>up_pool := p2\<rparr>)"
    by (rule pick_steps [OF inv clk])
  have rdy: "pool_ready p2" using up_inv_ready [OF inv2] by simp
  obtain r lb' where pick: "lb_pick (g, key) (up_lb u) p2 = Some (r, lb')" "lb_coherent (n + 2) p2 lb'"
    "pick_ok p2 r"
    using lbp.pick_member [OF rdy, of "(g, key)" "n + 2" "up_lb u"] inv2 req n by (auto simp: up_inv_def)
  have inv3: "up_inv dbg (n + 3) now (u\<lparr>up_pool := p2\<rparr>)" "up_inv dbg (n + 3) now (u\<lparr>up_pool := p2, up_lb := lb'\<rparr>)"
    using up_inv_mono [OF inv2, of 1] up_inv_mono [of dbg "n + 2" now "u\<lparr>up_pool := p2, up_lb := lb'\<rparr>" 1]
      inv2 pick(2) by (simp_all add: up_inv_def numeral_3_eq_3)
  from pick_probing_members [OF p(2,3)] show ?thesis
    using p(1,3) pick inv3
    by (cases probe; cases r) (auto simp: up_pick_without_begin_def served_ok_def pick_ok_def)
qed

lemma up_apply_inv:
  assumes "up_inv dbg n clk u" and "clk \<le> now" and "op_ok op1" and "n + 3 < 2 ^ 64"
  shows "\<exists>out u'. up_apply dbg now op1 u = Some (out, u') \<and> up_inv dbg (n + 3) now u' \<and>
     list_all (\<lambda>(q, r). served_ok q r) out"
proof (cases op1)
  case (UpPick req)
  then show ?thesis using up_pick_inv [OF assms(1,2) _ assms(4)] assms(3) by (cases req) fastforce
next
  case (UpPickWithoutBegin req)
  then show ?thesis using up_pick_without_begin_inv [OF assms(1,2) _ assms(4)] assms(3) by (cases req) fastforce
next
  case (UpBeginIfHealthy i)
  have "pool_inv dbg now (up_pool u)" using assms(1,2) pool_inv_later by (auto simp: up_inv_def)
  from pool_apply_inv [OF this order_refl, of "BeginRequest i"] this
  have "up_inv dbg (Suc n) now (snd (begin_request_if_healthy i u))"
    using up_inv_step [OF assms(1)] assms(1,2)
      up_inv_step [OF assms(1), of "up_pool u" now] by (auto simp: begin_request_if_healthy_def)
  then show ?thesis using UpBeginIfHealthy up_inv_mono [of dbg "Suc n" now _ 2] by (simp add: numeral_3_eq_3)
next
  case (UpForward op2)
  have "pool_inv dbg clk (up_pool u)" using assms(1) by (simp add: up_inv_def)
  from pool_apply_inv [OF this assms(2), of op2] obtain p' where
    p': "pool_apply dbg now op2 (up_pool u) = Some p'" "pool_inv dbg now p'" "pool_evolves (up_pool u) p'" by blast
  then show ?thesis
    using UpForward up_inv_mono [OF up_inv_step [OF assms(1) p'(3,2)], of 2] by (simp add: up_forward_def numeral_3_eq_3)
qed

lemma up_run_inv:
  "up_inv dbg n clk u \<Longrightarrow> up_ops_ok clk ops \<Longrightarrow> n + 3 * length ops < 2 ^ 64 \<Longrightarrow>
     \<exists>out u' t. up_run dbg ops u = Some (out, u') \<and> list_all (\<lambda>(q, r). served_ok q r) out \<and> up_inv dbg (n + 3 * length ops) t u'"
proof (induction ops arbitrary: n clk u)
  case Nil
  then show ?case by auto
next
  case (Cons a ops)
  obtain now op1 where a: "a = (now, op1)" by force
  obtain out u' where s: "up_apply dbg now op1 u = Some (out, u')" "up_inv dbg (n + 3) now u'"
    "list_all (\<lambda>(q, r). served_ok q r) out"
    using up_apply_inv [OF Cons.prems(1), of now op1] Cons.prems(2,3) a by auto
  obtain rest u'' t where "up_run dbg ops u' = Some (rest, u'')" "list_all (\<lambda>(q, r). served_ok q r) rest"
    "up_inv dbg (n + 3 + 3 * length ops) t u''"
    using Cons.IH [OF s(2)] Cons.prems(2,3) a by auto
  then show ?case using s a by (auto simp: algebra_simps)
qed

lemma up_apply_policy: "up_apply dbg now op1 u = Some (out, u') \<Longrightarrow> up_policy u' = up_policy u"
  by (cases op1) (auto simp: up_pick_def up_pick_without_begin_def begin_request_if_healthy_def up_forward_def
      bind_eq_Some_conv split: option.splits)

lemma up_run_policy: "up_run dbg ops u = Some (out, u') \<Longrightarrow> up_policy u' = up_policy u"
  by (induction ops arbitrary: u out) (auto simp: bind_eq_Some_conv dest!: up_apply_policy)

section \<open>Request accounting\<close>

abbreviation actives :: "backend_pool \<Rightarrow> usize list" where
  "actives p \<equiv> map active_requests (backends p)"

lemma map_update_same: "f b = f (xs ! i) \<Longrightarrow> map f (xs[i := b]) = map f xs"
  by (simp add: map_update list_update_same_conv) (metis length_map list_update_beyond list_update_id map_update not_le)

lemma begin_request_actives:
  "actives (begin_request i p) = (if i < length (backends p) then (actives p)[i := actives p ! i + 1] else actives p)"
  by (simp add: begin_request_def vec_get_def map_update)

lemma mark_probing_backends:
  "debug_assert dbg (mark_probing i) p = Some p' \<Longrightarrow> backends p' = backends p"
  by (auto simp: debug_assert_def mark_probing_def vec_get_def vec_set_def
      split: if_splits option.splits bind_splits)

lemma readmit_step_actives:
  "readmit_step dbg now i (nxt, p) = Some (nxt', p') \<Longrightarrow> actives p' = actives p"
proof -
  assume step: "readmit_step dbg now i (nxt, p) = Some (nxt', p')"
  obtain r b' where r: "readmit_if_expired now (backends p ! i) = (r, b')" by force
  have same: "actives (p\<lparr>backends := (backends p)[i := b']\<rparr>) = actives p"
    using r by (simp, intro map_update_same)
      (auto simp: readmit_if_expired_def split: health_state.splits if_splits)
  from step r show ?thesis
    using same by (auto simp: readmit_step_def vec_get_def Let_def dest!: mark_probing_backends
        split: if_splits option.splits bind_splits)
qed

lemma readmit_loop_actives:
  "readmit_loop dbg now is (nxt, p) = Some (nxt', p') \<Longrightarrow> actives p' = actives p"
proof (induction "is" arbitrary: nxt p)
  case (Cons i js)
  then obtain n1 p1 where s: "readmit_step dbg now i (nxt, p) = Some (n1, p1)"
    "readmit_loop dbg now js (n1, p1) = Some (nxt', p')" by (auto split: bind_splits)
  then show ?case using Cons.IH readmit_step_actives by metis
qed simp

lemma reconcile_readmit_actives:
  "reconcile_readmit dbg now p = Some p' \<Longrightarrow> actives p' = actives p"
  by (auto simp: reconcile_readmit_def reconcile_readmit_at_def dest!: readmit_loop_actives
      split: option.splits if_splits bind_splits)

lemma try_acquire_actives: "active_requests (snd (try_acquire_probe_permit b)) = active_requests b"
  by (auto simp: try_acquire_probe_permit_def split: health_state.splits)

lemma probe_scan_actives: "probe_scan st os p = Some (r, p') \<Longrightarrow> actives p' = actives p \<and> length (backends p') = length (backends p)"
proof (induction os)
  case (Cons o1 os)
  then show ?case
    using try_acquire_actives
    by (auto simp: probe_scan.simps(2) Let_def vec_get_def intro!: map_update_same
        split: if_splits prod.splits bind_splits) (metis snd_conv)+
qed simp

lemma pick_probing_actives:
  assumes "pick_probing_backend beg p = Some (r, p')"
  shows "actives p' = (case r of Some i \<Rightarrow> if beg \<and> i < length (backends p) then (actives p)[i := actives p ! i + 1] else actives p
                      | None \<Rightarrow> actives p)"
  using assms probe_scan_actives
  by (auto simp: pick_probing_backend_def begin_request_actives split: if_splits option.splits bind_splits)

section \<open>Properties\<close>

lemma from_runtime_upstream_inv:
  assumes "from_runtime_upstream cfgs policy = Inr u" and "length cfgs \<le> 2 ^ 15"
  shows "up_inv dbg 0 clk u" and "up_policy u = policy"
proof -
  obtain lb where lb: "from_config (canonical_name (lp_strategy policy)) = Inr lb"
    "u = \<lparr>up_pool = new_from_states (map backend_state_new cfgs), up_lb = lb, up_policy = policy\<rparr>"
    using assms(1) by (auto simp: from_runtime_upstream_def from_runtime_strategy_def split: sum.splits)
  have "0 < weight (backend_state_new c)" for c
    using max_1_pos [of "bc_weight c"] by (simp add: backend_state_new_def word_less_nat_alt)
  moreover have "\<forall>b \<in> set (map backend_state_new cfgs). is_healthy b"
    by (auto simp: backend_state_new_def is_healthy_def)
  ultimately show "up_inv dbg 0 clk u"
    using lb from_config_coherent [OF lb(1)] pool_inv_new assms(2) by (simp add: up_inv_def)
  show "up_policy u = policy" using lb(2) by simp
qed

text \<open>Every pool that a history of a configured upstream reaches satisfies the invariant of its build.\<close>

lemma reached_upstream_inv:
  assumes "from_runtime_upstream cfgs policy = Inr u0" and "length cfgs \<le> 2 ^ 15"
    and "up_ops_ok clk ops" and "3 * length ops < 2 ^ 64" and "up_run dbg ops u0 = Some (out, u)"
  obtains t where "up_inv dbg (3 * length ops) t u" and "up_policy u = policy"
  using up_run_inv [OF from_runtime_upstream_inv(1) [OF assms(1,2)] assms(3), of dbg] assms(4,5)
    up_run_policy [OF assms(5)] from_runtime_upstream_inv(2) [OF assms(1,2)] by auto

text \<open>
  C18. An upstream pool always serves from its membership vectors: in both builds every
  clock-monotone history of picks, health feedback and accounting on a freshly configured pool of up
  to 2^15 backends runs without a panic; every pick answers a member of the healthy or of the probing
  vector, and answers nothing only when the healthy vector is empty and no backend of the probing
  vector has a free probe.  With \<open>debug_assertions\<close> these vectors hold exactly the healthy and the
  probing backends (C1); without them they are the initial ones (C7).
\<close>

theorem upstream_history_served:
  assumes "from_runtime_upstream cfgs policy = Inr u" and "length cfgs \<le> 2 ^ 15"
    and "up_ops_ok clk ops" and "3 * length ops < 2 ^ 64"
  shows "\<exists>out u'. up_run dbg ops u = Some (out, u') \<and> list_all (\<lambda>(q, r). served_ok q r) out"
  using up_run_inv [OF from_runtime_upstream_inv(1) [OF assms(1,2)] assms(3), of dbg] assms(4) by auto

definition sample_policy :: lb_policy where
  "sample_policy = \<lparr>lp_strategy = StRandom, lp_key = None, lp_key_spec = None,
     lp_alternate = \<lparr>readonly_lb_pick = True, healthy_fallback = True\<rparr>\<rparr>"

lemma sample_upstream:
  "from_runtime_upstream cfgs sample_policy =
     Inr \<lparr>up_pool = new_from_states (map backend_state_new cfgs), up_lb = LbRandom random_new, up_policy = sample_policy\<rparr>"
  by (simp add: from_runtime_upstream_def from_runtime_strategy_def sample_policy_def from_config_def
      Let_def str_eval strategy_names)

text \<open>Two backends, the first of which is ejected between two picks.\<close>

definition pair_configs :: "backend_config list" where
  "pair_configs = [\<lparr>bc_id = ''a'', bc_address = ''10.0.0.1:80'', bc_weight = 1, bc_health_check = None\<rparr>,
     \<lparr>bc_id = ''b'', bc_address = ''10.0.0.2:80'', bc_weight = 2, bc_health_check = None\<rparr>]"

definition pair_upstream :: upstream_pool where
  "pair_upstream = \<lparr>up_pool = new_from_states (map backend_state_new pair_configs), up_lb = LbRandom random_new,
     up_policy = sample_policy\<rparr>"

lemma pair_upstream_configured: "from_runtime_upstream pair_configs sample_policy = Inr pair_upstream"
  by (simp add: sample_upstream pair_upstream_def)

definition pair_ops :: "(instant \<times> upstream_op) list" where
  "pair_ops = [(1, UpPick (\<lambda>_. 0, ''k'')), (2, UpForward (MarkFailure 0)), (3, UpForward (MarkFailure 0)),
     (4, UpForward (MarkFailure 0)), (5, UpPick (\<lambda>_. 0, ''k''))]"

lemma pair_ops_ok: "up_ops_ok 0 pair_ops" "3 * length pair_ops < 2 ^ 64" "length pair_configs \<le> 2 ^ 15"
  by (simp_all add: pair_ops_def pair_configs_def gen_range_ok_def)

lemmas pick_eval = reconcile_readmit_def reconcile_readmit_at_def pick_probing_backend_def random_pick_def random_pick_readonly_def
  random_new_def pick_from_members_def build_weighted_members_def healthy_members_def vec_get_def List.map_filter_simps
  saturating_add_def partition_point_def binary_search_by_def bs_loop.simps begin_request_def

lemmas eject_eval = mark_failure_def mark_failure_with_reason_def record_failure_def sync_healthy_def sync_probing_def is_healthy_def
  is_probing_def failure_threshold_def debug_assert_def mark_unhealthy_def vec_set_def swap_remove_def note_readmit_def
  has_active_health_check_def cooldown_until_def cooldown_duration_def from_millis_def

lemma pair_run:
  "\<exists>q1 q2 u'. up_run True pair_ops pair_upstream = Some ([(q1, Some 0), (q2, Some 1)], u') \<and> healthy q1 = [0, 1] \<and> healthy q2 = [1]"
  by (simp add: pair_ops_def pair_upstream_def pair_configs_def new_from_states_def backend_state_new_def up_pick_def up_forward_def
      pick_eval eject_eval Let_def)

theorem upstream_history_served_witness:
  "\<exists>q1 q2 u'. up_run True pair_ops pair_upstream = Some ([(q1, Some 0), (q2, Some 1)], u') \<and>
     healthy q1 = [0, 1] \<and> served_ok q1 (Some 0) \<and> healthy q2 = [1] \<and> served_ok q2 (Some 1)"
proof -
  obtain q1 q2 u' where "up_run True pair_ops pair_upstream = Some ([(q1, Some 0), (q2, Some 1)], u')"
    "healthy q1 = [0, 1]" "healthy q2 = [1]" using pair_run by blast
  then show ?thesis
    using upstream_history_served [OF pair_upstream_configured pair_ops_ok(3,1,2), of True] by auto
qed

text \<open>
  Accounting of a pick is exact, in every build: the chosen backend has one more active
  request than before, all other counters are unchanged, and a pick without an answer changes
  none.
\<close>

theorem pick_counts_one_request:
  assumes "up_pick dbg now req u = Some (r, u')"
  shows "actives (up_pool u') =
     (case r of
        Some i \<Rightarrow> (if i < length (actives (up_pool u))
                   then (actives (up_pool u))[i := actives (up_pool u) ! i + 1] else actives (up_pool u))
      | None \<Rightarrow> actives (up_pool u))"
proof -
  from assms obtain p1 probe p2 where p: "reconcile_readmit dbg now (up_pool u) = Some p1"
    "pick_probing_backend True p1 = Some (probe, p2)" by (auto simp: up_pick_def split: bind_splits)
  have a1: "actives p1 = actives (up_pool u)" using reconcile_readmit_actives [OF p(1)] .
  then have len: "length (backends p1) = length (backends (up_pool u))" by (metis length_map)
  note a2 = pick_probing_actives [OF p(2)]
  show ?thesis
  proof (cases probe)
    case (Some i)
    then show ?thesis using assms p a1 a2 len by (auto simp: up_pick_def)
  next
    case None
    have a3: "actives p2 = actives (up_pool u)" using a1 a2 None by simp
    have "length (backends p2) = length (backends (up_pool u))" using a3 by (metis length_map)
    then show ?thesis using assms p None a3
      by (auto simp: up_pick_def begin_request_actives split: bind_splits option.splits)
  qed
qed

theorem pick_counts_one_request_witness:
  "\<exists>r u'. up_pick True 5 (\<lambda>_. 0, ''k'')
     \<lparr>up_pool = new_from_states [], up_lb = LbRandom random_new, up_policy = sample_policy\<rparr> = Some (r, u') \<and>
     actives (up_pool u') = []"
proof -
  let ?u = "\<lparr>up_pool = new_from_states [], up_lb = LbRandom random_new, up_policy = sample_policy\<rparr>"
  obtain r u' where pick: "up_pick True 5 (\<lambda>_. 0, ''k'') ?u = Some (r, u')"
    using up_pick_inv [OF from_runtime_upstream_inv(1) [OF sample_upstream [of "[]"], where dbg = True and clk = 0], of 5 "\<lambda>_. 0" "''k''"]
    by (auto simp: gen_range_ok_def)
  from pick_counts_one_request [OF this] have "actives (up_pool u') = []" by (cases r) simp_all
  then show ?thesis using pick by blast
qed

lemma pick_readonly_member:
  assumes "pool_ready p" and "gen_range_ok g" and "lb_coherent n p lb" and "n < 2 ^ 64"
  shows "\<exists>r lb'. lb_pick_readonly (g, key) lb p = Some (r, lb') \<and> (\<forall>i. r = Some i \<longrightarrow> i \<in> set (healthy p))"
proof (cases lb)
  case (LbRoundRobin s)
  then show ?thesis using rrr.pick_member [OF assms(1) _ _ assms(4), of s] assms(3) by (fastforce simp: pick_ok_def)
next
  case (LbRandom s)
  then show ?thesis using rnd.pick_member [OF assms(1,2) _ assms(4), of s] assms(3)
    by (fastforce simp: pick_ok_def random_pick_def split: prod.splits)
next
  case LbLeastConnections
  then show ?thesis using lcp.pick_member [OF assms(1) _ _ assms(4)] by (fastforce simp: pick_ok_def lc_pick_def)
next
  case (LbLatencyAware s)
  then show ?thesis using lar.pick_member [OF assms(1) _ _ assms(4)] by (fastforce simp: pick_ok_def)
qed simp_all

lemma normalized_fallback: "lb_policy_normalize t k = Inr pol \<Longrightarrow> healthy_fallback (lp_alternate pol)"
  by (auto simp: lb_policy_normalize_def Let_def split: if_splits option.splits sum.splits)

lemma healthy_fallback_choice_cases:
  assumes "healthy_fallback (lp_alternate (up_policy u))"
  shows "case healthy_fallback_choice u excluded of
     SelectAlternate i m \<Rightarrow> i \<in> set (healthy (up_pool u)) - set excluded
   | DoNotSelect d \<Rightarrow> set (healthy (up_pool u)) \<subseteq> set excluded \<and>
       (d = NoHealthyBackends \<and> healthy (up_pool u) = [] \<or>
        d = OnlyExcludedBackendsHealthy \<and> healthy (up_pool u) \<noteq> [])"
proof (cases "List.find (\<lambda>i. \<not> is_excluded i excluded) (healthy (up_pool u))")
  case None
  then have "set (healthy (up_pool u)) \<subseteq> set excluded" by (auto simp: find_None_iff is_excluded_def)
  then show ?thesis using None assms by (simp add: healthy_fallback_choice_def membership_summary_def)
next
  case (Some i)
  then have "i \<in> set (healthy (up_pool u)) - set excluded"
    by (auto simp: find_Some_iff is_excluded_def in_set_conv_nth)
  then show ?thesis using Some assms by (simp add: healthy_fallback_choice_def)
qed

text \<open>
  C19. The choice of an alternate backend is sound and complete under the policy the runtime
  configuration builds, in every pool that a history of operations reaches in either build: an
  alternate is found exactly when the healthy vector has a backend outside the exclusion list, the
  one chosen is such a backend, and a denial says whether the healthy vector is empty or all its
  backends are excluded.  With \<open>debug_assertions\<close> the chosen backend is healthy; without them the
  healthy vector is the initial one (C7), so it may have been ejected.
\<close>

theorem alternate_backend_sound_complete:
  assumes "lb_policy_normalize lb_type cfg_key = Inr policy"
    and "from_runtime_upstream cfgs policy = Inr u0" and "length cfgs \<le> 2 ^ 15"
    and "up_ops_ok clk ops" and "3 * length ops < 2 ^ 64" and "up_run dbg ops u0 = Some (out, u)"
    and "gen_range_ok g"
  shows "\<exists>d u'. choose_alternate_backend g u excluded key = Some (d, u') \<and>
     (case d of
        SelectAlternate i m \<Rightarrow> i \<in> set (healthy (up_pool u)) - set excluded \<and>
          (dbg \<longrightarrow> is_healthy (backends (up_pool u) ! i))
      | DoNotSelect d \<Rightarrow> set (healthy (up_pool u)) \<subseteq> set excluded \<and>
          (d = NoHealthyBackends \<and> healthy (up_pool u) = [] \<or>
           d = OnlyExcludedBackendsHealthy \<and> healthy (up_pool u) \<noteq> []))"
proof -
  obtain t where inv: "up_inv dbg (3 * length ops) t u" and pol: "up_policy u = policy"
    by (rule reached_upstream_inv [OF assms(2-6)])
  have fb: "healthy_fallback (lp_alternate (up_policy u))" unfolding pol by (rule normalized_fallback [OF assms(1)])
  have healthy: "is_healthy (backends (up_pool u) ! i)" if "dbg" "i \<in> set (healthy (up_pool u))" for i
    using inv that pool_inv_member [of t "up_pool u" i] by (auto simp: up_inv_def)
  let ?k = "case key of None \<Rightarrow> [] | Some k \<Rightarrow> k"
  have coh: "lb_coherent (3 * length ops) (up_pool u) (up_lb u)" using inv by (simp add: up_inv_def)
  obtain r lb' where r: "lb_pick_readonly (g, ?k) (up_lb u) (up_pool u) = Some (r, lb')"
    "\<forall>i. r = Some i \<longrightarrow> i \<in> set (healthy (up_pool u))"
    using pick_readonly_member [OF up_inv_ready [OF inv] assms(7) coh assms(5), of ?k] by blast
  have "healthy_fallback_choice (u\<lparr>up_lb := lb'\<rparr>) excluded = healthy_fallback_choice u excluded"
    by (simp add: healthy_fallback_choice_def membership_summary_def)
  with healthy_fallback_choice_cases [OF fb, of excluded] show ?thesis
    using r healthy
    by (auto simp: choose_alternate_backend_def up_pick_readonly_def is_excluded_def
        split: option.splits alternate_decision.splits)
qed

theorem alternate_backend_sound_complete_witness:
  "\<exists>u' m. choose_alternate_backend (\<lambda>_. 0) pair_upstream [0] None = Some (SelectAlternate 1 m, u')"
proof -
  have pol: "lb_policy_normalize ''random'' None = Inr sample_policy"
    by (simp add: lb_policy_normalize_def from_lb_type_def Let_def str_eval strategy_names sample_policy_def
        normalize_optional_string_def supports_readonly_alternate_pick_def)
  have h: "healthy (up_pool pair_upstream) = [0, 1]"
    by (simp add: pair_upstream_def pair_configs_def new_from_states_def backend_state_new_def is_healthy_def)
  have "\<exists>d u'. choose_alternate_backend (\<lambda>_. 0) pair_upstream [0] None = Some (d, u') \<and>
      (case d of SelectAlternate i m \<Rightarrow> i = 1 | DoNotSelect _ \<Rightarrow> False)"
    using alternate_backend_sound_complete [OF pol pair_upstream_configured pair_ops_ok(3), where ops = "[]" and dbg = True and
        u = pair_upstream and g = "\<lambda>_. 0" and excluded = "[0]" and key = None]
    by (fastforce simp: h gen_range_ok_def split: alternate_decision.splits)
  then obtain d u' where "choose_alternate_backend (\<lambda>_. 0) pair_upstream [0] None = Some (d, u')"
    "case d of SelectAlternate i m \<Rightarrow> i = 1 | DoNotSelect _ \<Rightarrow> False" by blast
  then show ?thesis by (cases d) auto
qed

end
