(* ===== verification/Upstream_Errors.thy ===== *)
theory Upstream_Errors
  imports Lb_Upstream "HOL-Library.Sublist"
begin

text \<open>
  The errors of a forward and the policies that act on them (crate \<open>errors\<close>): the error types
  (\<open>proxy.rs\<close>, \<open>pool.rs\<close>, \<open>bridge.rs\<close>), the classification of an upstream error by its text
  (\<open>upstream.rs\<close>), and the decisions to retry and to hedge (\<open>retry.rs\<close>).  An error of the HTTP
  client is what the code reads of it: the text of the error and of each of its causes, and whether
  it happened while connecting.
\<close>

section \<open>Errors\<close>

datatype std_error = StdError (std_display: string) (std_source: "std_error option")

record client_error =
  ce_error :: std_error
  ce_is_connect :: bool

datatype bridge_error = InvalidMethod | InvalidUri | InvalidHeader | BuildError string

datatype pool_error =
    UnknownBackend string
  | BackendOverloaded string
  | PoolCircuitOpen string
  | PoolSend client_error
  | InflightLimiterClosed

datatype proxy_error =
    BridgeFailed bridge_error
  | PoolFailed pool_error
  | TransportFailed string
  | ProtocolFailed string
  | TimedOut
  | TlsFailed string

section \<open>Classification of error texts\<close>

datatype error_category = CatTimeout | CatTransport | CatTls | CatProtocol | CatInternal

datatype tls_reason =
    TlsUnknownIssuer
  | TlsExpiredCertificate
  | TlsHostnameMismatch
  | TlsAlpn
  | TlsHandshake
  | TlsClientCertificateMissing
  | TlsClientKeyMissing
  | TlsClientIdentityInvalid
  | TlsClientAuthRejected
  | TlsClientCertificateExpired

record error_classification =
  ec_category :: error_category
  ec_tls_reason :: "tls_reason option"

definition class_timeout :: error_classification where
  "class_timeout = \<lparr>ec_category = CatTimeout, ec_tls_reason = None\<rparr>"

definition class_transport :: error_classification where
  "class_transport = \<lparr>ec_category = CatTransport, ec_tls_reason = None\<rparr>"

definition class_tls :: "tls_reason \<Rightarrow> error_classification" where
  "class_tls reason = \<lparr>ec_category = CatTls, ec_tls_reason = Some reason\<rparr>"

definition class_protocol :: error_classification where
  "class_protocol = \<lparr>ec_category = CatProtocol, ec_tls_reason = None\<rparr>"

text \<open>\<open>str::contains\<close>\<close>

definition str_contains :: "string \<Rightarrow> string \<Rightarrow> bool" where
  "str_contains s p = sublist p s"

definition classify_upstream_error_detail :: "string \<Rightarrow> bool \<Rightarrow> error_classification" where
  "classify_upstream_error_detail detail is_connect =
     (let normalized = to_ascii_lowercase detail; has = str_contains normalized in
      if has ''timeout'' \<or> has ''timed out'' then class_timeout
      else if has ''client_certificate_missing'' then class_tls TlsClientCertificateMissing
      else if has ''client_key_missing'' then class_tls TlsClientKeyMissing
      else if has ''client_identity_invalid'' then class_tls TlsClientIdentityInvalid
      else if has ''client_certificate_expired'' then class_tls TlsClientCertificateExpired
      else if has ''client_auth_rejected'' \<or> has ''certificaterequired'' \<or> has ''certificate required'' \<or>
              has ''peer sent no certificates'' \<or> has ''bad certificate'' \<or> has ''badcertificate'' \<or>
              has ''certificate unknown'' \<or> has ''certificateunknown'' \<or> has ''unknown ca'' \<or> has ''unknownca''
           then class_tls TlsClientAuthRejected
      else if has ''unknownissuer'' \<or> has ''unknown issuer'' then class_tls TlsUnknownIssuer
      else if has ''alpn'' then class_tls TlsAlpn
      else if is_connect \<and> has ''expired'' \<and> has ''client'' then class_tls TlsClientCertificateExpired
      else if is_connect \<and> (has ''expired'' \<or> has ''not yet valid'' \<or> has ''validity'')
           then class_tls TlsExpiredCertificate
      else if is_connect \<and> (has ''hostname'' \<or> has ''dns name'' \<or> has ''subjectaltname'' \<or> has ''not valid for'')
           then class_tls TlsHostnameMismatch
      else if is_connect \<and> (has ''invalidcertificate'' \<or> has ''certificate'' \<or> has ''x509'' \<or> has ''rustls'' \<or>
              has ''webpki'' \<or> has ''tls'')
           then class_tls TlsHandshake
      else class_transport)"

text \<open>The loop of \<open>format_error_chain\<close> over the causes.\<close>

fun push_causes :: "string \<Rightarrow> std_error option \<Rightarrow> string" where
  "push_causes detail None = detail"
| "push_causes detail (Some (StdError cause source)) = push_causes (detail @ '': '' @ cause) source"

definition format_error_chain :: "std_error \<Rightarrow> string" where
  "format_error_chain err = push_causes (std_display err) (std_source err)"

record health_failure_mapping =
  hf_failure_reason :: health_failure_reason
  hf_metrics_reason :: string

fun tls_metrics_reason :: "tls_reason \<Rightarrow> string" where
  "tls_metrics_reason TlsUnknownIssuer = ''unknown_issuer''"
| "tls_metrics_reason TlsExpiredCertificate = ''expired_certificate''"
| "tls_metrics_reason TlsHostnameMismatch = ''hostname_mismatch''"
| "tls_metrics_reason TlsAlpn = ''alpn''"
| "tls_metrics_reason TlsHandshake = ''handshake''"
| "tls_metrics_reason TlsClientCertificateMissing = ''client_certificate_missing''"
| "tls_metrics_reason TlsClientKeyMissing = ''client_key_missing''"
| "tls_metrics_reason TlsClientIdentityInvalid = ''client_identity_invalid''"
| "tls_metrics_reason TlsClientAuthRejected = ''client_auth_rejected''"
| "tls_metrics_reason TlsClientCertificateExpired = ''client_certificate_expired''"

definition class_health_failure :: "error_classification \<Rightarrow> health_failure_mapping" where
  "class_health_failure c = (case ec_category c of
       CatTimeout \<Rightarrow> \<lparr>hf_failure_reason = Timeout, hf_metrics_reason = ''timeout''\<rparr>
     | CatTransport \<Rightarrow> \<lparr>hf_failure_reason = Transport, hf_metrics_reason = ''transport''\<rparr>
     | CatTls \<Rightarrow> \<lparr>hf_failure_reason = Tls, hf_metrics_reason = tls_metrics_reason
         (case ec_tls_reason c of None \<Rightarrow> TlsHandshake | Some r \<Rightarrow> r)\<rparr>
     | CatProtocol \<Rightarrow> \<lparr>hf_failure_reason = Transport, hf_metrics_reason = ''transport''\<rparr>
     | CatInternal \<Rightarrow> \<lparr>hf_failure_reason = Transport, hf_metrics_reason = ''transport''\<rparr>)"

section \<open>Retry policy\<close>

datatype retry_reason = RetryTimeout | RetryTransport | RetryPool

datatype terminal_error_kind = TerminalPoolSend | TerminalTls | TerminalProtocol | TerminalBridge

datatype retryability = Retryable retry_reason | Terminal terminal_error_kind

datatype retry_denial =
    TerminalError terminal_error_kind
  | MethodNotIdempotent
  | RetryBodyNotReplayable
  | AttemptLimitReached
  | RetryBudgetDenied
  | RetryAlternateUnavailable alternate_denial

record retry_policy_facts =
  rf_retryability :: retryability
  rf_method_idempotent :: bool
  rf_body_replayable :: bool
  rf_attempt_count :: u8
  rf_max_attempts :: u8
  rf_budget_available :: bool
  rf_alternate_available :: bool
  rf_alternate_failure :: "alternate_denial option"

datatype retry_decision = Retry retry_reason | DoNotRetry "retry_denial option"

definition is_idempotent_method :: "string \<Rightarrow> bool" where
  "is_idempotent_method m \<longleftrightarrow>
     to_ascii_uppercase m \<in> {''GET'', ''HEAD'', ''PUT'', ''DELETE'', ''OPTIONS'', ''TRACE''}"

fun classify_retryability :: "proxy_error \<Rightarrow> retryability" where
  "classify_retryability (TransportFailed _) = Retryable RetryTransport"
| "classify_retryability TimedOut = Retryable RetryTimeout"
| "classify_retryability (PoolFailed (PoolSend _)) = Terminal TerminalPoolSend"
| "classify_retryability (PoolFailed _) = Retryable RetryPool"
| "classify_retryability (TlsFailed _) = Terminal TerminalTls"
| "classify_retryability (ProtocolFailed _) = Terminal TerminalProtocol"
| "classify_retryability (BridgeFailed _) = Terminal TerminalBridge"

definition is_retryable :: "proxy_error \<Rightarrow> bool" where
  "is_retryable err = (case classify_retryability err of Retryable _ \<Rightarrow> True | Terminal _ \<Rightarrow> False)"

definition alternate_failure_or :: "alternate_denial option \<Rightarrow> alternate_denial" where
  "alternate_failure_or f = (case f of None \<Rightarrow> OnlyExcludedBackendsHealthy | Some d \<Rightarrow> d)"

definition evaluate_retry_policy :: "retry_policy_facts \<Rightarrow> retry_decision" where
  "evaluate_retry_policy i = (case rf_retryability i of
       Terminal kind \<Rightarrow> DoNotRetry (Some (TerminalError kind))
     | Retryable reason \<Rightarrow>
         if \<not> rf_method_idempotent i then DoNotRetry (Some MethodNotIdempotent)
         else if \<not> rf_body_replayable i then DoNotRetry (Some RetryBodyNotReplayable)
         else if rf_max_attempts i \<le> rf_attempt_count i then DoNotRetry (Some AttemptLimitReached)
         else if \<not> rf_budget_available i then DoNotRetry (Some RetryBudgetDenied)
         else if \<not> rf_alternate_available i
           then DoNotRetry (Some (RetryAlternateUnavailable (alternate_failure_or (rf_alternate_failure i))))
         else Retry reason)"

section \<open>Hedge policy\<close>

datatype hedge_primary_state = InFlightBeforeDelay | InFlightAfterDelay | PrimaryCompleted

datatype hedge_denial =
    HedgingDisabled
  | PrimaryRequestCompleted
  | HedgeBodyNotReplayable
  | TunnelRequest
  | MethodNotAllowed
  | HedgeAlternateUnavailable alternate_denial
  | HedgeBudgetDenied

datatype hedge_trigger = DelayElapsed

datatype hedge_decision = WaitForPrimary | Hedge hedge_trigger | DoNotHedge hedge_denial

record hedge_policy_facts =
  hp_configured :: bool
  hp_method_allowed :: bool
  hp_body_replayable :: bool
  hp_tunnel_request :: bool
  hp_alternate_available :: bool
  hp_alternate_failure :: "alternate_denial option"
  hp_budget_available :: bool
  hp_primary_state :: hedge_primary_state

definition evaluate_hedge_policy :: "hedge_policy_facts \<Rightarrow> hedge_decision" where
  "evaluate_hedge_policy i =
     (if \<not> hp_configured i then DoNotHedge HedgingDisabled
      else if \<not> hp_method_allowed i then DoNotHedge MethodNotAllowed
      else if \<not> hp_body_replayable i then DoNotHedge HedgeBodyNotReplayable
      else if hp_tunnel_request i then DoNotHedge TunnelRequest
      else if \<not> hp_alternate_available i
        then DoNotHedge (HedgeAlternateUnavailable (alternate_failure_or (hp_alternate_failure i)))
      else case hp_primary_state i of
          PrimaryCompleted \<Rightarrow> DoNotHedge PrimaryRequestCompleted
        | InFlightBeforeDelay \<Rightarrow> WaitForPrimary
        | InFlightAfterDelay \<Rightarrow>
            if \<not> hp_budget_available i then DoNotHedge HedgeBudgetDenied else Hedge DelayElapsed)"

section \<open>Classified errors\<close>

datatype upstream_error_kind = KindSend | KindTransport | KindTimeout | KindProtocol | KindTls

record classified_error =
  cl_kind :: upstream_error_kind
  cl_detail :: string
  cl_classification :: error_classification
  cl_health_failure :: "health_failure_mapping option"
  cl_retryability :: retryability

definition classify_tls_detail :: "string \<Rightarrow> error_classification" where
  "classify_tls_detail detail =
     (let c = classify_upstream_error_detail detail True in
      if ec_category c = CatTransport then class_tls TlsHandshake else c)"

definition passive_health_failure :: "error_classification \<Rightarrow> health_failure_mapping option" where
  "passive_health_failure c = (case ec_category c of
       CatTls \<Rightarrow> None | CatProtocol \<Rightarrow> None | CatInternal \<Rightarrow> None
     | CatTimeout \<Rightarrow> Some (class_health_failure c)
     | CatTransport \<Rightarrow> Some (class_health_failure c))"

definition classify_upstream_send_error :: "client_error \<Rightarrow> classified_error" where
  "classify_upstream_send_error err =
     (let detail = format_error_chain (ce_error err);
          c = classify_upstream_error_detail detail (ce_is_connect err) in
      \<lparr>cl_kind = KindSend, cl_detail = detail, cl_classification = c,
       cl_health_failure = passive_health_failure c, cl_retryability = Terminal TerminalPoolSend\<rparr>)"

fun classify_upstream_proxy_error :: "proxy_error \<Rightarrow> classified_error option" where
  "classify_upstream_proxy_error (PoolFailed (PoolSend send_err)) = Some (classify_upstream_send_error send_err)"
| "classify_upstream_proxy_error (TransportFailed detail) = Some
     \<lparr>cl_kind = KindTransport, cl_detail = detail, cl_classification = class_transport,
      cl_health_failure = passive_health_failure class_transport,
      cl_retryability = classify_retryability (TransportFailed detail)\<rparr>"
| "classify_upstream_proxy_error TimedOut = Some
     \<lparr>cl_kind = KindTimeout, cl_detail = ''backend timeout'', cl_classification = class_timeout,
      cl_health_failure = passive_health_failure class_timeout,
      cl_retryability = classify_retryability TimedOut\<rparr>"
| "classify_upstream_proxy_error (ProtocolFailed detail) = Some
     \<lparr>cl_kind = KindProtocol, cl_detail = detail, cl_classification = class_protocol,
      cl_health_failure = None, cl_retryability = classify_retryability (ProtocolFailed detail)\<rparr>"
| "classify_upstream_proxy_error (TlsFailed detail) = Some
     \<lparr>cl_kind = KindTls, cl_detail = detail, cl_classification = classify_tls_detail detail,
      cl_health_failure = None, cl_retryability = classify_retryability (TlsFailed detail)\<rparr>"
| "classify_upstream_proxy_error (BridgeFailed _) = None"
| "classify_upstream_proxy_error (PoolFailed (UnknownBackend _)) = None"
| "classify_upstream_proxy_error (PoolFailed (BackendOverloaded _)) = None"
| "classify_upstream_proxy_error (PoolFailed (PoolCircuitOpen _)) = None"
| "classify_upstream_proxy_error (PoolFailed InflightLimiterClosed) = None"

section \<open>Facts about the classification\<close>

lemma contains_uppercase [simp]:
  "to_ascii_lowercase (to_ascii_uppercase s) = to_ascii_lowercase s"
  by (simp add: to_ascii_lowercase_def to_ascii_uppercase_def)

lemma detail_case_insensitive:
  "to_ascii_lowercase d = to_ascii_lowercase d' \<Longrightarrow>
   classify_upstream_error_detail d connect = classify_upstream_error_detail d' connect"
  by (simp add: classify_upstream_error_detail_def)

lemma class_simps [simp]:
  "ec_category class_timeout = CatTimeout" "ec_tls_reason class_timeout = None"
  "ec_category class_transport = CatTransport" "ec_tls_reason class_transport = None"
  "ec_category (class_tls r) = CatTls" "ec_tls_reason (class_tls r) = Some r"
  "ec_category class_protocol = CatProtocol" "ec_tls_reason class_protocol = None"
  by (simp_all add: class_timeout_def class_transport_def class_tls_def class_protocol_def)

lemma if_member: "a \<in> A \<Longrightarrow> b \<in> A \<Longrightarrow> (if c then a else b) \<in> A"
  by simp

lemma detail_cases:
  "classify_upstream_error_detail d connect \<in> {class_timeout, class_transport} \<union> range class_tls"
  unfolding classify_upstream_error_detail_def Let_def by (intro if_member) simp_all

lemma detail_categories:
  "ec_category (classify_upstream_error_detail d connect) \<in> {CatTimeout, CatTransport, CatTls}"
  "ec_category (classify_tls_detail d) \<in> {CatTimeout, CatTls}"
  "(\<exists>r. ec_tls_reason (classify_upstream_error_detail d connect) = Some r) \<longleftrightarrow>
     ec_category (classify_upstream_error_detail d connect) = CatTls"
  "(\<exists>r. ec_tls_reason (classify_tls_detail d) = Some r) \<longleftrightarrow> ec_category (classify_tls_detail d) = CatTls"
  using detail_cases [of d connect] detail_cases [of d True] by (auto simp: classify_tls_detail_def Let_def)

lemma passive_health_failure_reason:
  "passive_health_failure c = Some h \<Longrightarrow> hf_failure_reason h \<in> {Timeout, Transport}"
  "passive_health_failure c = None \<longleftrightarrow> ec_category c \<in> {CatTls, CatProtocol, CatInternal}"
  by (auto simp: passive_health_failure_def class_health_failure_def split: error_category.splits)

lemmas classified_defs = classify_upstream_send_error_def is_retryable_def Let_def

text \<open>
  C40. The classification of an upstream error is consistent.  Its retryability is the one the retry
  policy uses, and it is retryable exactly for transport errors and timeouts.  A backend's health is
  charged only for timeouts and transport failures, never for a TLS or a protocol failure, and an
  error the TLS layer reports is never classified as a transport failure.  A TLS reason is given
  exactly for errors of the TLS category.
\<close>

theorem classified_errors_consistent:
  assumes "classify_upstream_proxy_error err = Some c"
  shows "cl_retryability c = classify_retryability err \<and>
     (is_retryable err \<longleftrightarrow> cl_kind c \<in> {KindTransport, KindTimeout}) \<and>
     (\<forall>h. cl_health_failure c = Some h \<longrightarrow> hf_failure_reason h \<in> {Timeout, Transport} \<and>
        ec_category (cl_classification c) \<in> {CatTimeout, CatTransport}) \<and>
     (cl_kind c = KindTls \<longrightarrow> ec_category (cl_classification c) \<in> {CatTimeout, CatTls}) \<and>
     (ec_tls_reason (cl_classification c) \<noteq> None \<longleftrightarrow> ec_category (cl_classification c) = CatTls)"
  using assms
proof (cases err rule: classify_upstream_proxy_error.cases)
  case (1 send_err)
  let ?c = "classify_upstream_error_detail (format_error_chain (ce_error send_err)) (ce_is_connect send_err)"
  have "passive_health_failure ?c = Some h \<Longrightarrow> ec_category ?c \<in> {CatTimeout, CatTransport}" for h
    using passive_health_failure_reason(2) [of ?c] detail_categories(1) by fastforce
  then have "\<forall>h. passive_health_failure ?c = Some h \<longrightarrow> hf_failure_reason h \<in> {Timeout, Transport} \<and>
      ec_category ?c \<in> {CatTimeout, CatTransport}"
    using passive_health_failure_reason(1) by blast
  moreover have "c = classify_upstream_send_error send_err" using assms 1 by simp
  ultimately show ?thesis by (simp add: 1 classified_defs detail_categories(3))
next
  case (5 detail)
  then show ?thesis using assms detail_categories(2,4) [of detail] by (fastforce simp: classified_defs)
qed (auto simp: classified_defs passive_health_failure_def class_health_failure_def)

theorem classified_errors_consistent_witness:
  "\<exists>c. classify_upstream_proxy_error (PoolFailed (PoolSend \<lparr>ce_error = StdError ''connect'' (Some (StdError ''Bad Certificate'' None)),
       ce_is_connect = False\<rparr>)) = Some c \<and> ec_category (cl_classification c) = CatTls \<and> cl_health_failure c = None"
proof -
  let ?e = "\<lparr>ce_error = StdError ''connect'' (Some (StdError ''Bad Certificate'' None)), ce_is_connect = False\<rparr>"
  have "ec_category (cl_classification (classify_upstream_send_error ?e)) = CatTls"
    by (simp add: classify_upstream_send_error_def format_error_chain_def classify_upstream_error_detail_def Let_def
        str_contains_def str_eval char_of_eq_iff sublist_code eq_commute [of "CHR ''b''"] eq_commute [of "CHR ''c''"])
  then show ?thesis
    using classified_errors_consistent [of "PoolFailed (PoolSend ?e)"] by fastforce
qed

section \<open>Facts about the policies\<close>

lemma retry_policy_Retry:
  "evaluate_retry_policy i = Retry r \<longleftrightarrow> rf_retryability i = Retryable r \<and> rf_method_idempotent i \<and>
     rf_body_replayable i \<and> rf_attempt_count i < rf_max_attempts i \<and> rf_budget_available i \<and> rf_alternate_available i"
  by (auto simp: evaluate_retry_policy_def split: retryability.splits)

lemma hedge_policy_proceeds:
  "evaluate_hedge_policy i = WaitForPrimary \<Longrightarrow> hp_configured i \<and> hp_method_allowed i \<and>
     hp_body_replayable i \<and> \<not> hp_tunnel_request i \<and> hp_alternate_available i \<and> hp_primary_state i = InFlightBeforeDelay"
  "evaluate_hedge_policy i = Hedge t \<Longrightarrow> hp_configured i \<and> hp_method_allowed i \<and>
     hp_body_replayable i \<and> \<not> hp_tunnel_request i \<and> hp_alternate_available i \<and> hp_budget_available i \<and>
     hp_primary_state i = InFlightAfterDelay"
  by (auto simp: evaluate_hedge_policy_def split: if_splits hedge_primary_state.splits)

end
