(* ===== verification/Forward_Dispatch.thy ===== *)
theory Forward_Dispatch
  imports Upstream_Errors Runtime_Resilience
begin

text \<open>
  The upstream task of a forward (\<open>edge/src/quic_listener/forwarding/dispatch.rs\<close>): it asks the
  circuit breaker, sends the request to the chosen backend, and may send it once more to an
  alternate backend, as a retry after an error or as a hedge when the first answer is late.  The
  asynchronous task is a state machine whose steps are the polls of its futures, the end of the
  hedge delay and the accesses to the retry budget; any number of tasks run interleaved on the
  shared circuit breakers and retry budget.  Requests, endpoints and response bodies are opaque;
  the replies of the transport are arguments of the polls.
\<close>

section \<open>Alternate backend and policy\<close>

datatype resolved_alternate = AlternateSelected string | AlternateUnavailable alternate_denial

fun alternate_is_available :: "resolved_alternate \<Rightarrow> bool" where
  "alternate_is_available (AlternateSelected _) = True"
| "alternate_is_available (AlternateUnavailable _) = False"

fun alternate_failure_reason :: "resolved_alternate \<Rightarrow> alternate_denial option" where
  "alternate_failure_reason (AlternateSelected _) = None"
| "alternate_failure_reason (AlternateUnavailable reason) = Some reason"

definition alternate_backend_policy_state :: "resolved_alternate option \<Rightarrow> bool \<times> alternate_denial option" where
  "alternate_backend_policy_state alt =
     (case alt of None \<Rightarrow> (False, None) | Some a \<Rightarrow> (alternate_is_available a, alternate_failure_reason a))"

definition backend_address :: "upstream_pool \<Rightarrow> nat \<Rightarrow> string option" where
  "backend_address u i = map_option address (vec_get (backends (up_pool u)) i)"

text \<open>\<open>poisoned\<close> is the poison flag of the lock of the pool; \<open>g\<close> is the random source of the pick.\<close>

definition resolve_alternate_backend ::
  "(u64 \<Rightarrow> u64) \<Rightarrow> bool \<Rightarrow> upstream_pool \<Rightarrow> nat \<Rightarrow> (resolved_alternate \<times> upstream_pool) option" where
  "resolve_alternate_backend g poisoned u primary_index =
     (if poisoned then Some (AlternateUnavailable PoolUnavailable, u)
      else case choose_alternate_backend g u [primary_index] None of
        None \<Rightarrow> None
      | Some (SelectAlternate i _, u') \<Rightarrow>
          Some (case backend_address u' i of
              Some a \<Rightarrow> AlternateSelected a
            | None \<Rightarrow> AlternateUnavailable BackendAddressMissing, u')
      | Some (DoNotSelect denial, u') \<Rightarrow> Some (AlternateUnavailable denial, u'))"

record forwarding_policy =
  fp_method_idempotent :: bool
  fp_bodyless_mode :: bool
  fp_hedge_method_allowed :: bool
  fp_hedge_configured :: bool
  fp_hedge_tunnel_request :: bool

definition hedge_before_delay :: "forwarding_policy \<Rightarrow> resolved_alternate option \<Rightarrow> hedge_decision" where
  "hedge_before_delay p alt = (case alternate_backend_policy_state alt of (available, failure) \<Rightarrow>
     evaluate_hedge_policy
       \<lparr>hp_configured = fp_hedge_configured p, hp_method_allowed = fp_hedge_method_allowed p,
        hp_body_replayable = fp_bodyless_mode p, hp_tunnel_request = fp_hedge_tunnel_request p,
        hp_alternate_available = available, hp_alternate_failure = failure,
        hp_budget_available = False, hp_primary_state = InFlightBeforeDelay\<rparr>)"

definition hedge_after_delay :: "forwarding_policy \<Rightarrow> bool \<Rightarrow> hedge_decision" where
  "hedge_after_delay p budget = evaluate_hedge_policy
     \<lparr>hp_configured = fp_hedge_configured p, hp_method_allowed = fp_hedge_method_allowed p,
      hp_body_replayable = fp_bodyless_mode p, hp_tunnel_request = fp_hedge_tunnel_request p,
      hp_alternate_available = True, hp_alternate_failure = None,
      hp_budget_available = budget, hp_primary_state = InFlightAfterDelay\<rparr>"

definition retry_after_error ::
  "forwarding_policy \<Rightarrow> proxy_error \<Rightarrow> u8 \<Rightarrow> u8 \<Rightarrow> bool \<Rightarrow> resolved_alternate option \<Rightarrow> retry_decision" where
  "retry_after_error p err retry_count max_attempts budget alt =
     (case alternate_backend_policy_state alt of (available, failure) \<Rightarrow> evaluate_retry_policy
       \<lparr>rf_retryability = classify_retryability err, rf_method_idempotent = fp_method_idempotent p,
        rf_body_replayable = fp_bodyless_mode p, rf_attempt_count = retry_count,
        rf_max_attempts = max_attempts, rf_budget_available = budget,
        rf_alternate_available = available, rf_alternate_failure = failure\<rparr>)"

text \<open>\<open>MAX_UPSTREAM_RETRY_ATTEMPTS\<close>\<close>

definition max_upstream_retry_attempts :: u8 where
  "max_upstream_retry_attempts = 1"

text \<open>The policy \<open>spawn_upstream_forward_task\<close> gives the task.\<close>

definition forwarding_policy_for :: "runtime_resilience \<Rightarrow> string \<Rightarrow> bool \<Rightarrow> bool \<Rightarrow> string \<Rightarrow> forwarding_policy" where
  "forwarding_policy_for rr verb bodyless tunnel upstream_name =
     \<lparr>fp_method_idempotent = is_idempotent_method verb, fp_bodyless_mode = bodyless,
      fp_hedge_method_allowed = hedging_method_allowed rr verb,
      fp_hedge_configured = hedging_route_enabled_for rr upstream_name, fp_hedge_tunnel_request = tunnel\<rparr>"

section \<open>Telemetry\<close>

datatype attempt_reason = AttemptTimeout | AttemptTransport | AttemptPool

fun attempt_reason_of :: "retry_reason \<Rightarrow> attempt_reason" where
  "attempt_reason_of RetryTimeout = AttemptTimeout"
| "attempt_reason_of RetryTransport = AttemptTransport"
| "attempt_reason_of RetryPool = AttemptPool"

datatype hedge_outcome = PrimaryWonAfterTrigger | HedgeWon

record retry_telemetry =
  rt_count :: u8
  rt_attempt_reason :: "attempt_reason option"
  rt_denial_reason :: "retry_denial option"

record hedge_telemetry =
  ht_trigger_reason :: "hedge_trigger option"
  ht_outcome_reason :: "hedge_outcome option"
  ht_primary_late_ms :: u64

record policy_telemetry =
  pt_hedge :: hedge_telemetry
  pt_retry :: retry_telemetry

definition telemetry_default :: policy_telemetry where
  "telemetry_default =
     \<lparr>pt_hedge = \<lparr>ht_trigger_reason = None, ht_outcome_reason = None, ht_primary_late_ms = 0\<rparr>,
      pt_retry = \<lparr>rt_count = 0, rt_attempt_reason = None, rt_denial_reason = None\<rparr>\<rparr>"

definition record_attempt :: "attempt_reason \<Rightarrow> retry_telemetry \<Rightarrow> retry_telemetry" where
  "record_attempt reason t = t\<lparr>rt_count := saturating_add (rt_count t) 1, rt_attempt_reason := Some reason\<rparr>"

definition record_denial :: "retry_denial option \<Rightarrow> retry_telemetry \<Rightarrow> retry_telemetry" where
  "record_denial denial t = (if rt_denial_reason t = None then t\<lparr>rt_denial_reason := denial\<rparr> else t)"

definition record_trigger :: "hedge_trigger \<Rightarrow> hedge_telemetry \<Rightarrow> hedge_telemetry" where
  "record_trigger reason t = t\<lparr>ht_trigger_reason := Some reason\<rparr>"

definition record_outcome :: "hedge_outcome \<Rightarrow> hedge_telemetry \<Rightarrow> hedge_telemetry" where
  "record_outcome reason t = t\<lparr>ht_outcome_reason := Some reason\<rparr>"

definition observe_primary_late_ms :: "u64 \<Rightarrow> hedge_telemetry \<Rightarrow> hedge_telemetry" where
  "observe_primary_late_ms late t = t\<lparr>ht_primary_late_ms := late\<rparr>"

section \<open>Sending one request\<close>

datatype 'b upstream_response = UpstreamResponse (resp_status: nat) (resp_body: 'b)

type_synonym 'b send_result = "proxy_error + 'b upstream_response"

text \<open>
  The future of \<open>send_upstream_request\<close> and \<open>send_upstream_upgrade_request\<close>: not polled yet, refused by
  the circuit breaker, waiting for the transport with a permit, returned, or dropped while waiting.
\<close>

datatype 'b send_future =
    NotPolled string
  | Refused string
  | InFlight circuit_breaker_permit
  | Answered "'b send_result"
  | Abandoned

fun poll_send :: "instant \<Rightarrow> 'b send_result option \<Rightarrow> 'b send_future \<Rightarrow> circuit_breakers \<Rightarrow>
    circuit_breakers \<times> 'b send_future" where
  "poll_send now reply (NotPolled b) cbs =
     (case allow_request (b, now) cbs of (cbs', None) \<Rightarrow> (cbs', Refused b) | (cbs', Some p) \<Rightarrow> (cbs', InFlight p))"
| "poll_send now (Some (Inr r)) (InFlight p) cbs = (permit_record_success p cbs, Answered (Inr r))"
| "poll_send now (Some (Inl e)) (InFlight p) cbs = (permit_record_failure now p cbs, Answered (Inl e))"
| "poll_send now reply f cbs = (cbs, f)"

fun send_output :: "'b send_future \<Rightarrow> 'b send_result option" where
  "send_output (Refused b) = Some (Inl (PoolFailed (PoolCircuitOpen b)))"
| "send_output (Answered r) = Some r"
| "send_output f = None"

fun drop_send :: "'b send_future \<Rightarrow> circuit_breakers \<Rightarrow> circuit_breakers \<times> 'b send_future" where
  "drop_send (InFlight p) cbs = (permit_drop p cbs, Abandoned)"
| "drop_send f cbs = (cbs, f)"

section \<open>The task\<close>

datatype tunnel_mode = TunnelNone | TunnelConnect | TunnelWebsocket

datatype backend_scheme = SchemeHttp | SchemeHttps

record ('e, 'q) forward_ctx =
  fc_route_name :: string
  fc_primary_backend :: string
  fc_policy :: forwarding_policy
  fc_alternate :: "resolved_alternate option"
  fc_backend_endpoints :: "string \<rightharpoonup> 'e"
  fc_build_bodyless :: "'e \<Rightarrow> proxy_error + 'q"
  fc_request :: "'q option"
  fc_tunnel_mode :: tunnel_mode
  fc_scheme :: backend_scheme
  fc_tunnel_body_rx :: bool
  fc_tunnel_request :: "proxy_error + 'q"
  fc_hedge_delay :: duration

datatype 'b forward_success = ForwardResponse "'b upstream_response" | ForwardTunnel "'b upstream_response"

datatype 'b forward_phase =
    Marking
  | UpgradeSend
  | PlainSend
  | RetrySend
  | HedgeWait string
  | HedgeBudget string
  | HedgeRace
  | PrimaryAwait
  | HedgeAwait
  | RetryBudgeting proxy_error
  | RetryAwait
  | Finished "proxy_error + 'b forward_success"
  | TaskPanicked

record ('e, 'q, 'b) forward_task =
  tk_ctx :: "('e, 'q) forward_ctx"
  tk_phase :: "'b forward_phase"
  tk_primary :: "'b send_future"
  tk_second :: "'b send_future option"
  tk_primary_started :: instant
  tk_mark :: budget_thread
  tk_retry :: budget_thread
  tk_telemetry :: policy_telemetry

record forward_shared =
  sh_breakers :: circuit_breakers
  sh_budget :: retry_budget

definition build_alternate_bodyless_candidate :: "('e, 'q) forward_ctx \<Rightarrow> (string \<times> 'q) option" where
  "build_alternate_bodyless_candidate c = (case fc_alternate c of
       Some (AlternateSelected a) \<Rightarrow>
         (case fc_backend_endpoints c a of
            None \<Rightarrow> None
          | Some endpoint \<Rightarrow> (case fc_build_bodyless c endpoint of Inl _ \<Rightarrow> None | Inr q \<Rightarrow> Some (a, q)))
     | _ \<Rightarrow> None)"

definition task_new :: "('e, 'q) forward_ctx \<Rightarrow> ('e, 'q, 'b) forward_task" where
  "task_new c = \<lparr>tk_ctx = c, tk_phase = Marking, tk_primary = NotPolled (fc_primary_backend c), tk_second = None,
     tk_primary_started = 0, tk_mark = MarkStart (fc_route_name c), tk_retry = RetryStart (fc_route_name c),
     tk_telemetry = telemetry_default\<rparr>"

text \<open>What the task does once the primary request is marked: the branches up to the first send.\<close>

definition forward_start :: "('e, 'q) forward_ctx \<Rightarrow> 'b forward_phase" where
  "forward_start c =
     (if fc_tunnel_mode c = TunnelWebsocket \<and> fc_scheme c = SchemeHttp then
        (if \<not> fc_tunnel_body_rx c
         then Finished (Inl (TransportFailed ''websocket H1 tunnels require a downstream body channel''))
         else case fc_tunnel_request c of Inl e \<Rightarrow> Finished (Inl e) | Inr _ \<Rightarrow> UpgradeSend)
      else case fc_request c of
        None \<Rightarrow> Finished (Inl (TransportFailed ''missing upstream request for non-websocket forward''))
      | Some _ \<Rightarrow>
          (case hedge_before_delay (fc_policy c) (fc_alternate c) of
             WaitForPrimary \<Rightarrow>
               (case build_alternate_bodyless_candidate c of Some (b, _) \<Rightarrow> HedgeWait b | None \<Rightarrow> PlainSend)
           | DoNotHedge _ \<Rightarrow> RetrySend
           | Hedge _ \<Rightarrow> RetrySend))"

text \<open>Leaving the task drops the futures that are still waiting.\<close>

definition leave_task :: "'b forward_phase \<Rightarrow> forward_shared \<Rightarrow> ('e, 'q, 'b) forward_task \<Rightarrow>
    forward_shared \<times> ('e, 'q, 'b) forward_task" where
  "leave_task ph sh tk =
     (let (cbs1, second) = (case tk_second tk of
             None \<Rightarrow> (sh_breakers sh, None)
           | Some f \<Rightarrow> map_prod id Some (drop_send f (sh_breakers sh)));
          (cbs2, primary) = drop_send (tk_primary tk) cbs1 in
      (sh\<lparr>sh_breakers := cbs2\<rparr>, tk\<lparr>tk_phase := ph, tk_primary := primary, tk_second := second\<rparr>))"

definition finish_with :: "'b send_result \<Rightarrow> forward_shared \<Rightarrow> ('e, 'q, 'b) forward_task \<Rightarrow>
    forward_shared \<times> ('e, 'q, 'b) forward_task" where
  "finish_with r = leave_task (Finished (map_sum id ForwardResponse r))"

definition on_hedge :: "(hedge_telemetry \<Rightarrow> hedge_telemetry) \<Rightarrow> ('e, 'q, 'b) forward_task \<Rightarrow> ('e, 'q, 'b) forward_task" where
  "on_hedge f tk = tk\<lparr>tk_telemetry := (tk_telemetry tk)\<lparr>pt_hedge := f (pt_hedge (tk_telemetry tk))\<rparr>\<rparr>"

definition on_retry :: "(retry_telemetry \<Rightarrow> retry_telemetry) \<Rightarrow> ('e, 'q, 'b) forward_task \<Rightarrow> ('e, 'q, 'b) forward_task" where
  "on_retry f tk = tk\<lparr>tk_telemetry := (tk_telemetry tk)\<lparr>pt_retry := f (pt_retry (tk_telemetry tk))\<rparr>\<rparr>"

text \<open>\<open>record_outcome(HedgeWon)\<close> with the lateness of the primary.\<close>

definition hedge_won :: "instant \<Rightarrow> ('e, 'q, 'b) forward_task \<Rightarrow> ('e, 'q, 'b) forward_task" where
  "hedge_won now tk =
     (let elapsed_ms = of_nat (as_millis (saturating_duration_since now (tk_primary_started tk)));
          delay_ms = of_nat (as_millis (fc_hedge_delay (tk_ctx tk))) in
      on_hedge (observe_primary_late_ms (saturating_sub elapsed_ms delay_ms) \<circ> record_outcome HedgeWon) tk)"

text \<open>\<open>retry_primary_error\<close>, once it is known whether the budget allows a retry.\<close>

definition retry_primary_error :: "proxy_error \<Rightarrow> bool \<Rightarrow> forward_shared \<Rightarrow> ('e, 'q, 'b) forward_task \<Rightarrow>
    forward_shared \<times> ('e, 'q, 'b) forward_task" where
  "retry_primary_error err budget sh tk =
     (case retry_after_error (fc_policy (tk_ctx tk)) err (rt_count (pt_retry (tk_telemetry tk)))
             max_upstream_retry_attempts budget (fc_alternate (tk_ctx tk)) of
        DoNotRetry denial \<Rightarrow> finish_with (Inl err) sh (on_retry (record_denial denial) tk)
      | Retry reason \<Rightarrow>
          (case build_alternate_bodyless_candidate (tk_ctx tk) of
             None \<Rightarrow> finish_with (Inl err) sh tk
           | Some (b, _) \<Rightarrow>
               (sh, on_retry (record_attempt (attempt_reason_of reason))
                  (tk\<lparr>tk_second := Some (NotPolled b), tk_phase := RetryAwait\<rparr>))))"

text \<open>\<open>retry_budget_available_for_error\<close> asks the budget unless the circuit breaker refused the request.\<close>

fun budget_exempt :: "proxy_error \<Rightarrow> bool" where
  "budget_exempt (PoolFailed (PoolCircuitOpen _)) = True"
| "budget_exempt _ = False"

section \<open>Steps of the task\<close>

definition primary_returned :: "instant \<Rightarrow> 'b send_result \<Rightarrow> forward_shared \<Rightarrow> ('e, 'q, 'b) forward_task \<Rightarrow>
    forward_shared \<times> ('e, 'q, 'b) forward_task" where
  "primary_returned now r sh tk = (case tk_phase tk of
       UpgradeSend \<Rightarrow> (case r of
           Inl e \<Rightarrow> finish_with (Inl e) sh tk
         | Inr x \<Rightarrow> if resp_status x \<noteq> 101 then finish_with (Inr x) sh tk
                    else leave_task (Finished (Inr (ForwardTunnel x))) sh tk)
     | RetrySend \<Rightarrow> (case r of
           Inr x \<Rightarrow> finish_with (Inr x) sh tk
         | Inl e \<Rightarrow> if budget_exempt e then retry_primary_error e True sh tk
                    else (sh, tk\<lparr>tk_phase := RetryBudgeting e\<rparr>))
     | HedgeRace \<Rightarrow> (case r of
           Inr x \<Rightarrow> finish_with (Inr x) sh (on_hedge (record_outcome PrimaryWonAfterTrigger) tk)
         | Inl _ \<Rightarrow> (sh, (hedge_won now tk)\<lparr>tk_phase := HedgeAwait\<rparr>))
     | _ \<Rightarrow> finish_with r sh tk)"

definition second_returned :: "instant \<Rightarrow> 'b send_result \<Rightarrow> forward_shared \<Rightarrow> ('e, 'q, 'b) forward_task \<Rightarrow>
    forward_shared \<times> ('e, 'q, 'b) forward_task" where
  "second_returned now r sh tk = (case tk_phase tk of
       HedgeRace \<Rightarrow> (case r of
           Inr x \<Rightarrow> finish_with (Inr x) sh (hedge_won now tk)
         | Inl _ \<Rightarrow> (sh, (on_hedge (record_outcome PrimaryWonAfterTrigger) tk)\<lparr>tk_phase := PrimaryAwait\<rparr>))
     | _ \<Rightarrow> finish_with r sh tk)"

definition hedge_decided :: "string \<Rightarrow> bool \<Rightarrow> ('e, 'q, 'b) forward_task \<Rightarrow> ('e, 'q, 'b) forward_task" where
  "hedge_decided b budget tk = (case hedge_after_delay (fc_policy (tk_ctx tk)) budget of
       Hedge reason \<Rightarrow> on_hedge (record_trigger reason) (tk\<lparr>tk_second := Some (NotPolled b), tk_phase := HedgeRace\<rparr>)
     | _ \<Rightarrow> tk\<lparr>tk_phase := PrimaryAwait\<rparr>)"

text \<open>
  One access of the task to the retry budget: while marking the primary request, or while asking for
  a retry, after which the verdict is acted on.  A panic of the budget unwinds the task.
\<close>

definition mark_step :: "bool \<Rightarrow> instant \<Rightarrow> forward_shared \<Rightarrow> ('e, 'q, 'b) forward_task \<Rightarrow>
    (forward_shared \<times> ('e, 'q, 'b) forward_task) option" where
  "mark_step dbg now sh tk = (case budget_access dbg (tk_mark tk) (sh_budget sh) of
       None \<Rightarrow> None
     | Some (rb, t) \<Rightarrow> Some (sh\<lparr>sh_budget := rb\<rparr>,
         case t of
           MarkDone _ \<Rightarrow> tk\<lparr>tk_mark := t, tk_phase := forward_start (tk_ctx tk), tk_primary_started := now\<rparr>
         | _ \<Rightarrow> tk\<lparr>tk_mark := t\<rparr>))"

definition allow_step :: "bool \<Rightarrow> (bool \<Rightarrow> forward_shared \<Rightarrow> ('e, 'q, 'b) forward_task \<Rightarrow> forward_shared \<times> ('e, 'q, 'b) forward_task) \<Rightarrow>
    forward_shared \<Rightarrow> ('e, 'q, 'b) forward_task \<Rightarrow> (forward_shared \<times> ('e, 'q, 'b) forward_task) option" where
  "allow_step dbg verdict sh tk = (case budget_access dbg (tk_retry tk) (sh_budget sh) of
       None \<Rightarrow> None
     | Some (rb, t) \<Rightarrow>
         (let sh' = sh\<lparr>sh_budget := rb\<rparr>; tk' = tk\<lparr>tk_retry := t\<rparr> in
          Some (case t of
              RetryAllowed _ \<Rightarrow> verdict True sh' tk'
            | RetryDenied _ \<Rightarrow> verdict False sh' tk'
            | RetryPanicked _ \<Rightarrow> leave_task TaskPanicked sh' tk'
            | _ \<Rightarrow> (sh', tk'))))"

datatype 'b forward_event =
    BudgetAccess instant
  | PollPrimary instant "'b send_result option"
  | PollSecond instant "'b send_result option"
  | SleepElapsed

definition polls_primary :: "'b forward_phase \<Rightarrow> bool" where
  "polls_primary ph = (case ph of
       UpgradeSend \<Rightarrow> True | PlainSend \<Rightarrow> True | RetrySend \<Rightarrow> True | HedgeWait _ \<Rightarrow> True
     | HedgeRace \<Rightarrow> True | PrimaryAwait \<Rightarrow> True | _ \<Rightarrow> False)"

definition polls_second :: "'b forward_phase \<Rightarrow> bool" where
  "polls_second ph = (case ph of HedgeRace \<Rightarrow> True | HedgeAwait \<Rightarrow> True | RetryAwait \<Rightarrow> True | _ \<Rightarrow> False)"

fun task_step :: "bool \<Rightarrow> 'b forward_event \<Rightarrow> forward_shared \<Rightarrow> ('e, 'q, 'b) forward_task \<Rightarrow>
    (forward_shared \<times> ('e, 'q, 'b) forward_task) option" where
  "task_step dbg (BudgetAccess now) sh tk = (case tk_phase tk of
       Marking \<Rightarrow> mark_step dbg now sh tk
     | HedgeBudget b \<Rightarrow> allow_step dbg (\<lambda>budget sh tk. (sh, hedge_decided b budget tk)) sh tk
     | RetryBudgeting e \<Rightarrow> allow_step dbg (retry_primary_error e) sh tk
     | _ \<Rightarrow> None)"
| "task_step dbg SleepElapsed sh tk = (case tk_phase tk of
       HedgeWait b \<Rightarrow> Some (sh, tk\<lparr>tk_phase := HedgeBudget b\<rparr>)
     | _ \<Rightarrow> None)"
| "task_step dbg (PollPrimary now reply) sh tk =
     (if \<not> polls_primary (tk_phase tk) then None
      else case poll_send now reply (tk_primary tk) (sh_breakers sh) of (cbs, f) \<Rightarrow>
        (let sh' = sh\<lparr>sh_breakers := cbs\<rparr>; tk' = tk\<lparr>tk_primary := f\<rparr> in
         Some (case send_output f of None \<Rightarrow> (sh', tk') | Some r \<Rightarrow> primary_returned now r sh' tk')))"
| "task_step dbg (PollSecond now reply) sh tk =
     (if \<not> polls_second (tk_phase tk) then None
      else case tk_second tk of
        None \<Rightarrow> None
      | Some f0 \<Rightarrow>
          (case poll_send now reply f0 (sh_breakers sh) of (cbs, f) \<Rightarrow>
            (let sh' = sh\<lparr>sh_breakers := cbs\<rparr>; tk' = tk\<lparr>tk_second := Some f\<rparr> in
             Some (case send_output f of None \<Rightarrow> (sh', tk') | Some r \<Rightarrow> second_returned now r sh' tk'))))"

text \<open>Any number of tasks on the shared state; a step is one step of one of them.\<close>

inductive forward_step :: "bool \<Rightarrow> forward_shared \<times> ('e, 'q, 'b) forward_task list \<Rightarrow>
    forward_shared \<times> ('e, 'q, 'b) forward_task list \<Rightarrow> bool" for dbg where
  task: "i < length tks \<Longrightarrow> task_step dbg ev sh (tks ! i) = Some (sh', tk') \<Longrightarrow>
    forward_step dbg (sh, tks) (sh', tks[i := tk'])"

inductive_cases forward_stepE: "forward_step dbg s s'"

end
