(* ===== verification/Forward_Safety.thy ===== *)
theory Forward_Safety
  imports Forward_Dispatch
begin

text \<open>
  What the upstream tasks guarantee under every interleaving: no permit of a circuit breaker leaks,
  second requests respect the retry and hedge policies and the retry budget, an error is returned
  only when every request failed, and every task ends.
\<close>

section \<open>Effect of the helpers\<close>

fun discard :: "'b send_future \<Rightarrow> 'b send_future" where
  "discard (InFlight p) = Abandoned"
| "discard f = f"

lemma drop_send_discard: "drop_send f cbs = (fst (drop_send f cbs), discard f)"
  by (cases f) simp_all

definition drop_second :: "'b send_future option \<Rightarrow> circuit_breakers \<Rightarrow> circuit_breakers" where
  "drop_second s cbs = (case s of None \<Rightarrow> cbs | Some f \<Rightarrow> fst (drop_send f cbs))"

lemma leave_task_eq:
  "leave_task ph sh tk =
     (sh\<lparr>sh_breakers := fst (drop_send (tk_primary tk) (drop_second (tk_second tk) (sh_breakers sh)))\<rparr>,
      tk\<lparr>tk_phase := ph, tk_primary := discard (tk_primary tk), tk_second := map_option discard (tk_second tk)\<rparr>)"
proof (cases "tk_second tk")
  case None
  then show ?thesis
    by (simp add: leave_task_def drop_second_def) (subst drop_send_discard, simp)
next
  case (Some f)
  obtain cbs1 where c: "drop_send f (sh_breakers sh) = (cbs1, discard f)" using drop_send_discard by blast
  with Some show ?thesis
    by (simp add: leave_task_def drop_second_def) (subst drop_send_discard, simp)
qed

lemma leave_task_fields [simp]:
  "tk_phase (snd (leave_task ph sh tk)) = ph"
  "tk_primary (snd (leave_task ph sh tk)) = discard (tk_primary tk)"
  "tk_second (snd (leave_task ph sh tk)) = map_option discard (tk_second tk)"
  "tk_ctx (snd (leave_task ph sh tk)) = tk_ctx tk"
  "tk_mark (snd (leave_task ph sh tk)) = tk_mark tk"
  "tk_retry (snd (leave_task ph sh tk)) = tk_retry tk"
  "tk_telemetry (snd (leave_task ph sh tk)) = tk_telemetry tk"
  "sh_budget (fst (leave_task ph sh tk)) = sh_budget sh"
  by (simp_all add: leave_task_eq)

lemma on_hedge_fields [simp]:
  "tk_ctx (on_hedge f tk) = tk_ctx tk" "tk_phase (on_hedge f tk) = tk_phase tk"
  "tk_primary (on_hedge f tk) = tk_primary tk" "tk_second (on_hedge f tk) = tk_second tk"
  "tk_mark (on_hedge f tk) = tk_mark tk" "tk_retry (on_hedge f tk) = tk_retry tk"
  by (simp_all add: on_hedge_def)

lemma on_retry_fields [simp]:
  "tk_ctx (on_retry f tk) = tk_ctx tk" "tk_phase (on_retry f tk) = tk_phase tk"
  "tk_primary (on_retry f tk) = tk_primary tk" "tk_second (on_retry f tk) = tk_second tk"
  "tk_mark (on_retry f tk) = tk_mark tk" "tk_retry (on_retry f tk) = tk_retry tk"
  by (simp_all add: on_retry_def)

lemma hedge_won_fields [simp]:
  "tk_ctx (hedge_won now tk) = tk_ctx tk" "tk_phase (hedge_won now tk) = tk_phase tk"
  "tk_primary (hedge_won now tk) = tk_primary tk" "tk_second (hedge_won now tk) = tk_second tk"
  "tk_mark (hedge_won now tk) = tk_mark tk" "tk_retry (hedge_won now tk) = tk_retry tk"
  by (simp_all add: hedge_won_def Let_def)

lemmas dispatch_defs = finish_with_def retry_primary_error_def primary_returned_def second_returned_def
  hedge_decided_def

section \<open>The permits of a task\<close>

fun send_permits :: "'b send_future \<Rightarrow> circuit_breaker_permit list" where
  "send_permits (InFlight p) = [p]"
| "send_permits f = []"

definition second_permits :: "'b send_future option \<Rightarrow> circuit_breaker_permit list" where
  "second_permits s = (case s of None \<Rightarrow> [] | Some f \<Rightarrow> send_permits f)"

definition task_permits :: "('e, 'q, 'b) forward_task \<Rightarrow> circuit_breaker_permit list" where
  "task_permits tk = send_permits (tk_primary tk) @ second_permits (tk_second tk)"

text \<open>The operations on the breakers a future has done at most.\<close>

fun send_ops :: "'b send_future \<Rightarrow> nat" where
  "send_ops (NotPolled b) = 0"
| "send_ops (InFlight p) = 1"
| "send_ops f = 2"

definition task_ops :: "('e, 'q, 'b) forward_task \<Rightarrow> nat" where
  "task_ops tk = send_ops (tk_primary tk) + (case tk_second tk of None \<Rightarrow> 0 | Some f \<Rightarrow> send_ops f)"

lemma send_ops_le: "send_ops f \<le> 2"
  by (cases f) simp_all

lemma task_ops_le: "task_ops tk \<le> 4"
  using send_ops_le [of "tk_primary tk"] send_ops_le [of "the (tk_second tk)"]
  by (auto simp: task_ops_def split: option.splits)

definition ledger_ok :: "bool \<times> u32 \<times> duration \<times> u32 \<Rightarrow> nat \<Rightarrow> circuit_breakers \<Rightarrow> circuit_breaker_permit multiset \<Rightarrow> bool" where
  "ledger_ok cfg n cbs out \<longleftrightarrow> breakers_ok n cbs out \<and> breaker_config cbs = cfg"

lemma ledger_later: "ledger_ok cfg n cbs out \<Longrightarrow> ledger_ok cfg (Suc n) cbs out"
  by (simp add: ledger_ok_def breakers_ok_later)

lemma poll_send_ledger:
  assumes "ledger_ok cfg (n + send_ops f) cbs (mset (send_permits f) + out)" and "n + 2 < 2 ^ 64"
    and "poll_send now reply f cbs = (cbs', f')"
  shows "ledger_ok cfg (n + send_ops f') cbs' (mset (send_permits f') + out)"
proof (cases f)
  case (NotPolled b)
  have n: "Suc n < 2 ^ 64" using assms(2) by simp
  obtain r where al: "allow_request (b, now) cbs = (cbs', r)" and f': "f' = (case r of None \<Rightarrow> Refused b | Some p \<Rightarrow> InFlight p)"
    using assms(3) NotPolled by (auto split: prod.splits option.splits)
  have ok: "ledger_ok cfg n cbs out" using assms(1) NotPolled by simp
  show ?thesis
  proof (cases r)
    case None
    from cbl.acquire_refused [OF ok [unfolded ledger_ok_def] n al [unfolded None]] show ?thesis
      using f' None ledger_later [of cfg "Suc n" cbs' out] by (simp add: ledger_ok_def)
  next
    case (Some p)
    from cbl.acquire_granted [OF ok [unfolded ledger_ok_def] n al [unfolded Some]] show ?thesis
      using f' Some by (simp add: ledger_ok_def)
  qed
next
  case (InFlight p)
  then have "breakers_ok (Suc n) cbs (add_mset p out) \<and> breaker_config cbs = cfg"
    using assms(1) by (simp add: ledger_ok_def)
  note settled = cbl.settle_ok [OF this]
  show ?thesis
    using assms InFlight settled [of Succeeded] settled [of "Failed now"]
    by (cases reply; cases "the reply") (auto simp: ledger_ok_def)
qed (use assms in auto)

lemma drop_send_ledger:
  assumes "ledger_ok cfg (n + send_ops f) cbs (mset (send_permits f) + out)" and "n + 2 < 2 ^ 64"
  shows "ledger_ok cfg (n + send_ops (discard f)) (fst (drop_send f cbs)) (mset (send_permits (discard f)) + out)"
proof (cases f)
  case (InFlight p)
  then have "breakers_ok (Suc n) cbs (add_mset p out) \<and> breaker_config cbs = cfg"
    using assms(1) by (simp add: ledger_ok_def)
  from cbl.settle_ok [OF this, of Dropped] show ?thesis using assms(2) InFlight by (simp add: ledger_ok_def)
qed (use assms in auto)

definition holds_ledger :: "bool \<times> u32 \<times> duration \<times> u32 \<Rightarrow> nat \<Rightarrow> circuit_breaker_permit multiset \<Rightarrow>
    forward_shared \<times> ('e, 'q, 'b) forward_task \<Rightarrow> bool" where
  "holds_ledger cfg n out = (\<lambda>(sh, tk).
     ledger_ok cfg (n + task_ops tk) (sh_breakers sh) (mset (task_permits tk) + out))"

lemma holds_ledger_same:
  "holds_ledger cfg n out (sh, tk) \<Longrightarrow> sh_breakers sh' = sh_breakers sh \<Longrightarrow> tk_primary tk' = tk_primary tk \<Longrightarrow>
   tk_second tk' = tk_second tk \<Longrightarrow> holds_ledger cfg n out (sh', tk')"
  for tk tk' :: "('e, 'q, 'b) forward_task"
  by (simp add: holds_ledger_def task_ops_def task_permits_def)

lemma holds_ledger_primary:
  "holds_ledger cfg n out (sh, tk) \<longleftrightarrow>
   ledger_ok cfg (n + task_ops (tk\<lparr>tk_primary := NotPolled []\<rparr>) + send_ops (tk_primary tk)) (sh_breakers sh)
     (mset (send_permits (tk_primary tk)) + (mset (second_permits (tk_second tk)) + out))"
  by (simp add: holds_ledger_def task_ops_def task_permits_def ac_simps)

lemma holds_ledger_second:
  "tk_second tk = Some f \<Longrightarrow> holds_ledger cfg n out (sh, tk) \<longleftrightarrow>
   ledger_ok cfg (n + send_ops (tk_primary tk) + send_ops f) (sh_breakers sh)
     (mset (send_permits f) + (mset (send_permits (tk_primary tk)) + out))"
  by (simp add: holds_ledger_def task_ops_def task_permits_def second_permits_def ac_simps)

lemma leave_task_ledger:
  assumes "holds_ledger cfg n out (sh, tk)" and "n + 4 < 2 ^ 64"
  shows "holds_ledger cfg n out (leave_task ph sh tk)"
proof -
  let ?cbs1 = "drop_second (tk_second tk) (sh_breakers sh)" and ?s = "map_option discard (tk_second tk)"
  let ?tk1 = "tk\<lparr>tk_second := ?s\<rparr>"
  have one: "holds_ledger cfg n out (sh\<lparr>sh_breakers := ?cbs1\<rparr>, ?tk1)"
  proof (cases "tk_second tk")
    case None
    then show ?thesis using assms(1) by (auto intro: holds_ledger_same simp: drop_second_def)
  next
    case (Some f)
    have *: "n + send_ops (tk_primary tk) + 2 < 2 ^ 64" using assms(2) send_ops_le [of "tk_primary tk"] by simp
    show ?thesis
      using drop_send_ledger [OF assms(1) [unfolded holds_ledger_second [OF Some]] *] Some
      by (simp add: holds_ledger_second drop_second_def)
  qed
  have *: "n + task_ops (?tk1\<lparr>tk_primary := NotPolled []\<rparr>) + 2 < 2 ^ 64"
    using assms(2) send_ops_le [of "the ?s"] by (auto simp: task_ops_def split: option.splits)
  show ?thesis
    using drop_send_ledger [OF one [unfolded holds_ledger_primary] *]
    by (simp add: leave_task_eq holds_ledger_primary task_ops_def)
qed

section \<open>The phases\<close>

fun pending :: "'b send_future \<Rightarrow> bool" where
  "pending (NotPolled b) = True"
| "pending (InFlight p) = True"
| "pending f = False"

fun failed_with :: "proxy_error \<Rightarrow> 'b send_future \<Rightarrow> bool" where
  "failed_with e (Refused b) = (e = PoolFailed (PoolCircuitOpen b))"
| "failed_with e (Answered r) = (r = Inl e)"
| "failed_with e f = False"

definition failed :: "'b send_future \<Rightarrow> bool" where
  "failed f \<longleftrightarrow> (\<exists>e. failed_with e f)"

fun deciding :: "budget_thread \<Rightarrow> bool" where
  "deciding (RetryStart r) = True"
| "deciding (RetryReserve r l) = True"
| "deciding (RetryRoute r) = True"
| "deciding (RetryRefund r) = True"
| "deciding t = False"

fun success_response :: "'b forward_success \<Rightarrow> 'b upstream_response" where
  "success_response (ForwardResponse x) = x"
| "success_response (ForwardTunnel x) = x"

definition answered_by :: "'b upstream_response \<Rightarrow> ('e, 'q, 'b) forward_task \<Rightarrow> bool" where
  "answered_by x tk \<longleftrightarrow> tk_primary tk = Answered (Inr x) \<or> tk_second tk = Some (Answered (Inr x))"

text \<open>The task gave up: nothing was sent, or every request it sent failed and the error is one of theirs.\<close>

definition ended_in_error :: "proxy_error \<Rightarrow> ('e, 'q, 'b) forward_task \<Rightarrow> bool" where
  "ended_in_error e tk \<longleftrightarrow>
     (\<exists>b. tk_primary tk = NotPolled b) \<and> tk_second tk = None \<or>
     failed (tk_primary tk) \<and> (\<forall>f. tk_second tk = Some f \<longrightarrow> failed f) \<and>
     (failed_with e (tk_primary tk) \<or> (\<exists>f. tk_second tk = Some f \<and> failed_with e f))"

definition phase_ok :: "('e, 'q, 'b) forward_task \<Rightarrow> bool" where
  "phase_ok tk = (case tk_phase tk of
       Marking \<Rightarrow> tk_primary tk = NotPolled (fc_primary_backend (tk_ctx tk)) \<and> tk_second tk = None \<and>
         tk_mark tk \<in> {MarkStart (fc_route_name (tk_ctx tk)), MarkRoute (fc_route_name (tk_ctx tk))} \<and>
         deciding (tk_retry tk)
     | UpgradeSend \<Rightarrow> pending (tk_primary tk) \<and> tk_second tk = None
     | PlainSend \<Rightarrow> pending (tk_primary tk) \<and> tk_second tk = None
     | RetrySend \<Rightarrow> pending (tk_primary tk) \<and> tk_second tk = None \<and> deciding (tk_retry tk)
     | HedgeWait b \<Rightarrow> pending (tk_primary tk) \<and> tk_second tk = None \<and> deciding (tk_retry tk) \<and>
         fc_alternate (tk_ctx tk) = Some (AlternateSelected b)
     | HedgeBudget b \<Rightarrow> pending (tk_primary tk) \<and> tk_second tk = None \<and> deciding (tk_retry tk) \<and>
         fc_alternate (tk_ctx tk) = Some (AlternateSelected b)
     | HedgeRace \<Rightarrow> pending (tk_primary tk) \<and> (\<exists>f. tk_second tk = Some f \<and> pending f)
     | PrimaryAwait \<Rightarrow> pending (tk_primary tk) \<and> (\<forall>f. tk_second tk = Some f \<longrightarrow> failed f)
     | HedgeAwait \<Rightarrow> failed (tk_primary tk) \<and> (\<exists>f. tk_second tk = Some f \<and> pending f)
     | RetryBudgeting e \<Rightarrow> failed_with e (tk_primary tk) \<and> tk_second tk = None \<and> deciding (tk_retry tk)
     | RetryAwait \<Rightarrow> failed (tk_primary tk) \<and> (\<exists>f. tk_second tk = Some f \<and> pending f)
     | Finished (Inl e) \<Rightarrow> ended_in_error e tk
     | Finished (Inr x) \<Rightarrow> answered_by (success_response x) tk \<and> task_permits tk = []
     | TaskPanicked \<Rightarrow> task_permits tk = [] \<and> (\<exists>r. tk_retry tk = RetryPanicked r))"

lemma send_output_cases:
  "send_output f = None \<Longrightarrow> pending f \<or> f = Abandoned"
  "send_output f = Some (Inl e) \<longleftrightarrow> failed_with e f"
  "send_output f = Some (Inr x) \<longleftrightarrow> f = Answered (Inr x)"
  by (cases f; auto)+

lemma poll_send_not_abandoned: "poll_send now reply f cbs = (cbs', f') \<Longrightarrow> f \<noteq> Abandoned \<Longrightarrow> f' \<noteq> Abandoned"
  by (cases f; cases reply; cases "the reply"; auto split: prod.splits option.splits)

lemma poll_send_result:
  assumes "poll_send now reply f cbs = (cbs', f')" and "pending f"
  shows "send_output f' = None \<Longrightarrow> pending f'"
    and "send_output f' = Some (Inl e) \<Longrightarrow> failed_with e f'"
    and "send_output f' = Some (Inr x) \<Longrightarrow> f' = Answered (Inr x)"
  using poll_send_not_abandoned [OF assms(1)] assms(2) send_output_cases [of f'] by auto

lemma future_kinds [simp]:
  "failed_with e f \<Longrightarrow> failed f" "failed_with e f \<Longrightarrow> discard f = f" "failed f \<Longrightarrow> discard f = f"
  "failed f \<Longrightarrow> send_permits f = []" "failed f \<Longrightarrow> f \<noteq> Abandoned" "send_permits (discard f) = []"
  by (cases f; auto simp: failed_def)+

lemma discard_permits [simp]: "second_permits (map_option discard s) = []"
  by (cases s) (simp_all add: second_permits_def)

lemma task_new_phase_ok [simp]: "phase_ok (task_new c)"
  by (simp add: phase_ok_def task_new_def)

lemma candidate_alternate:
  "build_alternate_bodyless_candidate c = Some (b, q) \<Longrightarrow> fc_alternate c = Some (AlternateSelected b)"
  by (auto simp: build_alternate_bodyless_candidate_def split: option.splits resolved_alternate.splits sum.splits)

lemma forward_start_cases:
  "forward_start c = ph \<Longrightarrow> (case ph of
       Finished r \<Rightarrow> (\<exists>e. r = Inl e) | UpgradeSend \<Rightarrow> True | PlainSend \<Rightarrow> True | RetrySend \<Rightarrow> True
     | HedgeWait b \<Rightarrow> fc_alternate c = Some (AlternateSelected b) \<and>
         hedge_before_delay (fc_policy c) (fc_alternate c) = WaitForPrimary
     | _ \<Rightarrow> False)"
  by (auto simp: forward_start_def candidate_alternate split: if_splits option.splits sum.splits hedge_decision.splits)

lemma finish_error_phase_ok:
  "failed (tk_primary tk) \<Longrightarrow> (\<And>f. tk_second tk = Some f \<Longrightarrow> failed f) \<Longrightarrow>
   failed_with e (tk_primary tk) \<or> (\<exists>f. tk_second tk = Some f \<and> failed_with e f) \<Longrightarrow>
   phase_ok (snd (finish_with (Inl e) sh tk))"
  by (auto simp: finish_with_def phase_ok_def ended_in_error_def)

lemma leave_success_phase_ok:
  "answered_by (success_response y) tk \<Longrightarrow> phase_ok (snd (leave_task (Finished (Inr y)) sh tk))"
  by (auto simp: phase_ok_def task_permits_def answered_by_def)

lemma finish_success_phase_ok: "answered_by x tk \<Longrightarrow> phase_ok (snd (finish_with (Inr x) sh tk))"
  by (simp add: finish_with_def leave_success_phase_ok)

lemma retry_after_error_Retry:
  "retry_after_error p e n m budget alt = Retry r \<Longrightarrow>
   fp_method_idempotent p \<and> fp_bodyless_mode p \<and> budget \<and> n < m \<and> is_retryable e"
  by (auto simp: retry_after_error_def retry_policy_Retry is_retryable_def split: prod.splits)

lemma retry_primary_error_cases:
  obtains (refused) f where "retry_primary_error e budget sh tk = finish_with (Inl e) sh (on_retry f tk)"
  | (retried) b f where "retry_primary_error e budget sh tk =
      (sh, on_retry f (tk\<lparr>tk_second := Some (NotPolled b), tk_phase := RetryAwait\<rparr>))"
    and "fc_alternate (tk_ctx tk) = Some (AlternateSelected b)" and "fp_bodyless_mode (fc_policy (tk_ctx tk))"
    and "fp_method_idempotent (fc_policy (tk_ctx tk))" and "budget" and "is_retryable e"
proof (cases "retry_after_error (fc_policy (tk_ctx tk)) e (rt_count (pt_retry (tk_telemetry tk)))
      max_upstream_retry_attempts budget (fc_alternate (tk_ctx tk))")
  case (Retry reason)
  show ?thesis
  proof (cases "build_alternate_bodyless_candidate (tk_ctx tk)")
    case None
    then show ?thesis using refused [of id] Retry by (simp add: retry_primary_error_def on_retry_def)
  next
    case (Some cand)
    moreover obtain b q where "cand = (b, q)" by fastforce
    ultimately show ?thesis
      using retried [of "record_attempt (attempt_reason_of reason)" b] Retry retry_after_error_Retry [OF Retry]
        candidate_alternate [of "tk_ctx tk" b q] by (simp add: retry_primary_error_def)
  qed
qed (use refused in \<open>auto simp: retry_primary_error_def\<close>)

lemma retry_primary_error_phase_ok:
  assumes "failed_with e (tk_primary tk)" and "tk_second tk = None"
  shows "phase_ok (snd (retry_primary_error e budget sh tk))"
proof (cases rule: retry_primary_error_cases [of e budget sh tk])
  case (refused f)
  have "phase_ok (snd (finish_with (Inl e) sh (on_retry f tk)))"
    by (rule finish_error_phase_ok) (use assms in auto)
  then show ?thesis using refused by simp
qed (use assms in \<open>auto simp: phase_ok_def\<close>)

lemma primary_returned_phase_ok:
  assumes "phase_ok (tk\<lparr>tk_primary := g\<rparr>)" and "polls_primary (tk_phase tk)"
    and "send_output (tk_primary tk) = Some r"
  shows "phase_ok (snd (primary_returned now r sh tk))"
proof (cases r)
  case (Inl e)
  then have f: "failed_with e (tk_primary tk)" using assms(3) by (simp add: send_output_cases)
  have fin: "phase_ok (snd (finish_with (Inl e) sh tk))" if "\<forall>f. tk_second tk = Some f \<longrightarrow> failed f"
    by (rule finish_error_phase_ok) (use f that in auto)
  from f assms(1,2) Inl fin retry_primary_error_phase_ok [OF f, of True sh] show ?thesis
    by (cases "tk_phase tk") (auto simp: primary_returned_def phase_ok_def polls_primary_def)
next
  case (Inr x)
  then have f: "tk_primary tk = Answered (Inr x)" using assms(3) by (simp add: send_output_cases)
  then have fin: "phase_ok (snd (finish_with (Inr x) sh (on_hedge h tk)))"
    "phase_ok (snd (finish_with (Inr x) sh tk))" for h
    by (auto intro!: finish_success_phase_ok simp: answered_by_def)
  have "phase_ok (snd (leave_task (Finished (Inr (ForwardTunnel x))) sh tk))"
    using f by (intro leave_success_phase_ok) (simp add: answered_by_def)
  then show ?thesis
    using assms(2) Inr fin by (cases "tk_phase tk") (simp_all add: primary_returned_def polls_primary_def)
qed

lemma second_returned_phase_ok:
  assumes "phase_ok (tk\<lparr>tk_second := Some g\<rparr>)" and "polls_second (tk_phase tk)"
    and "tk_second tk = Some f" and "send_output f = Some r"
  shows "phase_ok (snd (second_returned now r sh tk))"
proof (cases r)
  case (Inl e)
  then have f: "failed f" "failed_with e f" using assms(4) by (auto simp: send_output_cases)
  have fin: "phase_ok (snd (finish_with (Inl e) sh tk))" if "failed (tk_primary tk)"
    by (rule finish_error_phase_ok) (use f that assms(3) in auto)
  from f assms(1,2,3) Inl fin show ?thesis
    by (cases "tk_phase tk") (auto simp: second_returned_def phase_ok_def polls_second_def)
next
  case (Inr x)
  then have f: "f = Answered (Inr x)" using assms(4) by (simp add: send_output_cases)
  then have "phase_ok (snd (finish_with (Inr x) sh (hedge_won now tk)))" "phase_ok (snd (finish_with (Inr x) sh tk))"
    using assms(3) by (auto intro!: finish_success_phase_ok simp: answered_by_def)
  then show ?thesis
    using assms(2) Inr by (cases "tk_phase tk") (simp_all add: second_returned_def polls_second_def)
qed

section \<open>The steps, case by case\<close>

definition marked_task :: "instant \<Rightarrow> budget_thread \<Rightarrow> ('e, 'q, 'b) forward_task \<Rightarrow> ('e, 'q, 'b) forward_task" where
  "marked_task now t tk = (case t of
       MarkDone _ \<Rightarrow> tk\<lparr>tk_mark := t, tk_phase := forward_start (tk_ctx tk), tk_primary_started := now\<rparr>
     | _ \<Rightarrow> tk\<lparr>tk_mark := t\<rparr>)"

definition decided_task :: "budget_thread \<Rightarrow> forward_shared \<Rightarrow> ('e, 'q, 'b) forward_task \<Rightarrow>
    forward_shared \<times> ('e, 'q, 'b) forward_task" where
  "decided_task t sh tk = (case (t, tk_phase tk) of
       (RetryAllowed _, HedgeBudget b) \<Rightarrow> (sh, hedge_decided b True tk)
     | (RetryDenied _, HedgeBudget b) \<Rightarrow> (sh, hedge_decided b False tk)
     | (RetryAllowed _, RetryBudgeting e) \<Rightarrow> retry_primary_error e True sh tk
     | (RetryDenied _, RetryBudgeting e) \<Rightarrow> retry_primary_error e False sh tk
     | (RetryPanicked _, _) \<Rightarrow> leave_task TaskPanicked sh tk
     | _ \<Rightarrow> (sh, tk))"

definition polled_primary :: "instant \<Rightarrow> forward_shared \<Rightarrow> ('e, 'q, 'b) forward_task \<Rightarrow>
    forward_shared \<times> ('e, 'q, 'b) forward_task" where
  "polled_primary now sh tk = (case send_output (tk_primary tk) of
       None \<Rightarrow> (sh, tk) | Some r \<Rightarrow> primary_returned now r sh tk)"

definition polled_second :: "instant \<Rightarrow> 'b send_future \<Rightarrow> forward_shared \<Rightarrow> ('e, 'q, 'b) forward_task \<Rightarrow>
    forward_shared \<times> ('e, 'q, 'b) forward_task" where
  "polled_second now f sh tk = (case send_output f of
       None \<Rightarrow> (sh, tk) | Some r \<Rightarrow> second_returned now r sh tk)"

fun asks_budget :: "'b forward_phase \<Rightarrow> bool" where
  "asks_budget (HedgeBudget b) = True"
| "asks_budget (RetryBudgeting e) = True"
| "asks_budget ph = False"

lemma allow_step_decided:
  assumes "task_step dbg (BudgetAccess now) sh tk = Some res" and "asks_budget (tk_phase tk)"
  obtains rb t where "budget_access dbg (tk_retry tk) (sh_budget sh) = Some (rb, t)"
    and "res = decided_task t (sh\<lparr>sh_budget := rb\<rparr>) (tk\<lparr>tk_retry := t\<rparr>)"
  using assms by (cases "tk_phase tk")
    (auto simp: allow_step_def decided_task_def Let_def split: option.splits budget_thread.splits)

lemma task_step_cases:
  assumes "task_step dbg ev sh tk = Some res"
  obtains
    (marking) now rb t where "tk_phase tk = Marking" and "budget_access dbg (tk_mark tk) (sh_budget sh) = Some (rb, t)"
      and "res = (sh\<lparr>sh_budget := rb\<rparr>, marked_task now t tk)"
  | (asking) rb t where "asks_budget (tk_phase tk)" and "budget_access dbg (tk_retry tk) (sh_budget sh) = Some (rb, t)"
      and "res = decided_task t (sh\<lparr>sh_budget := rb\<rparr>) (tk\<lparr>tk_retry := t\<rparr>)"
  | (slept) b where "tk_phase tk = HedgeWait b" and "res = (sh, tk\<lparr>tk_phase := HedgeBudget b\<rparr>)"
  | (primary) now reply cbs f where "polls_primary (tk_phase tk)"
      and "poll_send now reply (tk_primary tk) (sh_breakers sh) = (cbs, f)"
      and "res = polled_primary now (sh\<lparr>sh_breakers := cbs\<rparr>) (tk\<lparr>tk_primary := f\<rparr>)"
  | (second) now reply f0 cbs f where "polls_second (tk_phase tk)" and "tk_second tk = Some f0"
      and "poll_send now reply f0 (sh_breakers sh) = (cbs, f)"
      and "res = polled_second now f (sh\<lparr>sh_breakers := cbs\<rparr>) (tk\<lparr>tk_second := Some f\<rparr>)"
proof (cases ev)
  case (BudgetAccess now)
  show ?thesis
  proof (cases "asks_budget (tk_phase tk)")
    case True
    show ?thesis by (rule allow_step_decided [OF assms [unfolded BudgetAccess] True]) (rule asking [OF True])
  next
    case False
    then have ph: "tk_phase tk = Marking" and st: "mark_step dbg now sh tk = Some res"
      using assms BudgetAccess by (cases "tk_phase tk"; simp)+
    from st obtain rb t where "budget_access dbg (tk_mark tk) (sh_budget sh) = Some (rb, t)"
      "res = (sh\<lparr>sh_budget := rb\<rparr>, marked_task now t tk)"
      by (auto simp: mark_step_def marked_task_def split: option.splits)
    then show ?thesis by (rule marking [OF ph])
  qed
next
  case SleepElapsed
  then show ?thesis using assms slept by (cases "tk_phase tk") auto
next
  case (PollPrimary now reply)
  obtain cbs f where "poll_send now reply (tk_primary tk) (sh_breakers sh) = (cbs, f)" by fastforce
  then show ?thesis
    using assms PollPrimary primary [of now reply cbs f] by (auto simp: polled_primary_def Let_def split: if_splits)
next
  case (PollSecond now reply)
  then obtain f0 where f0: "tk_second tk = Some f0" using assms by (auto split: if_splits option.splits)
  obtain cbs f where "poll_send now reply f0 (sh_breakers sh) = (cbs, f)" by fastforce
  then show ?thesis
    using assms PollSecond f0 second [of f0 now reply cbs f] by (auto simp: polled_second_def Let_def split: if_splits)
qed

lemma access_outcomes:
  assumes "budget_access dbg t rb = Some (rb', t')"
  shows "deciding t \<Longrightarrow> deciding t' \<or> (\<exists>r. t' \<in> {RetryAllowed r, RetryDenied r, RetryPanicked r})"
    and "t = MarkStart r \<Longrightarrow> t' = MarkRoute r" and "t = MarkRoute r \<Longrightarrow> t' = MarkDone r"
  using assms by (cases t; auto simp: retry_start_def retry_reserve_def retry_route_def retry_refund_def
      split: if_splits option.splits prod.splits)+

lemma start_phase_ok:
  assumes "tk_phase tk = forward_start (tk_ctx tk)" and "tk_primary tk = NotPolled b" and "tk_second tk = None"
    and "deciding (tk_retry tk)"
  shows "phase_ok tk"
  using assms(2-4) forward_start_cases [OF assms(1) [symmetric]]
  by (cases "tk_phase tk") (auto simp: phase_ok_def ended_in_error_def)

lemma marked_phase_ok:
  assumes "phase_ok tk" and "tk_phase tk = Marking" and "budget_access dbg (tk_mark tk) rb = Some (rb', t)"
  shows "phase_ok (marked_task now t tk)"
proof -
  let ?r = "fc_route_name (tk_ctx tk)"
  have m: "tk_primary tk = NotPolled (fc_primary_backend (tk_ctx tk))" "tk_second tk = None" "deciding (tk_retry tk)"
    "t = MarkRoute ?r \<or> t = MarkDone ?r"
    using assms(1,2) access_outcomes [OF assms(3)] by (auto simp: phase_ok_def)
  from m(4) show ?thesis
  proof
    assume "t = MarkRoute ?r"
    then show ?thesis using assms(1,2) by (simp add: marked_task_def phase_ok_def)
  next
    assume t: "t = MarkDone ?r"
    show ?thesis by (rule start_phase_ok) (use m t in \<open>simp_all add: marked_task_def\<close>)
  qed
qed

lemma hedge_decided_phase_ok:
  assumes "phase_ok tk" and "tk_phase tk = HedgeBudget b"
  shows "phase_ok (hedge_decided b budget tk)"
  using assms by (simp add: hedge_decided_def phase_ok_def split: hedge_decision.splits)

lemma panicked_phase_ok: "tk_retry tk = RetryPanicked r \<Longrightarrow> phase_ok (snd (leave_task TaskPanicked sh tk))"
  by (simp add: phase_ok_def task_permits_def)

lemma decided_phase_ok:
  assumes ok: "phase_ok tk" and "asks_budget (tk_phase tk)" and "budget_access dbg (tk_retry tk) rb = Some (rb', t)"
  shows "phase_ok (snd (decided_task t sh (tk\<lparr>tk_retry := t\<rparr>)))"
proof -
  let ?tk = "tk\<lparr>tk_retry := t\<rparr>"
  have "deciding (tk_retry tk)" using ok assms(2) by (cases "tk_phase tk") (simp_all add: phase_ok_def)
  then have t: "deciding t \<or> (\<exists>r. t \<in> {RetryAllowed r, RetryDenied r, RetryPanicked r})"
    using access_outcomes(1) [OF assms(3)] by blast
  show ?thesis
  proof (cases "tk_phase tk")
    case (HedgeBudget b)
    then have "\<And>r. tk_retry tk \<noteq> RetryAllowed r" "deciding t \<Longrightarrow> phase_ok ?tk" using ok by (auto simp: phase_ok_def)
    moreover have "phase_ok (hedge_decided b budget ?tk)" for budget
      using HedgeBudget ok by (simp add: hedge_decided_def phase_ok_def split: hedge_decision.splits)
    ultimately show ?thesis
      using HedgeBudget t panicked_phase_ok [of ?tk] by (cases t) (simp_all add: decided_task_def)
  next
    case (RetryBudgeting e)
    then have e: "failed_with e (tk_primary ?tk)" "tk_second ?tk = None" and "deciding t \<Longrightarrow> phase_ok ?tk"
      using ok by (auto simp: phase_ok_def)
    moreover have "phase_ok (snd (retry_primary_error e budget sh ?tk))" for budget
      by (rule retry_primary_error_phase_ok [OF e])
    ultimately show ?thesis
      using RetryBudgeting t panicked_phase_ok [of ?tk] by (cases t) (simp_all add: decided_task_def)
  qed (use assms(2) in simp_all)
qed

lemma polled_primary_phase_ok:
  assumes ok: "phase_ok tk" and ph: "polls_primary (tk_phase tk)" and "poll_send now reply (tk_primary tk) cbs = (cbs', f)"
  shows "phase_ok (snd (polled_primary now sh (tk\<lparr>tk_primary := f\<rparr>)))"
proof -
  have "pending (tk_primary tk)" using ok ph by (cases "tk_phase tk") (simp_all add: phase_ok_def polls_primary_def)
  note res = poll_send_result [OF assms(3) this]
  show ?thesis
  proof (cases "send_output f")
    case None
    with res(1) have "pending f" by simp
    then show ?thesis
      using ok ph None by (cases "tk_phase tk") (simp_all add: phase_ok_def polls_primary_def polled_primary_def)
  next
    case (Some r)
    then have "phase_ok (snd (primary_returned now r sh (tk\<lparr>tk_primary := f\<rparr>)))"
      by (intro primary_returned_phase_ok [where g = "tk_primary tk"]) (use ok ph in simp_all)
    then show ?thesis using Some by (simp add: polled_primary_def)
  qed
qed

lemma polled_second_phase_ok:
  assumes ok: "phase_ok tk" and ph: "polls_second (tk_phase tk)" and f0: "tk_second tk = Some f0"
    and "poll_send now reply f0 cbs = (cbs', f)"
  shows "phase_ok (snd (polled_second now f sh (tk\<lparr>tk_second := Some f\<rparr>)))"
proof -
  have "pending f0" using ok ph f0 by (cases "tk_phase tk") (simp_all add: phase_ok_def polls_second_def)
  note res = poll_send_result [OF assms(4) this]
  show ?thesis
  proof (cases "send_output f")
    case None
    with res(1) have "pending f" by simp
    then show ?thesis
      using ok ph None by (cases "tk_phase tk") (simp_all add: phase_ok_def polls_second_def polled_second_def)
  next
    case (Some r)
    have "tk\<lparr>tk_second := Some f0\<rparr> = tk" using f0 by simp
    then have "phase_ok (snd (second_returned now r sh (tk\<lparr>tk_second := Some f\<rparr>)))"
      using Some by (intro second_returned_phase_ok [where g = f0 and f = f]) (use ok ph in simp_all)
    then show ?thesis using Some by (simp add: polled_second_def)
  qed
qed

lemma task_step_phase_ok:
  assumes "task_step dbg ev sh tk = Some res" and ok: "phase_ok tk"
  shows "phase_ok (snd res)"
  using assms(1)
proof (cases rule: task_step_cases)
  case (marking now rb t)
  then show ?thesis using marked_phase_ok [OF ok marking(1,2)] by simp
next
  case (asking rb t)
  then show ?thesis using decided_phase_ok [OF ok asking(1,2)] by simp
next
  case (slept b)
  then show ?thesis using ok by (simp add: phase_ok_def)
next
  case (primary now reply cbs f)
  then show ?thesis using polled_primary_phase_ok [OF ok primary(1,2)] by simp
next
  case (second now reply f0 cbs f)
  then show ?thesis using polled_second_phase_ok [OF ok second(1,2,3)] by simp
qed

section \<open>No permit leaks\<close>

lemma holds_ledger_spawn:
  "holds_ledger cfg n out (sh, tk) \<Longrightarrow> tk_second tk = None \<Longrightarrow> sh_breakers sh' = sh_breakers sh \<Longrightarrow>
   tk_primary tk' = tk_primary tk \<Longrightarrow> tk_second tk' = Some (NotPolled b) \<Longrightarrow> holds_ledger cfg n out (sh', tk')"
  for tk tk' :: "('e, 'q, 'b) forward_task"
  by (simp add: holds_ledger_def task_ops_def task_permits_def second_permits_def)

lemma finish_with_ledger:
  fixes tk tk' :: "('e, 'q, 'b) forward_task"
  assumes "holds_ledger cfg n out (sh, tk)" and "n + 4 < 2 ^ 64"
    and "tk_primary tk' = tk_primary tk" and "tk_second tk' = tk_second tk"
  shows "holds_ledger cfg n out (finish_with r sh tk')"
  unfolding finish_with_def
  by (rule leave_task_ledger [OF holds_ledger_same [OF assms(1)] assms(2)]) (use assms in simp_all)

lemma retry_primary_error_ledger:
  assumes "holds_ledger cfg n out (sh, tk)" and "n + 4 < 2 ^ 64" and "tk_second tk = None"
  shows "holds_ledger cfg n out (retry_primary_error e budget sh tk)"
proof (cases rule: retry_primary_error_cases [of e budget sh tk])
  case (refused f)
  then show ?thesis using finish_with_ledger [OF assms(1,2), of "on_retry f tk"] by simp
next
  case (retried b f)
  then show ?thesis using holds_ledger_spawn [OF assms(1,3), where b = b] by simp
qed

lemma primary_returned_ledger:
  fixes tk :: "('e, 'q, 'b) forward_task"
  assumes held: "holds_ledger cfg n out (sh, tk)" and n: "n + 4 < 2 ^ 64"
    and none: "tk_phase tk = RetrySend \<Longrightarrow> tk_second tk = None"
  shows "holds_ledger cfg n out (primary_returned now r sh tk)"
proof -
  note fin = finish_with_ledger [OF held n]
  have leave: "holds_ledger cfg n out (leave_task ph sh tk)" for ph by (rule leave_task_ledger [OF held n])
  have same: "holds_ledger cfg n out (sh, tk')" if "tk_primary tk' = tk_primary tk" "tk_second tk' = tk_second tk"
    for tk' :: "('e, 'q, 'b) forward_task"
    by (rule holds_ledger_same [OF held refl that])
  have retry: "tk_phase tk = RetrySend \<Longrightarrow> holds_ledger cfg n out (retry_primary_error e True sh tk)" for e
    by (rule retry_primary_error_ledger [OF held n none])
  show ?thesis
    by (cases "tk_phase tk"; cases r) (simp_all add: primary_returned_def fin leave same retry)
qed

lemma second_returned_ledger:
  assumes held: "holds_ledger cfg n out (sh, tk)" and n: "n + 4 < 2 ^ 64"
  shows "holds_ledger cfg n out (second_returned now r sh tk)"
  using finish_with_ledger [OF held n] holds_ledger_same [OF held]
  by (cases "tk_phase tk"; cases r) (simp_all add: second_returned_def)

lemma decided_ledger:
  assumes held: "holds_ledger cfg n out (sh, tk)" and n: "n + 4 < 2 ^ 64" and none: "tk_second tk = None"
  shows "holds_ledger cfg n out (decided_task t sh tk)"
proof -
  have "holds_ledger cfg n out (sh, hedge_decided b budget tk)" for b budget
    using holds_ledger_spawn [OF held none, where b = b] holds_ledger_same [OF held]
    by (simp add: hedge_decided_def split: hedge_decision.splits)
  then show ?thesis
    using retry_primary_error_ledger [OF held n none] leave_task_ledger [OF held n] held
    by (cases t; cases "tk_phase tk") (simp_all add: decided_task_def)
qed

lemma task_step_ledger:
  assumes st: "task_step dbg ev sh tk = Some res" and ok: "phase_ok tk"
    and held: "holds_ledger cfg n out (sh, tk)" and n: "n + 4 < 2 ^ 64"
  shows "holds_ledger cfg n out res"
  using st
proof (cases rule: task_step_cases)
  case (marking now rb t)
  then show ?thesis using holds_ledger_same [OF held] by (cases t) (simp_all add: marked_task_def)
next
  case (asking rb t)
  have "holds_ledger cfg n out (sh\<lparr>sh_budget := rb\<rparr>, tk\<lparr>tk_retry := t\<rparr>)" by (rule holds_ledger_same [OF held]) simp_all
  moreover have "tk_second tk = None" using ok asking(1) by (cases "tk_phase tk") (simp_all add: phase_ok_def)
  ultimately show ?thesis unfolding asking(3) by (intro decided_ledger [OF _ n]) simp_all
next
  case (slept b)
  then show ?thesis using holds_ledger_same [OF held] by simp
next
  case (primary now reply cbs f)
  let ?rest = "task_ops (tk\<lparr>tk_primary := NotPolled []\<rparr>)"
  have "n + ?rest + 2 < 2 ^ 64"
    using n send_ops_le [of "the (tk_second tk)"] by (auto simp: task_ops_def split: option.splits)
  from poll_send_ledger [OF held [unfolded holds_ledger_primary] this primary(2)]
  have "holds_ledger cfg n out (sh\<lparr>sh_breakers := cbs\<rparr>, tk\<lparr>tk_primary := f\<rparr>)"
    by (simp add: holds_ledger_primary)
  moreover have "tk_phase tk = RetrySend \<Longrightarrow> tk_second tk = None" using ok by (simp add: phase_ok_def)
  ultimately show ?thesis
    unfolding primary(3) by (cases "send_output f") (auto simp: polled_primary_def intro!: primary_returned_ledger [OF _ n])
next
  case (second now reply f0 cbs f)
  have "n + send_ops (tk_primary tk) + 2 < 2 ^ 64" using n send_ops_le [of "tk_primary tk"] by simp
  from poll_send_ledger [OF held [unfolded holds_ledger_second [OF second(2)]] this second(3)]
  have "holds_ledger cfg n out (sh\<lparr>sh_breakers := cbs\<rparr>, tk\<lparr>tk_second := Some f\<rparr>)"
    by (simp add: holds_ledger_second)
  then show ?thesis
    unfolding second(4) by (cases "send_output f") (simp_all add: polled_second_def second_returned_ledger [OF _ n])
qed

text \<open>Only the accesses to the budget change it; everything that follows a verdict or a poll keeps it.\<close>

definition budget_view :: "forward_shared \<times> ('e, 'q, 'b) forward_task \<Rightarrow> retry_budget \<times> budget_thread \<times> budget_thread \<times> ('e, 'q) forward_ctx" where
  "budget_view = (\<lambda>(sh, tk). (sh_budget sh, tk_mark tk, tk_retry tk, tk_ctx tk))"

lemma budget_view_upd [simp]:
  "budget_view (sh, on_retry f tk) = budget_view (sh, tk)" "budget_view (sh, on_hedge g tk) = budget_view (sh, tk)"
  "budget_view (sh, hedge_won now tk) = budget_view (sh, tk)" "budget_view (sh, tk\<lparr>tk_phase := ph\<rparr>) = budget_view (sh, tk)"
  "budget_view (sh, tk\<lparr>tk_second := s\<rparr>) = budget_view (sh, tk)" "budget_view (sh, tk\<lparr>tk_primary := p\<rparr>) = budget_view (sh, tk)"
  "budget_view (sh\<lparr>sh_breakers := cbs\<rparr>, tk) = budget_view (sh, tk)"
  "budget_view (leave_task ph sh tk) = budget_view (sh, tk)" "budget_view (finish_with r sh tk) = budget_view (sh, tk)"
  by (simp_all add: budget_view_def leave_task_eq finish_with_def)

lemma budget_view_retry [simp]: "budget_view (retry_primary_error e budget sh tk) = budget_view (sh, tk)"
  by (cases rule: retry_primary_error_cases [of e budget sh tk]) simp_all

lemma budget_view_hedge [simp]: "budget_view (sh, hedge_decided b budget tk) = budget_view (sh, tk)"
  by (simp add: hedge_decided_def split: hedge_decision.splits)

lemma budget_view_primary [simp]: "budget_view (primary_returned now r sh tk) = budget_view (sh, tk)"
  by (cases "tk_phase tk"; cases r) (simp_all add: primary_returned_def)

lemma budget_view_second [simp]: "budget_view (second_returned now r sh tk) = budget_view (sh, tk)"
  by (cases "tk_phase tk"; cases r) (simp_all add: second_returned_def)

lemma budget_view_decided: "budget_view (decided_task t sh tk) = budget_view (sh, tk)"
  by (cases t; cases "tk_phase tk") (simp_all add: decided_task_def)

lemma task_step_budget:
  assumes "task_step dbg ev sh tk = Some (sh', tk')"
  shows "tk_ctx tk' = tk_ctx tk \<and>
     (sh_budget sh' = sh_budget sh \<and> tk_mark tk' = tk_mark tk \<and> tk_retry tk' = tk_retry tk \<or>
      budget_access dbg (tk_mark tk) (sh_budget sh) = Some (sh_budget sh', tk_mark tk') \<and> tk_retry tk' = tk_retry tk \<or>
      budget_access dbg (tk_retry tk) (sh_budget sh) = Some (sh_budget sh', tk_retry tk') \<and> tk_mark tk' = tk_mark tk)"
  using assms
proof (cases rule: task_step_cases)
  case (marking now rb t)
  then show ?thesis by (cases t) (simp_all add: marked_task_def)
next
  case (asking rb t)
  then have "budget_view (sh', tk') = budget_view (sh\<lparr>sh_budget := rb\<rparr>, tk\<lparr>tk_retry := t\<rparr>)"
    using budget_view_decided by metis
  then show ?thesis using asking(2) by (simp add: budget_view_def)
next
  case (primary now reply cbs f)
  then have "budget_view (sh', tk') = budget_view (sh, tk)"
    by (cases "send_output f") (simp_all add: polled_primary_def)
  then show ?thesis by (simp add: budget_view_def)
next
  case (second now reply f0 cbs f)
  then have "budget_view (sh', tk') = budget_view (sh, tk)"
    by (cases "send_output f") (simp_all add: polled_second_def)
  then show ?thesis by (simp add: budget_view_def)
qed simp

section \<open>All tasks together\<close>

definition system_permits :: "('e, 'q, 'b) forward_task list \<Rightarrow> circuit_breaker_permit list" where
  "system_permits tks = concat (map task_permits tks)"

definition system_ledger :: "bool \<times> u32 \<times> duration \<times> u32 \<Rightarrow> forward_shared \<times> ('e, 'q, 'b) forward_task list \<Rightarrow> bool" where
  "system_ledger cfg = (\<lambda>(sh, tks).
     ledger_ok cfg (sum_list (map task_ops tks)) (sh_breakers sh) (mset (system_permits tks)))"

lemma system_ledger_at:
  assumes "i < length tks"
  shows "system_ledger cfg (sh, tks[i := tk]) \<longleftrightarrow>
    holds_ledger cfg (sum_list (map task_ops (take i tks @ drop (Suc i) tks)))
      (mset (system_permits (take i tks @ drop (Suc i) tks))) (sh, tk)"
  using assms
  by (simp add: system_ledger_def holds_ledger_def system_permits_def upd_conv_take_nth_drop ac_simps)

lemma sum_ops_le: "sum_list (map task_ops tks) \<le> 4 * length tks"
proof (induction tks)
  case (Cons tk tks)
  then show ?case using task_ops_le [of tk] by simp
qed simp

lemma system_ledger_step:
  assumes "system_ledger cfg (sh, tks)" and "i < length tks" and "list_all phase_ok tks"
    and "task_step dbg ev sh (tks ! i) = Some (sh', tk')" and "length tks < 2 ^ 62"
  shows "system_ledger cfg (sh', tks[i := tk'])"
proof -
  let ?rest = "take i tks @ drop (Suc i) tks"
  have "4 * length ?rest + 4 = 4 * length tks" using assms(2) by simp
  then have n: "sum_list (map task_ops ?rest) + 4 < 2 ^ 64"
    using sum_ops_le [of ?rest] assms(5) by simp
  have "holds_ledger cfg (sum_list (map task_ops ?rest)) (mset (system_permits ?rest)) (sh, tks ! i)"
    using assms(1) system_ledger_at [OF assms(2), of cfg sh "tks ! i"] by simp
  moreover have "phase_ok (tks ! i)" using assms(2,3) by (simp add: list_all_length)
  ultimately show ?thesis
    using task_step_ledger [OF assms(4) _ _ n] system_ledger_at [OF assms(2)] by blast
qed

definition system_threads :: "('e, 'q, 'b) forward_task list \<Rightarrow> budget_thread list" where
  "system_threads tks = map tk_mark tks @ map tk_retry tks"

text \<open>The tasks' accesses are steps of the threads of the retry budget.\<close>

lemma system_budget_step:
  assumes "i < length tks" and "task_step dbg ev sh (tks ! i) = Some (sh', tk')"
  shows "(budget_step dbg)\<^sup>=\<^sup>= (sh_budget sh, system_threads tks) (sh_budget sh', system_threads (tks[i := tk']))"
proof -
  let ?ts = "system_threads tks" and ?j = "length tks + i"
  have at: "?ts ! i = tk_mark (tks ! i)" "?ts ! ?j = tk_retry (tks ! i)" "i < length ?ts" "?j < length ?ts"
    using assms(1) by (simp_all add: system_threads_def nth_append)
  have upd: "system_threads (tks[i := tk']) = ?ts[i := tk_mark tk', ?j := tk_retry tk']"
    using assms(1) by (simp add: system_threads_def list_update_append map_update)
  have same: "?ts[i := tk_mark tk'] = ?ts" if "tk_mark tk' = tk_mark (tks ! i)"
    using that at(1) by (metis list_update_id)
  have same2: "?ts[i := x, ?j := tk_retry tk'] = ?ts[i := x]" if "tk_retry tk' = tk_retry (tks ! i)" for x
  proof -
    have "i \<noteq> ?j" using assms(1) by auto
    then show ?thesis using that at by (simp add: list_update_same_conv)
  qed
  from task_step_budget [OF assms(2), THEN conjunct2] show ?thesis
  proof (elim disjE conjE)
    assume "budget_access dbg (tk_mark (tks ! i)) (sh_budget sh) = Some (sh_budget sh', tk_mark tk')"
      and r: "tk_retry tk' = tk_retry (tks ! i)"
    then have "budget_step dbg (sh_budget sh, ?ts) (sh_budget sh', ?ts[i := tk_mark tk'])"
      using budget_access [OF at(3)] at(1) by simp
    then show ?thesis unfolding upd same2 [OF r] by simp
  next
    assume "budget_access dbg (tk_retry (tks ! i)) (sh_budget sh) = Some (sh_budget sh', tk_retry tk')"
      and m: "tk_mark tk' = tk_mark (tks ! i)"
    then have "budget_step dbg (sh_budget sh, ?ts) (sh_budget sh', ?ts[?j := tk_retry tk'])"
      using budget_access [OF at(4)] at(2) by simp
    then show ?thesis unfolding upd same [OF m] by simp
  next
    assume "sh_budget sh' = sh_budget sh" and m: "tk_mark tk' = tk_mark (tks ! i)" and r: "tk_retry tk' = tk_retry (tks ! i)"
    moreover have "?ts[i := tk_mark tk', ?j := tk_retry tk'] = ?ts" by (rule trans [OF same2 [OF r] same [OF m]])
    ultimately show ?thesis unfolding upd by simp
  qed
qed

section \<open>The second request\<close>

fun send_target :: "'b send_future \<Rightarrow> string option" where
  "send_target (NotPolled b) = Some b"
| "send_target (Refused b) = Some b"
| "send_target (InFlight p) = Some (permit_backend p)"
| "send_target f = None"

lemma poll_send_target:
  "poll_send now reply f cbs = (cbs', f') \<Longrightarrow> send_target f' = Some b \<Longrightarrow> send_target f = Some b"
  by (cases f; cases reply; cases "the reply")
    (auto simp: allow_request_def permit_new_def split: prod.splits option.splits if_splits)

definition second_allowed :: "forwarding_policy \<Rightarrow> bool" where
  "second_allowed p \<longleftrightarrow> fp_bodyless_mode p \<and>
     (fp_method_idempotent p \<or> fp_hedge_configured p \<and> fp_hedge_method_allowed p \<and> \<not> fp_hedge_tunnel_request p)"

definition second_paid :: "('e, 'q, 'b) forward_task \<Rightarrow> bool" where
  "second_paid tk \<longleftrightarrow> tk_retry tk = RetryAllowed (fc_route_name (tk_ctx tk)) \<or>
     (\<exists>e. failed_with e (tk_primary tk) \<and> budget_exempt e)"

definition second_ok :: "('e, 'q, 'b) forward_task \<Rightarrow> bool" where
  "second_ok tk \<longleftrightarrow> (\<forall>f. tk_second tk = Some f \<longrightarrow>
     (\<exists>a. fc_alternate (tk_ctx tk) = Some (AlternateSelected a) \<and> send_target f \<in> {None, Some a}) \<and>
     second_allowed (fc_policy (tk_ctx tk)) \<and> second_paid tk)"

text \<open>The threads of a task keep their route and their kind.\<close>

fun mark_thread :: "string \<Rightarrow> budget_thread \<Rightarrow> bool" where
  "mark_thread r (MarkStart q) = (q = r)"
| "mark_thread r (MarkRoute q) = (q = r)"
| "mark_thread r (MarkDone q) = (q = r)"
| "mark_thread r t = False"

fun retry_thread :: "string \<Rightarrow> budget_thread \<Rightarrow> bool" where
  "retry_thread r (RetryStart q) = (q = r)"
| "retry_thread r (RetryReserve q l) = (q = r)"
| "retry_thread r (RetryRoute q) = (q = r)"
| "retry_thread r (RetryRefund q) = (q = r)"
| "retry_thread r (RetryAllowed q) = (q = r)"
| "retry_thread r (RetryDenied q) = (q = r)"
| "retry_thread r (RetryPanicked q) = (q = r)"
| "retry_thread r t = False"

definition threads_ok :: "('e, 'q, 'b) forward_task \<Rightarrow> bool" where
  "threads_ok tk \<longleftrightarrow> mark_thread (fc_route_name (tk_ctx tk)) (tk_mark tk) \<and>
     retry_thread (fc_route_name (tk_ctx tk)) (tk_retry tk)"

lemma access_kinds:
  assumes "budget_access dbg t rb = Some (rb', t')"
  shows "mark_thread r t' = mark_thread r t" and "retry_thread r t' = retry_thread r t"
  using assms by (cases t; auto simp: retry_start_def retry_reserve_def retry_route_def retry_refund_def
      split: if_splits option.splits prod.splits)+

lemma task_step_threads_ok:
  assumes "task_step dbg ev sh tk = Some (sh', tk')" and "threads_ok tk"
  shows "threads_ok tk'"
  using task_step_budget [OF assms(1)] assms(2) by (auto simp: threads_ok_def access_kinds)

lemma second_ok_none: "tk_second tk = None \<Longrightarrow> second_ok tk"
  by (simp add: second_ok_def)

lemma send_target_discard: "send_target (discard f) \<in> {None, send_target f}"
  by (cases f) simp_all

lemma failed_with_discard [simp]: "failed_with e (discard f) \<longleftrightarrow> failed_with e f"
  by (cases f) simp_all

text \<open>The second request stays allowed as long as its future only makes progress.\<close>

lemma second_ok_mono:
  assumes "second_ok tk" and "tk_ctx tk' = tk_ctx tk" and "tk_retry tk' = tk_retry tk"
    and "\<And>e. failed_with e (tk_primary tk) \<Longrightarrow> failed_with e (tk_primary tk')"
    and "\<And>f'. tk_second tk' = Some f' \<Longrightarrow> \<exists>f. tk_second tk = Some f \<and> send_target f' \<in> {None, send_target f}"
  shows "second_ok tk'"
  using assms by (fastforce simp: second_ok_def second_paid_def)

lemma second_ok_leave: "second_ok tk \<Longrightarrow> second_ok (snd (leave_task ph sh tk))"
  by (rule second_ok_mono) (auto simp: send_target_discard [simplified])

lemma second_ok_finish:
  "second_ok tk \<Longrightarrow> second_ok (snd (finish_with r sh (on_retry f tk)))"
  "second_ok tk \<Longrightarrow> second_ok (snd (finish_with r sh (on_hedge g tk)))"
  "second_ok tk \<Longrightarrow> second_ok (snd (finish_with r sh (hedge_won now tk)))"
  "second_ok tk \<Longrightarrow> second_ok (snd (finish_with r sh tk))"
  unfolding finish_with_def
  by (rule second_ok_leave, erule second_ok_mono; simp)+

lemma retry_primary_error_second:
  assumes "tk_second tk = None" and "failed_with e (tk_primary tk)"
    and "budget \<Longrightarrow> budget_exempt e \<or> tk_retry tk = RetryAllowed (fc_route_name (tk_ctx tk))"
  shows "second_ok (snd (retry_primary_error e budget sh tk))"
proof (cases rule: retry_primary_error_cases [of e budget sh tk])
  case (refused f)
  then show ?thesis using second_ok_finish(1) [OF second_ok_none [OF assms(1)]] by simp
next
  case (retried b f)
  then show ?thesis using assms by (auto simp: second_ok_def second_allowed_def second_paid_def)
qed

lemma hedge_decided_second:
  assumes "tk_second tk = None" and "fc_alternate (tk_ctx tk) = Some (AlternateSelected b)"
    and "budget \<Longrightarrow> tk_retry tk = RetryAllowed (fc_route_name (tk_ctx tk))"
  shows "second_ok (hedge_decided b budget tk)"
proof (cases "hedge_after_delay (fc_policy (tk_ctx tk)) budget")
  case (Hedge reason)
  then have "second_allowed (fc_policy (tk_ctx tk)) \<and> budget"
    using hedge_policy_proceeds(2) by (fastforce simp: hedge_after_delay_def second_allowed_def)
  then show ?thesis using assms Hedge by (auto simp: hedge_decided_def second_ok_def second_paid_def)
qed (use assms(1) in \<open>auto simp: hedge_decided_def second_ok_none\<close>)

lemma decided_second:
  assumes ok: "phase_ok tk" and "asks_budget (tk_phase tk)" and "threads_ok tk"
    and "budget_access dbg (tk_retry tk) rb = Some (rb', t)"
  shows "second_ok (snd (decided_task t sh (tk\<lparr>tk_retry := t\<rparr>)))"
proof -
  let ?tk = "tk\<lparr>tk_retry := t\<rparr>"
  have none: "tk_second ?tk = None" using ok assms(2) by (cases "tk_phase tk") (simp_all add: phase_ok_def)
  have route: "retry_thread (fc_route_name (tk_ctx tk)) t"
    using access_kinds(2) [OF assms(4)] assms(3) by (simp add: threads_ok_def)
  have hedge: "second_ok (hedge_decided b budget ?tk)"
    if "tk_phase tk = HedgeBudget b" "budget \<Longrightarrow> \<exists>r. t = RetryAllowed r" for b budget
    by (rule hedge_decided_second) (use that ok none route in \<open>auto simp: phase_ok_def\<close>)
  have retry: "second_ok (snd (retry_primary_error e budget sh ?tk))"
    if "tk_phase tk = RetryBudgeting e" "budget \<Longrightarrow> \<exists>r. t = RetryAllowed r" for e budget
    by (rule retry_primary_error_second) (use that ok none route in \<open>auto simp: phase_ok_def\<close>)
  show ?thesis
    using assms(2) hedge [of _ True] hedge [of _ False] retry [of _ True] retry [of _ False] second_ok_none [OF none]
      second_ok_leave [OF second_ok_none [OF none]]
    by (cases t; cases "tk_phase tk") (simp_all add: decided_task_def)
qed

lemma primary_returned_second:
  assumes sec: "second_ok tk" and "send_output (tk_primary tk) = Some r"
    and none: "tk_phase tk = RetrySend \<Longrightarrow> tk_second tk = None"
  shows "second_ok (snd (primary_returned now r sh tk))"
proof -
  have retry: "second_ok (snd (retry_primary_error e True sh tk))"
    if "tk_phase tk = RetrySend" "budget_exempt e" "r = Inl e" for e
    by (rule retry_primary_error_second) (use that assms in \<open>auto simp: send_output_cases\<close>)
  have other: "second_ok tk'" if "tk_ctx tk' = tk_ctx tk" "tk_retry tk' = tk_retry tk" "tk_primary tk' = tk_primary tk"
    "tk_second tk' = tk_second tk" for tk'
    by (rule second_ok_mono [OF sec]) (use that in auto)
  show ?thesis
    using second_ok_finish [OF sec] second_ok_leave [OF sec] retry
    by (cases "tk_phase tk"; cases r) (simp_all add: primary_returned_def other)
qed

lemma second_returned_second:
  assumes sec: "second_ok tk"
  shows "second_ok (snd (second_returned now r sh tk))"
proof -
  have other: "second_ok tk'" if "tk_ctx tk' = tk_ctx tk" "tk_retry tk' = tk_retry tk" "tk_primary tk' = tk_primary tk"
    "tk_second tk' = tk_second tk" for tk'
    by (rule second_ok_mono [OF sec]) (use that in auto)
  show ?thesis
    using second_ok_finish [OF sec] by (cases "tk_phase tk"; cases r) (simp_all add: second_returned_def other)
qed

lemma task_step_second_ok:
  assumes st: "task_step dbg ev sh tk = Some res" and ok: "phase_ok tk" "threads_ok tk" and sec: "second_ok tk"
  shows "second_ok (snd res)"
  using st
proof (cases rule: task_step_cases)
  case (marking now rb t)
  then show ?thesis
    using ok(1) by (cases t) (simp_all add: marked_task_def phase_ok_def second_ok_none)
next
  case (asking rb t)
  then show ?thesis using decided_second [OF ok(1) _ ok(2)] by simp
next
  case (slept b)
  then show ?thesis using ok(1) by (simp add: phase_ok_def second_ok_none)
next
  case (primary now reply cbs f)
  have "pending (tk_primary tk)" using ok(1) primary(1) by (cases "tk_phase tk") (simp_all add: phase_ok_def polls_primary_def)
  then have "\<not> failed_with e (tk_primary tk)" for e by (cases "tk_primary tk") simp_all
  then have "second_ok (tk\<lparr>tk_primary := f\<rparr>)" by (intro second_ok_mono [OF sec]) auto
  moreover have "tk_phase tk = RetrySend \<Longrightarrow> tk_second tk = None" using ok(1) by (simp add: phase_ok_def)
  ultimately show ?thesis
    unfolding primary(3) by (cases "send_output f") (auto simp: polled_primary_def intro!: primary_returned_second)
next
  case (second now reply f0 cbs f)
  have "send_target f \<in> {None, send_target f0}" using poll_send_target [OF second(3)] by (cases "send_target f") auto
  then have "second_ok (tk\<lparr>tk_second := Some f\<rparr>)" by (intro second_ok_mono [OF sec]) (use second(2) in auto)
  then show ?thesis
    unfolding second(4) by (cases "send_output f") (simp_all add: polled_second_def second_returned_second)
qed

end
