(* ===== verification/Forward_System.thy ===== *)
theory Forward_System
  imports Forward_Safety
begin

text \<open>
  The properties of any number of upstream tasks running interleaved from fresh circuit breakers and
  a fresh retry budget.
\<close>

section \<open>The invariant of the system\<close>

definition shared_new :: "bool \<Rightarrow> u32 \<Rightarrow> duration \<Rightarrow> u32 \<Rightarrow> bool \<Rightarrow> u8 \<Rightarrow> (string \<rightharpoonup> u8) \<Rightarrow> forward_shared" where
  "shared_new en threshold open_time probes budget ratio per_route =
     \<lparr>sh_breakers = circuit_breakers_new en threshold open_time probes,
      sh_budget = retry_budget_new budget ratio per_route\<rparr>"

definition task_ok :: "('e, 'q, 'b) forward_task \<Rightarrow> bool" where
  "task_ok tk \<longleftrightarrow> phase_ok tk \<and> threads_ok tk \<and> second_ok tk"

definition system_inv :: "forward_shared \<Rightarrow> ('e, 'q) forward_ctx list \<Rightarrow> forward_shared \<times> ('e, 'q, 'b) forward_task list \<Rightarrow> bool" where
  "system_inv sh0 cs = (\<lambda>(sh, tks). map tk_ctx tks = cs \<and> list_all task_ok tks \<and>
     system_ledger (breaker_config (sh_breakers sh0)) (sh, tks) \<and>
     budget_ok (sh_budget sh, system_threads tks) \<and> same_ratios (sh_budget sh0) (sh_budget sh))"

lemma task_step_ok:
  assumes "task_step dbg ev sh tk = Some (sh', tk')" and "task_ok tk"
  shows "task_ok tk'"
  using task_step_phase_ok [OF assms(1)] task_step_threads_ok [OF assms(1)] task_step_second_ok [OF assms(1)] assms(2)
  by (simp add: task_ok_def)

lemma task_new_fields [simp]:
  "task_ops (task_new c) = 0" "task_permits (task_new c) = []" "tk_ctx (task_new c) = c"
  "tk_mark (task_new c) = MarkStart (fc_route_name c)" "tk_retry (task_new c) = RetryStart (fc_route_name c)"
  by (simp_all add: task_new_def task_ops_def task_permits_def second_permits_def)

lemma system_permits_new [simp]: "system_permits (map task_new cs) = []"
  by (induction cs) (simp_all add: system_permits_def)

lemma task_new_ok: "task_ok (task_new c)"
  by (simp add: task_ok_def threads_ok_def second_ok_def) (simp add: task_new_def)

lemma system_new_inv:
  assumes "sh = shared_new en threshold open_time probes budget ratio per_route"
  shows "system_inv sh cs (sh, map task_new cs)"
proof -
  let ?ts = "map (\<lambda>c. MarkStart (fc_route_name c)) cs @ map (\<lambda>c. RetryStart (fc_route_name c)) cs"
  have ts: "system_threads (map task_new cs) = ?ts" by (simp add: system_threads_def comp_def)
  have none: "filter P ?ts = []" if "\<And>r. \<not> P (MarkStart r)" "\<And>r. \<not> P (RetryStart r)" for P
    using that by (simp add: filter_empty_conv)
  have "primaries_marked ?ts = 0" "retries_reserved ?ts = 0" "route_primaries r ?ts = 0" "route_retries_allowed r ?ts = 0" for r
    unfolding count_defs by (subst none; simp)+
  moreover have "list_all (budget_thread_ok rb n) ?ts" for rb n by (auto simp: list_all_iff budget_thread_ok_def)
  ultimately have "budget_ok (sh_budget sh, ?ts)"
    by (simp add: assms shared_new_def budget_ok_def retry_budget_new_def route_ok_def route_entry_def)
  then show ?thesis
    using breakers_new_ok
    by (simp add: system_inv_def system_ledger_def ledger_ok_def assms shared_new_def ts
        list_all_iff task_new_ok same_ratios_def comp_def)
qed

lemma system_step_inv:
  assumes "forward_step dbg s s'" and "system_inv sh0 cs s" and "length cs < 2 ^ 55"
  shows "system_inv sh0 cs s'"
proof -
  obtain sh tks sh' i ev tk' where s: "s = (sh, tks)" "s' = (sh', tks[i := tk'])" and i: "i < length tks"
    and st: "task_step dbg ev sh (tks ! i) = Some (sh', tk')"
    using assms(1) by (elim forward_stepE)
  have inv: "map tk_ctx tks = cs" "list_all task_ok tks" "system_ledger (breaker_config (sh_breakers sh0)) (sh, tks)"
    "budget_ok (sh_budget sh, system_threads tks)" "same_ratios (sh_budget sh0) (sh_budget sh)"
    using assms(2) s by (simp_all add: system_inv_def)
  have len: "length tks < 2 ^ 55" using inv(1) assms(3) by auto
  have small: "length (system_threads tks) < 2 ^ 56" using len by (simp add: system_threads_def)
  have phases: "list_all phase_ok tks" using inv(2) by (simp add: list_all_iff task_ok_def)
  have "budget_ok (sh_budget sh', system_threads (tks[i := tk'])) \<and> same_ratios (sh_budget sh) (sh_budget sh')"
    using system_budget_step [OF i st]
  proof
    assume "budget_step dbg (sh_budget sh, system_threads tks) (sh_budget sh', system_threads (tks[i := tk']))"
    from budget_step_ok [OF this] show ?thesis using inv(4) small by simp
  qed (use inv(4) in \<open>simp add: same_ratios_def\<close>)
  moreover have "task_ok tk'" by (rule task_step_ok [OF st]) (use i inv(2) in \<open>simp add: list_all_length\<close>)
  then have "list_all task_ok (tks[i := tk'])"
    using inv(2) by (auto simp: list_all_iff dest!: set_update_subset_insert [THEN subsetD])
  moreover have "tk_ctx tk' = tk_ctx (tks ! i)" using task_step_budget [OF st] by simp
  then have "map tk_ctx (tks[i := tk']) = cs" using inv(1) i by (auto simp: map_update list_update_same_conv)
  moreover have "system_ledger (breaker_config (sh_breakers sh0)) (sh', tks[i := tk'])"
    by (rule system_ledger_step [OF inv(3) i phases st]) (use len in simp)
  ultimately show ?thesis using s(2) inv(5) by (auto simp: system_inv_def same_ratios_def)
qed

lemma system_run_inv:
  assumes "(forward_step dbg)\<^sup>*\<^sup>* (sh0, map task_new cs) s" and "length cs < 2 ^ 55"
    and "sh0 = shared_new en threshold open_time probes budget ratio per_route"
  shows "system_inv sh0 cs s"
  using assms(1)
proof (induction rule: rtranclp_induct)
  case base
  then show ?case by (rule system_new_inv [OF assms(3)])
next
  case (step s s')
  then show ?case using system_step_inv assms(2) by blast
qed

section \<open>Every task ends\<close>

fun send_rank :: "'b send_future \<Rightarrow> nat" where
  "send_rank (NotPolled b) = 2"
| "send_rank (InFlight p) = 1"
| "send_rank f = 0"

fun thread_rank :: "budget_thread \<Rightarrow> nat" where
  "thread_rank (MarkStart r) = 2"
| "thread_rank (MarkRoute r) = 1"
| "thread_rank (RetryStart r) = 4"
| "thread_rank (RetryReserve r l) = 3"
| "thread_rank (RetryRoute r) = 2"
| "thread_rank (RetryRefund r) = 1"
| "thread_rank t = 0"

fun phase_rank :: "'b forward_phase \<Rightarrow> nat" where
  "phase_rank Marking = 6"
| "phase_rank (HedgeWait b) = 5"
| "phase_rank (HedgeBudget b) = 4"
| "phase_rank HedgeRace = 3"
| "phase_rank RetrySend = 3"
| "phase_rank (RetryBudgeting e) = 2"
| "phase_rank (Finished r) = 0"
| "phase_rank TaskPanicked = 0"
| "phase_rank ph = 1"

definition task_rank :: "('e, 'q, 'b) forward_task \<Rightarrow> nat" where
  "task_rank tk = 3 * phase_rank (tk_phase tk) + send_rank (tk_primary tk) +
     (case tk_second tk of None \<Rightarrow> 0 | Some f \<Rightarrow> send_rank f) + thread_rank (tk_mark tk) + thread_rank (tk_retry tk)"

lemma access_rank: "budget_access dbg t rb = Some (rb', t') \<Longrightarrow> thread_rank t' < thread_rank t"
  by (cases t) (auto simp: retry_start_def retry_reserve_def retry_route_def retry_refund_def
      split: if_splits option.splits prod.splits)

lemma poll_send_rank:
  assumes "poll_send now reply f cbs = (cbs', f')"
  shows "send_rank f' \<le> send_rank f" and "send_rank f' < send_rank f \<or> cbs' = cbs \<and> f' = f"
  using assms by (cases f; cases reply; cases "the reply"; auto split: prod.splits option.splits)+

lemma discard_rank: "send_rank (discard f) \<le> send_rank f"
  by (cases f) simp_all

lemma leave_rank:
  "phase_rank ph = 0 \<Longrightarrow> task_rank (snd (leave_task ph sh tk)) + 3 * phase_rank (tk_phase tk) \<le> task_rank tk"
  using discard_rank [of "tk_primary tk"] discard_rank [of "the (tk_second tk)"]
  by (auto simp: task_rank_def split: option.splits)

lemma finish_rank:
  assumes "tk_primary tk' = tk_primary tk" "tk_second tk' = tk_second tk" "tk_phase tk' = tk_phase tk"
    "tk_mark tk' = tk_mark tk" "tk_retry tk' = tk_retry tk" and "0 < phase_rank (tk_phase tk)"
  shows "task_rank (snd (finish_with r sh tk')) < task_rank tk"
proof -
  have "task_rank tk' = task_rank tk" using assms by (simp add: task_rank_def)
  moreover have "task_rank (snd (finish_with r sh tk')) + 3 * phase_rank (tk_phase tk) \<le> task_rank tk'"
    using leave_rank [of "Finished (map_sum id ForwardResponse r)" sh tk'] assms(3) by (simp add: finish_with_def)
  ultimately show ?thesis using assms(6) by simp
qed

lemma retry_primary_error_rank:
  assumes "1 < phase_rank (tk_phase tk)" and "tk_second tk = None"
  shows "task_rank (snd (retry_primary_error e budget sh tk)) < task_rank tk"
proof (cases rule: retry_primary_error_cases [of e budget sh tk])
  case (refused f)
  then show ?thesis using finish_rank [of "on_retry f tk" tk "Inl e" sh] assms(1) by simp
next
  case (retried b f)
  then show ?thesis using assms by (simp add: task_rank_def)
qed

lemma primary_returned_rank:
  assumes "polls_primary (tk_phase tk)" and "tk_phase tk = RetrySend \<Longrightarrow> tk_second tk = None"
  shows "task_rank (snd (primary_returned now r sh tk)) < task_rank tk"
proof -
  have pos: "0 < phase_rank (tk_phase tk)" using assms(1) by (cases "tk_phase tk") (simp_all add: polls_primary_def)
  have fin: "task_rank (snd (finish_with q sh tk)) < task_rank tk" "task_rank (snd (finish_with q sh (on_hedge f tk))) < task_rank tk"
    for q f by (rule finish_rank; use pos in simp)+
  have leave: "task_rank (snd (leave_task (Finished q) sh tk)) < task_rank tk" for q
    using leave_rank [of "Finished q" sh tk] pos by simp
  have retry: "task_rank (snd (retry_primary_error e True sh tk)) < task_rank tk" if "tk_phase tk = RetrySend" for e
    by (rule retry_primary_error_rank) (use that assms(2) in simp_all)
  have move: "task_rank (tk\<lparr>tk_phase := RetryBudgeting e\<rparr>) < task_rank tk" if "tk_phase tk = RetrySend" for e
    using that by (simp add: task_rank_def)
  have await: "task_rank ((hedge_won now tk)\<lparr>tk_phase := HedgeAwait\<rparr>) < task_rank tk" if "tk_phase tk = HedgeRace"
    using that by (simp add: task_rank_def)
  show ?thesis
    by (cases "tk_phase tk"; cases r) (simp_all add: primary_returned_def fin leave retry move await)
qed

lemma second_returned_rank:
  assumes "polls_second (tk_phase tk)"
  shows "task_rank (snd (second_returned now r sh tk)) < task_rank tk"
proof -
  have pos: "0 < phase_rank (tk_phase tk)" using assms(1) by (cases "tk_phase tk") (simp_all add: polls_second_def)
  have fin: "task_rank (snd (finish_with q sh tk)) < task_rank tk" "task_rank (snd (finish_with q sh (hedge_won now tk))) < task_rank tk"
    for q by (rule finish_rank; use pos in simp)+
  have await: "task_rank ((on_hedge f tk)\<lparr>tk_phase := PrimaryAwait\<rparr>) < task_rank tk" if "tk_phase tk = HedgeRace" for f
    using that by (simp add: task_rank_def)
  show ?thesis
    by (cases "tk_phase tk"; cases r) (simp_all add: second_returned_def fin await)
qed

lemma decided_rank:
  assumes "asks_budget (tk_phase tk)" and "tk_second tk = None"
  shows "task_rank (snd (decided_task t sh tk)) \<le> task_rank tk"
proof -
  have pos: "1 < phase_rank (tk_phase tk)" using assms(1) by (cases "tk_phase tk") simp_all
  have hedge: "task_rank (hedge_decided b budget tk) \<le> task_rank tk" if "tk_phase tk = HedgeBudget b" for b budget
    using that assms(2) by (simp add: hedge_decided_def task_rank_def split: hedge_decision.splits)
  have leave: "task_rank (snd (leave_task TaskPanicked sh tk)) \<le> task_rank tk"
    using leave_rank [of TaskPanicked sh tk] by simp
  show ?thesis
    using retry_primary_error_rank [OF pos assms(2)]
    by (cases t; cases "tk_phase tk") (simp_all add: decided_task_def hedge leave less_imp_le)
qed

lemma forward_start_rank: "forward_start c = ph \<Longrightarrow> phase_rank ph \<le> 5"
  using forward_start_cases [of c ph] by (cases ph) auto

text \<open>A step either leaves everything as it is, when a poll finds no reply, or lowers the rank of its task.\<close>

lemma task_step_rank:
  assumes "task_step dbg ev sh tk = Some res" and ok: "phase_ok tk"
  shows "res = (sh, tk) \<or> task_rank (snd res) < task_rank tk"
  using assms(1)
proof (cases rule: task_step_cases)
  case (marking now rb t)
  have "3 * phase_rank (forward_start (tk_ctx tk) :: 'c forward_phase) < 18"
    using forward_start_rank [OF refl] by (rule order.strict_trans1 [OF mult_le_mono2]) simp
  then show ?thesis
    using marking access_rank [OF marking(2)] by (cases t) (simp_all add: marked_task_def task_rank_def)
next
  case (asking rb t)
  have none: "tk_second tk = None" using ok asking(1) by (cases "tk_phase tk") (simp_all add: phase_ok_def)
  have "task_rank (tk\<lparr>tk_retry := t\<rparr>) < task_rank tk" using access_rank [OF asking(2)] by (simp add: task_rank_def)
  moreover have "task_rank (snd res) \<le> task_rank (tk\<lparr>tk_retry := t\<rparr>)"
    unfolding asking(3) by (rule decided_rank) (use asking(1) none in simp_all)
  ultimately show ?thesis by simp
next
  case (slept b)
  then show ?thesis by (simp add: task_rank_def)
next
  case (primary now reply cbs f)
  let ?tk = "tk\<lparr>tk_primary := f\<rparr>"
  have le: "task_rank ?tk \<le> task_rank tk" using poll_send_rank(1) [OF primary(2)] by (simp add: task_rank_def)
  show ?thesis
  proof (cases "send_output f")
    case None
    then show ?thesis using poll_send_rank(2) [OF primary(2)] primary(3) by (auto simp: polled_primary_def task_rank_def)
  next
    case (Some r)
    have "task_rank (snd (primary_returned now r (sh\<lparr>sh_breakers := cbs\<rparr>) ?tk)) < task_rank ?tk"
      by (rule primary_returned_rank) (use primary(1) ok in \<open>simp_all add: phase_ok_def\<close>)
    then show ?thesis using Some le primary(3) by (simp add: polled_primary_def)
  qed
next
  case (second now reply f0 cbs f)
  let ?tk = "tk\<lparr>tk_second := Some f\<rparr>"
  have le: "task_rank ?tk \<le> task_rank tk" using poll_send_rank(1) [OF second(3)] second(2) by (simp add: task_rank_def)
  show ?thesis
  proof (cases "send_output f")
    case None
    have "f = f0 \<and> cbs = sh_breakers sh \<Longrightarrow> res = (sh, tk)"
      using None second(2,4) by (simp add: polled_second_def)
    then show ?thesis
      using None poll_send_rank(2) [OF second(3)] second(2,4) by (auto simp: polled_second_def task_rank_def)
  next
    case (Some r)
    have "task_rank (snd (second_returned now r (sh\<lparr>sh_breakers := cbs\<rparr>) ?tk)) < task_rank ?tk"
      by (rule second_returned_rank) (use second(1) in simp)
    then show ?thesis using Some le second(4) by (simp add: polled_second_def)
  qed
qed

lemma poll_send_progress:
  "poll_send now (Some r) f cbs = (cbs', f') \<Longrightarrow> pending f \<Longrightarrow> send_rank f' < send_rank f"
  by (cases f; cases r) (auto split: prod.splits option.splits)

lemma poll_primary_progress:
  assumes "polls_primary (tk_phase tk)" and "pending (tk_primary tk)" and ok: "phase_ok tk"
  shows "\<exists>s'. task_step dbg (PollPrimary now (Some r)) sh tk = Some s' \<and> task_rank (snd s') < task_rank tk"
proof -
  obtain cbs f where poll: "poll_send now (Some r) (tk_primary tk) (sh_breakers sh) = (cbs, f)" by fastforce
  let ?tk = "tk\<lparr>tk_primary := f\<rparr>" and ?sh = "sh\<lparr>sh_breakers := cbs\<rparr>"
  have less: "task_rank ?tk < task_rank tk" using poll_send_progress [OF poll assms(2)] by (simp add: task_rank_def)
  have st: "task_step dbg (PollPrimary now (Some r)) sh tk = Some (polled_primary now ?sh ?tk)"
    using assms(1) poll by (simp add: polled_primary_def split: option.splits)
  have "task_rank (snd (primary_returned now q ?sh ?tk)) < task_rank ?tk" for q
    by (rule primary_returned_rank) (use assms(1) ok in \<open>simp_all add: phase_ok_def\<close>)
  then have "task_rank (snd (polled_primary now ?sh ?tk)) \<le> task_rank ?tk"
    by (simp add: polled_primary_def less_imp_le split: option.splits)
  then show ?thesis using st less by simp
qed

lemma poll_second_progress:
  assumes "polls_second (tk_phase tk)" and "tk_second tk = Some f0" and "pending f0"
  shows "\<exists>s'. task_step dbg (PollSecond now (Some r)) sh tk = Some s' \<and> task_rank (snd s') < task_rank tk"
proof -
  obtain cbs f where poll: "poll_send now (Some r) f0 (sh_breakers sh) = (cbs, f)" by fastforce
  let ?tk = "tk\<lparr>tk_second := Some f\<rparr>" and ?sh = "sh\<lparr>sh_breakers := cbs\<rparr>"
  have less: "task_rank ?tk < task_rank tk" using poll_send_progress [OF poll assms(3)] assms(2) by (simp add: task_rank_def)
  have st: "task_step dbg (PollSecond now (Some r)) sh tk = Some (polled_second now f ?sh ?tk)"
    using assms(1,2) poll by (simp add: polled_second_def split: option.splits)
  have "task_rank (snd (second_returned now q ?sh ?tk)) < task_rank ?tk" for q
    by (rule second_returned_rank) (use assms(1) in simp)
  then have "task_rank (snd (polled_second now f ?sh ?tk)) \<le> task_rank ?tk"
    by (simp add: polled_second_def less_imp_le split: option.splits)
  then show ?thesis using st less by simp
qed

lemma budget_progress:
  assumes ok: "phase_ok tk" and "tk_phase tk = Marking \<or> asks_budget (tk_phase tk)"
  shows "\<exists>s'. task_step dbg (BudgetAccess now) sh tk = Some s' \<and> task_rank (snd s') < task_rank tk"
proof -
  have "\<exists>s'. task_step dbg (BudgetAccess now) sh tk = Some s' \<and> s' \<noteq> (sh, tk)"
    using assms(2)
  proof
    assume m: "tk_phase tk = Marking"
    then obtain rb t where t: "budget_access dbg (tk_mark tk) (sh_budget sh) = Some (rb, t)"
      using ok by (auto simp: phase_ok_def)
    then have "task_step dbg (BudgetAccess now) sh tk = Some (sh\<lparr>sh_budget := rb\<rparr>, marked_task now t tk)"
      using m by (simp add: mark_step_def marked_task_def)
    moreover have "tk_mark (marked_task now t tk) = t" by (cases t) (simp_all add: marked_task_def)
    ultimately show ?thesis using access_rank [OF t] by auto
  next
    assume a: "asks_budget (tk_phase tk)"
    then have "deciding (tk_retry tk)" using ok by (cases "tk_phase tk") (simp_all add: phase_ok_def)
    then have "budget_access dbg (tk_retry tk) (sh_budget sh) \<noteq> None" by (cases "tk_retry tk") auto
    then obtain rb t where t: "budget_access dbg (tk_retry tk) (sh_budget sh) = Some (rb, t)" by auto
    let ?s = "decided_task t (sh\<lparr>sh_budget := rb\<rparr>) (tk\<lparr>tk_retry := t\<rparr>)"
    have "task_step dbg (BudgetAccess now) sh tk = Some ?s"
      using a t by (cases "tk_phase tk"; cases t) (simp_all add: allow_step_def decided_task_def)
    moreover have "tk_retry (snd ?s) = t"
      using budget_view_decided [of t "sh\<lparr>sh_budget := rb\<rparr>" "tk\<lparr>tk_retry := t\<rparr>"] by (simp add: budget_view_def split: prod.splits)
    ultimately show ?thesis using access_rank [OF t] by (metis less_irrefl snd_conv)
  qed
  then show ?thesis using task_step_rank [OF _ ok] by blast
qed

definition effective_step :: "bool \<Rightarrow> forward_shared \<times> ('e, 'q, 'b) forward_task list \<Rightarrow>
    forward_shared \<times> ('e, 'q, 'b) forward_task list \<Rightarrow> bool" where
  "effective_step dbg s s' \<longleftrightarrow> forward_step dbg s s' \<and> s' \<noteq> s"

lemma effective_step_rank:
  assumes "effective_step dbg (sh, tks) (sh', tks')" and "list_all task_ok tks"
  shows "sum_list (map task_rank tks') < sum_list (map task_rank tks)"
proof -
  obtain i ev tk' where s: "tks' = tks[i := tk']" and i: "i < length tks"
    and st: "task_step dbg ev sh (tks ! i) = Some (sh', tk')" and ne: "(sh', tks') \<noteq> (sh, tks)"
    using assms(1) unfolding effective_step_def by (auto elim: forward_stepE)
  have "phase_ok (tks ! i)" using assms(2) i by (simp add: list_all_length task_ok_def)
  from task_step_rank [OF st this] have "task_rank tk' < task_rank (tks ! i)" using ne s by auto
  moreover have "sum_list (map task_rank tks) = task_rank (tks ! i) + sum_list (map task_rank (take i tks @ drop (Suc i) tks))"
    using i by (subst id_take_nth_drop [OF i]) simp
  ultimately show ?thesis using s i by (simp add: upd_conv_take_nth_drop)
qed

lemma task_new_rank [simp]: "task_rank (task_new c) = 26"
  by (simp add: task_rank_def task_new_def)

lemma effective_run:
  assumes "(effective_step dbg ^^ n) (sh0, map task_new cs) (sh, tks)" and "length cs < 2 ^ 55"
    and "sh0 = shared_new en threshold open_time probes budget ratio per_route"
  shows "(forward_step dbg)\<^sup>*\<^sup>* (sh0, map task_new cs) (sh, tks) \<and>
    n + sum_list (map task_rank tks) \<le> 26 * length cs"
  using assms(1)
proof (induction n arbitrary: sh tks)
  case (Suc n)
  obtain sh1 tks1 where run: "(effective_step dbg ^^ n) (sh0, map task_new cs) (sh1, tks1)"
    and st: "effective_step dbg (sh1, tks1) (sh, tks)" using Suc.prems by auto
  note IH = Suc.IH [OF run]
  have "list_all task_ok tks1" using system_run_inv [OF _ assms(2,3)] IH by (fastforce simp: system_inv_def)
  from effective_step_rank [OF st this] show ?case
    using IH st by (auto simp: effective_step_def)
qed (auto simp: comp_def sum_list_triv)

lemma unfinished_progress:
  assumes ok: "phase_ok tk" and "\<And>r. tk_phase tk \<noteq> Finished r" and "tk_phase tk \<noteq> TaskPanicked"
  shows "\<exists>ev \<in> {BudgetAccess now, PollPrimary now (Some reply), PollSecond now (Some reply)}.
    \<exists>s'. task_step dbg ev sh tk = Some s' \<and> s' \<noteq> (sh, tk)"
proof -
  consider "tk_phase tk = Marking \<or> asks_budget (tk_phase tk)"
    | "polls_primary (tk_phase tk)" "pending (tk_primary tk)"
    | f where "polls_second (tk_phase tk)" "tk_second tk = Some f" "pending f"
    using assms by (cases "tk_phase tk") (auto simp: phase_ok_def polls_primary_def polls_second_def)
  then show ?thesis
    using budget_progress [OF ok, of dbg now sh] poll_primary_progress [OF _ _ ok, of dbg now reply sh]
      poll_second_progress [of tk _ dbg now reply sh]
    by cases (fastforce dest: less_not_refl3)+
qed

lemma not_panicked:
  assumes "system_inv sh0 cs (sh, tks)" and "tk \<in> set tks"
  shows "tk_phase tk \<noteq> TaskPanicked"
proof
  assume "tk_phase tk = TaskPanicked"
  moreover have "phase_ok tk" using assms by (simp add: system_inv_def list_all_iff task_ok_def)
  ultimately obtain r where "tk_retry tk = RetryPanicked r" by (auto simp: phase_ok_def)
  then have "RetryPanicked r \<in> set (system_threads tks)" using assms(2) by (force simp: system_threads_def)
  then show False using assms(1) by (auto simp: system_inv_def budget_ok_def list_all_iff budget_thread_ok_def
        dest: bspec [where x = "RetryPanicked r"])
qed

text \<open>
  C39. Every upstream task ends.  In any interleaving of the tasks, apart from polls that find no
  reply, at most 26 steps per task happen; a task that has not finished can always take a further
  step, whatever the transport replies; and no task panics.
\<close>

theorem forward_tasks_end:
  assumes "(effective_step dbg ^^ n)
      (shared_new en threshold open_time probes budget ratio per_route, map task_new cs) (sh, tks)"
    and "length cs < 2 ^ 55"
  shows "n \<le> 26 * length cs \<and>
     (\<forall>tk \<in> set tks. (\<exists>r. tk_phase tk = Finished r) \<or>
        (\<forall>now reply. \<exists>ev \<in> {BudgetAccess now, PollPrimary now (Some reply), PollSecond now (Some reply)}.
           \<exists>s'. task_step dbg ev sh tk = Some s' \<and> s' \<noteq> (sh, tk)))"
proof -
  note run = effective_run [OF assms refl]
  have inv: "system_inv (shared_new en threshold open_time probes budget ratio per_route) cs (sh, tks)"
    by (rule system_run_inv [OF run [THEN conjunct1] assms(2) refl])
  have "phase_ok tk \<and> tk_phase tk \<noteq> TaskPanicked" if "tk \<in> set tks" for tk
    using inv not_panicked [OF inv that] that by (simp add: system_inv_def list_all_iff task_ok_def)
  then show ?thesis using run unfinished_progress by (metis trans_le_add1 le_trans le_add1)
qed

section \<open>A run of one task\<close>

primrec run_task :: "bool \<Rightarrow> 'b forward_event list \<Rightarrow> forward_shared \<times> ('e, 'q, 'b) forward_task \<Rightarrow>
    (forward_shared \<times> ('e, 'q, 'b) forward_task) option" where
  "run_task dbg [] s = Some s"
| "run_task dbg (ev # evs) s = (case task_step dbg ev (fst s) (snd s) of None \<Rightarrow> None | Some s' \<Rightarrow> run_task dbg evs s')"

lemma run_task_steps:
  "run_task dbg evs (sh, tk) = Some (sh', tk') \<Longrightarrow> (forward_step dbg)\<^sup>*\<^sup>* (sh, [tk]) (sh', [tk'])"
proof (induction evs arbitrary: sh tk)
  case (Cons ev evs)
  obtain sh1 tk1 where st: "task_step dbg ev sh tk = Some (sh1, tk1)" and "run_task dbg evs (sh1, tk1) = Some (sh', tk')"
    using Cons.prems by (auto split: option.splits)
  moreover have "forward_step dbg (sh, [tk]) (sh1, [tk1])" using task [of 0 "[tk]" dbg ev sh sh1 tk1] st by simp
  ultimately show ?case using Cons.IH by (meson converse_rtranclp_into_rtranclp)
qed simp

text \<open>A \<open>GET\<close> whose primary backend fails and whose retry succeeds.\<close>

definition demo_ctx :: "(unit, unit) forward_ctx" where
  "demo_ctx = \<lparr>fc_route_name = ''api'', fc_primary_backend = ''a'',
     fc_policy = \<lparr>fp_method_idempotent = True, fp_bodyless_mode = True, fp_hedge_method_allowed = False,
       fp_hedge_configured = False, fp_hedge_tunnel_request = False\<rparr>,
     fc_alternate = Some (AlternateSelected ''b''), fc_backend_endpoints = (\<lambda>_. Some ()), fc_build_bodyless = Inr,
     fc_request = Some (), fc_tunnel_mode = TunnelNone, fc_scheme = SchemeHttp, fc_tunnel_body_rx = False,
     fc_tunnel_request = Inr (), fc_hedge_delay = 0\<rparr>"

definition demo_shared :: forward_shared where
  "demo_shared = shared_new False 3 10 1 True 10 Map.empty"

definition demo_events :: "unit forward_event list" where
  "demo_events = [BudgetAccess 0, BudgetAccess 0, PollPrimary 0 None, PollPrimary 5 (Some (Inl (TransportFailed ''reset''))),
     BudgetAccess 6, BudgetAccess 6, BudgetAccess 6, PollSecond 7 None,
     PollSecond 9 (Some (Inr (UpstreamResponse 200 ())))]"

lemmas demo_defs = demo_ctx_def demo_shared_def shared_new_def task_new_def telemetry_default_def
  circuit_breakers_new_def retry_budget_new_def

lemmas demo_budget_defs = mark_step_def mark_global_def mark_route_def allow_step_def retry_start_def retry_reserve_def
  retry_route_def retry_limit_def route_entry_def route_ratio_def saturating_add_def

lemmas demo_policy_defs = forward_start_def hedge_before_delay_def alternate_backend_policy_state_def evaluate_hedge_policy_def
  retry_after_error_def evaluate_retry_policy_def max_upstream_retry_attempts_def build_alternate_bodyless_candidate_def

lemmas demo_send_defs = allow_request_def permit_new_def permit_record_success_def permit_record_failure_def permit_drop_def
  cb_record_success_def cb_record_failure_def polls_primary_def polls_second_def primary_returned_def second_returned_def
  retry_primary_error_def finish_with_def leave_task_def on_retry_def record_attempt_def

lemma demo_run:
  "\<exists>sh tk. run_task True demo_events (demo_shared, task_new demo_ctx) = Some (sh, tk) \<and>
     tk_phase tk = Finished (Inr (ForwardResponse (UpstreamResponse 200 ()))) \<and>
     tk_primary tk = Answered (Inl (TransportFailed ''reset'')) \<and>
     tk_second tk = Some (Answered (Inr (UpstreamResponse 200 ())))"
  by (simp add: demo_events_def demo_defs demo_budget_defs demo_policy_defs demo_send_defs Let_def)

lemma demo_reachable:
  "\<exists>sh tk. (forward_step True)\<^sup>*\<^sup>* (demo_shared, map task_new [demo_ctx]) (sh, [tk]) \<and>
     tk_phase tk = Finished (Inr (ForwardResponse (UpstreamResponse 200 ()))) \<and>
     tk_primary tk = Answered (Inl (TransportFailed ''reset'')) \<and>
     tk_second tk = Some (Answered (Inr (UpstreamResponse 200 ())))"
  using demo_run run_task_steps by fastforce

theorem forward_tasks_end_witness:
  "\<exists>sh tk. (effective_step True ^^ 1) (demo_shared, map task_new [demo_ctx]) (sh, [tk]) \<and>
     (\<exists>ev s'. task_step True ev sh (tk :: (unit, unit, unit) forward_task) = Some s' \<and> s' \<noteq> (sh, tk))"
proof -
  let ?tk = "task_new demo_ctx :: (unit, unit, unit) forward_task"
  obtain sh tk where st: "task_step True (BudgetAccess 0) demo_shared ?tk = Some (sh, tk)" "tk_phase tk = Marking"
      "tk_mark tk = MarkRoute ''api''"
    by (simp add: demo_defs mark_step_def)
  have "effective_step True (demo_shared, [?tk]) (sh, [tk])"
    using task [of 0 "[?tk]" True "BudgetAccess 0"] st by (auto simp: effective_step_def demo_ctx_def)
  then have run: "(effective_step True ^^ 1) (demo_shared, map task_new [demo_ctx]) (sh, [tk])" by (simp add: eq_OO)
  from forward_tasks_end [OF this [unfolded demo_shared_def]] st(2) have
    "\<forall>now reply. \<exists>ev \<in> {BudgetAccess now, PollPrimary now (Some reply), PollSecond now (Some reply)}.
       \<exists>s'. task_step True ev sh tk = Some s' \<and> s' \<noteq> (sh, tk)" by simp
  then show ?thesis using run by blast
qed

text \<open>
  The budget is asked before the policy: a request that may not be retried, because its verb is not
  idempotent, still takes a retry out of the budget when it fails.
\<close>

definition demo_post_ctx :: "(unit, unit) forward_ctx" where
  "demo_post_ctx = demo_ctx\<lparr>fc_policy := (fc_policy demo_ctx)\<lparr>fp_method_idempotent := False\<rparr>\<rparr>"

lemma denied_retry_spends_budget:
  "\<exists>sh (tk :: (unit, unit, unit) forward_task).
     run_task True (take 7 demo_events) (demo_shared, task_new demo_post_ctx) = Some (sh, tk) \<and>
     tk_phase tk = Finished (Inl (TransportFailed ''reset'')) \<and> tk_second tk = None \<and>
     rt_denial_reason (pt_retry (tk_telemetry tk)) = Some MethodNotIdempotent \<and>
     global_retries (sh_budget demo_shared) = 0 \<and> global_retries (sh_budget sh) = 1"
  by (simp add: demo_events_def demo_post_ctx_def demo_defs demo_budget_defs demo_policy_defs demo_send_defs
      record_denial_def Let_def)

text \<open>While a hedge is still possible, an error of the primary request is final: it is not retried.\<close>

lemma hedge_wait_error_final:
  assumes "tk_phase tk = HedgeWait b" and "tk_primary tk = InFlight p" and "tk_second tk = None"
  shows "\<exists>sh' tk'. task_step dbg (PollPrimary now (Some (Inl e))) sh tk = Some (sh', tk') \<and>
    tk_phase tk' = Finished (Inl e) \<and> tk_second tk' = None"
  using assms by (simp add: polls_primary_def primary_returned_def finish_with_def leave_task_eq)

section \<open>Probes, results and amplification\<close>

text \<open>
  C3. The circuit breakers stay exact under concurrent forwards.  In every interleaving of the
  tasks, a half-open breaker counts exactly the requests of its current generation that are still
  waiting for the transport, never more than the configured number of probes; a request that loses
  a hedge race or belongs to an older generation does not disturb the count, and once all tasks have
  finished no probe slot is taken.
\<close>

theorem forward_probes_accounted:
  assumes "(forward_step dbg)\<^sup>*\<^sup>* (shared_new en threshold open_time probes budget ratio per_route, map task_new cs) (sh, tks)"
    and "length cs < 2 ^ 55"
  shows "(half_open (breaker_of (sh_breakers sh) b) \<longrightarrow>
       length (filter (\<lambda>p. permit_backend p = b \<and>
           probe_generation p = Some (half_open_generation (breaker_of (sh_breakers sh) b))) (system_permits tks)) =
         unat (half_open_inflight (breaker_of (sh_breakers sh) b))) \<and>
     unat (half_open_inflight (breaker_of (sh_breakers sh) b)) \<le> max (unat probes) 1 \<and>
     ((\<forall>tk \<in> set tks. \<exists>r. tk_phase tk = Finished r) \<longrightarrow> half_open_inflight (breaker_of (sh_breakers sh) b) = 0)"
proof -
  let ?st = "breaker_of (sh_breakers sh) b" and ?sh0 = "shared_new en threshold open_time probes budget ratio per_route"
  have inv: "system_inv ?sh0 cs (sh, tks)" by (rule system_run_inv [OF assms refl])
  then obtain n where ok: "breakers_ok n (sh_breakers sh) (mset (system_permits tks))"
    and cfg: "breaker_config (sh_breakers sh) = breaker_config (sh_breakers ?sh0)"
    by (auto simp: system_inv_def system_ledger_def ledger_ok_def)
  have probes: "half_open_max_probes (sh_breakers sh) = max probes 1"
    using cfg by (simp add: breaker_config_def shared_new_def circuit_breakers_new_def)
  note st = breakers_okD(4) [OF ok, of b, unfolded breaker_ok_def probes generations_out_count]
  have "task_permits tk = []" if "tk \<in> set tks" "tk_phase tk = Finished r" for tk r
  proof -
    have "phase_ok tk" using inv that(1) by (simp add: system_inv_def list_all_iff task_ok_def)
    then show ?thesis using that(2)
      by (cases r) (auto simp: phase_ok_def ended_in_error_def task_permits_def second_permits_def split: option.splits)
  qed
  then have "(\<forall>tk \<in> set tks. \<exists>r. tk_phase tk = Finished r) \<Longrightarrow> system_permits tks = []"
    by (fastforce simp: system_permits_def)
  then show ?thesis
    using st by (auto simp: word_le_nat_alt unat_max unat_eq_0 split: if_splits)
qed

text \<open>Two tasks on a breaker that opens at the first failure: the second one is its half-open probe.\<close>

primrec run_system :: "bool \<Rightarrow> (nat \<times> 'b forward_event) list \<Rightarrow> forward_shared \<times> ('e, 'q, 'b) forward_task list \<Rightarrow>
    (forward_shared \<times> ('e, 'q, 'b) forward_task list) option" where
  "run_system dbg [] s = Some s"
| "run_system dbg (e # es) s =
     (if fst e < length (snd s) then
        (case task_step dbg (snd e) (fst s) (snd s ! fst e) of
           None \<Rightarrow> None | Some (sh, tk) \<Rightarrow> run_system dbg es (sh, (snd s)[fst e := tk]))
      else None)"

lemma run_system_steps: "run_system dbg es s = Some s' \<Longrightarrow> (forward_step dbg)\<^sup>*\<^sup>* s s'"
proof (induction es arbitrary: s)
  case (Cons e es)
  obtain sh tk where st: "fst e < length (snd s)" "task_step dbg (snd e) (fst s) (snd s ! fst e) = Some (sh, tk)"
      "run_system dbg es (sh, (snd s)[fst e := tk]) = Some s'"
    using Cons.prems by (auto split: if_splits option.splits)
  then have "forward_step dbg (fst s, snd s) (sh, (snd s)[fst e := tk])" by (intro task)
  then show ?case using Cons.IH [OF st(3)] by simp
qed simp

definition probe_events :: "(nat \<times> unit forward_event) list" where
  "probe_events = [(0, BudgetAccess 0), (0, BudgetAccess 0), (0, PollPrimary 0 None),
     (0, PollPrimary 5 (Some (Inl (TransportFailed ''reset'')))),
     (1, BudgetAccess 6), (1, BudgetAccess 6), (1, PollPrimary 20 None)]"

definition probe_shared :: forward_shared where
  "probe_shared = shared_new True 1 10 1 True 10 Map.empty"

lemma probe_run:
  "\<exists>sh (tks :: (unit, unit, unit) forward_task list).
     run_system True probe_events (probe_shared, map task_new [demo_ctx, demo_ctx]) = Some (sh, tks) \<and>
     half_open (breaker_of (sh_breakers sh) ''a'') \<and> half_open_inflight (breaker_of (sh_breakers sh) ''a'') = 1 \<and>
     half_open_generation (breaker_of (sh_breakers sh) ''a'') = 1"
  by (simp add: probe_events_def probe_shared_def demo_defs demo_budget_defs demo_policy_defs demo_send_defs
      breaker_of_def breaker_default_def set_breaker_def allow_breaker_def admit_breaker_def enter_half_open_def failure_breaker_def Let_def)

theorem forward_probes_accounted_witness:
  "\<exists>sh (tks :: (unit, unit, unit) forward_task list).
     (forward_step True)\<^sup>*\<^sup>* (probe_shared, map task_new [demo_ctx, demo_ctx]) (sh, tks) \<and>
     half_open (breaker_of (sh_breakers sh) ''a'') \<and>
     length (filter (\<lambda>p. permit_backend p = ''a'' \<and> probe_generation p = Some 1) (system_permits tks)) = 1"
proof -
  obtain sh and tks :: "(unit, unit, unit) forward_task list"
    where run: "(forward_step True)\<^sup>*\<^sup>* (probe_shared, map task_new [demo_ctx, demo_ctx]) (sh, tks)"
      and ho: "half_open (breaker_of (sh_breakers sh) ''a'')" "half_open_inflight (breaker_of (sh_breakers sh) ''a'') = 1"
        "half_open_generation (breaker_of (sh_breakers sh) ''a'') = 1"
    using probe_run run_system_steps by blast
  have "length (filter (\<lambda>p. permit_backend p = ''a'' \<and> probe_generation p = Some 1) (system_permits tks)) = 1"
    using forward_probes_accounted [OF run [unfolded probe_shared_def], of "''a''"] ho by simp
  then show ?thesis using run ho(1) by blast
qed

text \<open>
  C4. The result of a task is that of its requests.  A success is the response of one of its
  requests.  An error is returned only if nothing was sent or every request it sent failed, and it is
  then the error of one of them: in a hedge race neither answer is given up while the other may still
  succeed.
\<close>

theorem forward_result_justified:
  assumes "(forward_step dbg)\<^sup>*\<^sup>* (shared_new en threshold open_time probes budget ratio per_route, map task_new cs) (sh, tks)"
    and "length cs < 2 ^ 55" and "tk \<in> set tks" and "tk_phase tk = Finished r"
  shows "case r of
      Inr y \<Rightarrow> tk_primary tk = Answered (Inr (success_response y)) \<or> tk_second tk = Some (Answered (Inr (success_response y)))
    | Inl e \<Rightarrow>
        (\<exists>b. tk_primary tk = NotPolled b) \<and> tk_second tk = None \<or>
        send_output (tk_primary tk) \<noteq> None \<and> (\<forall>x. send_output (tk_primary tk) \<noteq> Some (Inr x)) \<and>
        (\<forall>f. tk_second tk = Some f \<longrightarrow> send_output f \<noteq> None \<and> (\<forall>x. send_output f \<noteq> Some (Inr x))) \<and>
        (send_output (tk_primary tk) = Some (Inl e) \<or> (\<exists>f. tk_second tk = Some f \<and> send_output f = Some (Inl e)))"
proof -
  have "phase_ok tk"
    using system_run_inv [OF assms(1,2) refl] assms(3) by (simp add: system_inv_def list_all_iff task_ok_def)
  moreover have "send_output f \<noteq> None \<and> (\<forall>x. send_output f \<noteq> Some (Inr x))" if "failed f" for f :: "'c send_future"
    using that unfolding failed_def by (metis option.inject option.simps(3) send_output_cases(2) sum.distinct(1))
  ultimately show ?thesis
    using assms(4) by (cases r) (auto simp: phase_ok_def ended_in_error_def answered_by_def send_output_cases)
qed

theorem forward_result_justified_witness:
  "\<exists>sh (tk :: (unit, unit, unit) forward_task). (forward_step True)\<^sup>*\<^sup>* (demo_shared, map task_new [demo_ctx]) (sh, [tk]) \<and>
     tk_phase tk = Finished (Inr (ForwardResponse (UpstreamResponse 200 ()))) \<and>
     tk_second tk = Some (Answered (Inr (UpstreamResponse 200 ())))"
proof -
  obtain sh and tk :: "(unit, unit, unit) forward_task"
    where run: "(forward_step True)\<^sup>*\<^sup>* (demo_shared, map task_new [demo_ctx]) (sh, [tk])"
      and fin: "tk_phase tk = Finished (Inr (ForwardResponse (UpstreamResponse 200 ())))"
      and first: "tk_primary tk = Answered (Inl (TransportFailed ''reset''))" using demo_reachable by blast
  from forward_result_justified [OF run [unfolded demo_shared_def] _ _ fin]
  have "tk_second tk = Some (Answered (Inr (UpstreamResponse 200 ())))" using first by simp
  then show ?thesis using run fin by blast
qed

section \<open>Second requests\<close>

lemma choose_alternate_member:
  assumes "up_inv dbg n clk u" and "n < 2 ^ 64" and "gen_range_ok g"
    and "choose_alternate_backend g u excluded key = Some (SelectAlternate i m, u')"
  shows "i \<in> set (healthy (up_pool u)) - set excluded \<and> up_pool u' = up_pool u"
proof -
  let ?k = "case key of None \<Rightarrow> [] | Some k \<Rightarrow> k"
  have fallback: "j \<in> set (healthy (up_pool v)) - set excluded" if "healthy_fallback_choice v excluded = SelectAlternate j k"
    for v j k
    using that by (auto simp: healthy_fallback_choice_def is_excluded_def find_Some_iff split: option.splits if_splits)
  have coh: "lb_coherent n (up_pool u) (up_lb u)" using assms(1) by (simp add: up_inv_def)
  obtain r lb' where r: "lb_pick_readonly (g, ?k) (up_lb u) (up_pool u) = Some (r, lb')"
    "\<forall>i. r = Some i \<longrightarrow> i \<in> set (healthy (up_pool u))"
    using pick_readonly_member [OF up_inv_ready [OF assms(1)] assms(3) coh assms(2), of ?k] by blast
  then show ?thesis
    using assms(4) fallback [of "u\<lparr>up_lb := lb'\<rparr>"] fallback [of u]
    by (auto simp: choose_alternate_backend_def up_pick_readonly_def is_excluded_def split: if_splits option.splits)
qed

lemma resolve_alternate_healthy:
  assumes "up_inv dbg n clk u" and "n < 2 ^ 64" and "gen_range_ok g"
    and "resolve_alternate_backend g poisoned u primary = Some (AlternateSelected a, u')"
  shows "\<exists>j \<in> set (healthy (up_pool u)). j \<noteq> primary \<and> (dbg \<longrightarrow> is_healthy (backends (up_pool u) ! j)) \<and>
    backend_address u j = Some a"
proof -
  have "\<exists>j \<in> set (healthy (up_pool u)). j \<noteq> primary \<and> backend_address u j = Some a"
    using assms(4) choose_alternate_member [OF assms(1-3)]
    by (fastforce simp: resolve_alternate_backend_def backend_address_def
        split: if_splits option.splits alternate_decision.splits)
  moreover have "is_healthy (backends (up_pool u) ! j)" if "dbg" "j \<in> set (healthy (up_pool u))" for j
    using assms(1) that pool_inv_member [of clk "up_pool u" j] by (auto simp: up_inv_def)
  ultimately show ?thesis by blast
qed

text \<open>
  C5. When a request is sent a second time, it may be: its body can be replayed, and either its verb is
  idempotent or it is hedged on a route and with a verb configured for hedging and is not a tunnel.  The
  second request goes to a backend that is not the primary one and was in the healthy vector of the
  upstream when the alternate was chosen, after any history of that upstream.  In a build with
  \<open>debug_assertions\<close> that backend was healthy; in a build without them the healthy vector is the
  initial one (C7), so it may have been ejected.  The second request was granted by the retry budget,
  unless the circuit breaker had refused the first one.
\<close>

theorem second_request_allowed:
  assumes "(forward_step dbg)\<^sup>*\<^sup>* (shared_new en threshold open_time probes budget ratio per_route, map task_new cs) (sh, tks)"
    and "length cs < 2 ^ 55" and "tk \<in> set tks" and "tk_second tk = Some f"
    and "fc_policy (tk_ctx tk) = forwarding_policy_for rr verb bodyless tunnel upstream"
    and "fc_alternate (tk_ctx tk) = Some alt"
    and "resolve_alternate_backend g poisoned u primary = Some (alt, u')"
    and "from_runtime_upstream cfgs lb_policy = Inr u0" and "length cfgs \<le> 2 ^ 15"
    and "up_ops_ok clk ops" and "3 * length ops < 2 ^ 64" and "up_run dbg ops u0 = Some (out, u)" and "gen_range_ok g"
  shows "bodyless \<and>
     (is_idempotent_method verb \<or>
      hedging_route_enabled_for rr upstream \<and> hedging_method_allowed rr verb \<and> \<not> tunnel) \<and>
     (\<exists>j \<in> set (healthy (up_pool u)). j \<noteq> primary \<and> (dbg \<longrightarrow> is_healthy (backends (up_pool u) ! j)) \<and> (\<forall>b. send_target f = Some b \<longrightarrow> backend_address u j = Some b)) \<and>
     (tk_retry tk = RetryAllowed (fc_route_name (tk_ctx tk)) \<or>
      (\<exists>b. send_output (tk_primary tk) = Some (Inl (PoolFailed (PoolCircuitOpen b)))))"
proof -
  have "second_ok tk"
    using system_run_inv [OF assms(1,2) refl] assms(3) by (simp add: system_inv_def list_all_iff task_ok_def)
  then obtain a where a: "alt = AlternateSelected a" "send_target f \<in> {None, Some a}"
    and pol: "second_allowed (fc_policy (tk_ctx tk))" and paid: "second_paid tk"
    using assms(4,6) by (auto simp: second_ok_def)
  obtain t where inv: "up_inv dbg (3 * length ops) t u" by (rule reached_upstream_inv [OF assms(8-12)])
  have "\<exists>j \<in> set (healthy (up_pool u)). j \<noteq> primary \<and> (dbg \<longrightarrow> is_healthy (backends (up_pool u) ! j)) \<and>
      backend_address u j = Some a"
    by (rule resolve_alternate_healthy [OF inv assms(11,13) assms(7) [unfolded a(1)]])
  moreover have "\<exists>b. e = PoolFailed (PoolCircuitOpen b)" if "budget_exempt e" for e
    using that by (cases e rule: budget_exempt.cases) simp_all
  then have "tk_retry tk = RetryAllowed (fc_route_name (tk_ctx tk)) \<or>
      (\<exists>b. send_output (tk_primary tk) = Some (Inl (PoolFailed (PoolCircuitOpen b))))"
    using paid by (auto simp: second_paid_def send_output_cases)
  ultimately show ?thesis
    using pol assms(5) a(2) by (auto simp: second_allowed_def forwarding_policy_for_def)
qed

definition demo_resilience :: runtime_resilience where
  "demo_resilience = \<lparr>rr_adaptive_admission = adaptive_admission_new False 1 1 1 1 1,
     rr_route_queue = route_queue_new 1 1 Map.empty,
     rr_circuit_breakers = sh_breakers demo_shared, rr_retry_budget = sh_budget demo_shared,
     rr_brownout = brownout_new False 90 70 [], rr_shed_retry_after_seconds = 1, rr_allow_0rtt = False,
     rr_max_headers_count = 1, rr_max_headers_bytes = 1, rr_enforce_authority_host_match = False, rr_allow_connect = False,
     rr_hedging_enabled = False, rr_hedging_delay = 0, rr_hedge_safe_methods = {}, rr_early_data_safe_methods = {},
     rr_allowed_methods = {}, rr_denied_path_prefixes = [], rr_connect_allowed_ports = {},
     rr_connect_allowed_authorities = {}, rr_route_allowlist = {}\<rparr>"

definition demo_configs :: "backend_config list" where
  "demo_configs = [\<lparr>bc_id = ''a'', bc_address = ''a'', bc_weight = 1, bc_health_check = None\<rparr>,
     \<lparr>bc_id = ''b'', bc_address = ''b'', bc_weight = 1, bc_health_check = None\<rparr>]"

definition demo_lb_policy :: lb_policy where
  "demo_lb_policy = sample_policy\<lparr>lp_alternate := \<lparr>readonly_lb_pick = False, healthy_fallback = True\<rparr>\<rparr>"

definition demo_upstream :: upstream_pool where
  "demo_upstream = \<lparr>up_pool = new_from_states (map backend_state_new demo_configs), up_lb = LbRandom random_new,
     up_policy = demo_lb_policy\<rparr>"

lemmas demo_upstream_defs = demo_upstream_def demo_configs_def demo_lb_policy_def

lemma demo_upstream_healthy: "healthy (up_pool demo_upstream) = [0, 1]"
  by (simp add: demo_upstream_defs new_from_states_def backend_state_new_def is_healthy_def)

lemma demo_upstream_alternate:
  "resolve_alternate_backend (\<lambda>_. 0) False demo_upstream 0 = Some (AlternateSelected ''b'', demo_upstream)"
proof -
  have "choose_alternate_backend (\<lambda>_. 0) demo_upstream [0] None = Some (SelectAlternate 1 HealthyFallback, demo_upstream)"
    using demo_upstream_healthy
    by (simp add: choose_alternate_backend_def healthy_fallback_choice_def is_excluded_def) (simp add: demo_upstream_defs)
  moreover have "backend_address demo_upstream 1 = Some ''b''"
    by (simp add: backend_address_def demo_upstream_defs vec_get_def backend_state_new_def)
  ultimately show ?thesis by (simp add: resolve_alternate_backend_def)
qed

lemma demo_upstream_configured: "from_runtime_upstream demo_configs demo_lb_policy = Inr demo_upstream"
  using sample_upstream [of demo_configs]
  by (auto simp: from_runtime_upstream_def demo_upstream_def demo_lb_policy_def split: sum.splits)

theorem second_request_allowed_witness:
  "\<exists>sh (tk :: (unit, unit, unit) forward_task) f.
     (forward_step True)\<^sup>*\<^sup>* (demo_shared, map task_new [demo_ctx]) (sh, [tk]) \<and> tk_second tk = Some f \<and>
     is_idempotent_method ''GET'' \<and>
     (\<exists>j \<in> set (healthy (up_pool demo_upstream)). j \<noteq> 0 \<and> is_healthy (backends (up_pool demo_upstream) ! j)) \<and>
     tk_retry tk = RetryAllowed ''api''"
proof -
  obtain sh and tk :: "(unit, unit, unit) forward_task"
    where run: "(forward_step True)\<^sup>*\<^sup>* (demo_shared, map task_new [demo_ctx]) (sh, [tk])"
      and tk: "tk_primary tk = Answered (Inl (TransportFailed ''reset''))"
        "tk_second tk = Some (Answered (Inr (UpstreamResponse 200 ())))" using demo_reachable by blast
  have inv: "system_inv demo_shared [demo_ctx] (sh, [tk])"
    using system_run_inv [OF run _ demo_shared_def] by simp
  then have ctx: "tk_ctx tk = demo_ctx" by (simp add: system_inv_def)
  have get: "is_idempotent_method ''GET''" by (simp add: is_idempotent_method_def str_eval char_of_eq_iff)
  then have pol: "fc_policy (tk_ctx tk) = forwarding_policy_for demo_resilience ''GET'' True False ''api''"
    by (simp add: ctx demo_ctx_def forwarding_policy_for_def hedging_method_allowed_def hedging_route_enabled_for_def
        demo_resilience_def)
  have alt: "fc_alternate (tk_ctx tk) = Some (AlternateSelected ''b'')" by (simp add: ctx demo_ctx_def)
  have start: "up_run True [] demo_upstream = Some ([], demo_upstream)" and few: "length demo_configs \<le> 2 ^ 15"
    by (simp_all add: demo_configs_def)
  have "(\<exists>j \<in> set (healthy (up_pool demo_upstream)). j \<noteq> 0 \<and> is_healthy (backends (up_pool demo_upstream) ! j)) \<and>
      tk_retry tk = RetryAllowed ''api''"
    using second_request_allowed [OF run [unfolded demo_shared_def] _ _ tk(2) pol alt demo_upstream_alternate
        demo_upstream_configured few _ _ start] tk(1)
    by (auto simp: gen_range_ok_def ctx demo_ctx_def)
  then show ?thesis using run tk(2) get by blast
qed

fun sent :: "'b send_future \<Rightarrow> bool" where
  "sent (NotPolled b) = False"
| "sent (Refused b) = False"
| "sent f = True"

text \<open>Both requests of the task went out, and the first was not answered by an open circuit.\<close>

definition sent_twice :: "('e, 'q, 'b) forward_task \<Rightarrow> bool" where
  "sent_twice tk \<longleftrightarrow> sent (tk_primary tk) \<and> (\<forall>b. tk_primary tk \<noteq> Answered (Inl (PoolFailed (PoolCircuitOpen b)))) \<and>
     (case tk_second tk of None \<Rightarrow> False | Some f \<Rightarrow> sent f)"

lemma sent_twice_paid:
  assumes "task_ok tk" and "sent_twice tk"
  shows "tk_retry tk = RetryAllowed (fc_route_name (tk_ctx tk))"
proof -
  have "second_paid tk" using assms by (auto simp: task_ok_def sent_twice_def second_ok_def split: option.splits)
  moreover have "\<not> budget_exempt e" if "failed_with e (tk_primary tk)" for e
    using that assms(2) by (cases "tk_primary tk"; cases e rule: budget_exempt.cases) (auto simp: sent_twice_def)
  ultimately show ?thesis by (auto simp: second_paid_def)
qed

lemma length_filter_mono:
  "(\<And>x. x \<in> set xs \<Longrightarrow> P x \<Longrightarrow> Q (f x)) \<Longrightarrow> length (filter P xs) \<le> length (filter Q (map f xs))"
  by (induction xs) (auto simp: le_SucI)

lemma length_filter_map_le:
  "(\<And>x. x \<in> set xs \<Longrightarrow> Q (f x) \<Longrightarrow> P x) \<Longrightarrow> length (filter Q (map f xs)) \<le> length (filter P xs)"
  by (induction xs) (auto simp: le_SucI)

lemma system_counts:
  assumes "\<And>tk. tk \<in> set tks \<Longrightarrow> task_ok tk"
  shows "length (filter sent_twice tks) \<le> retries_reserved (system_threads tks)"
    and "length (filter (\<lambda>tk. sent_twice tk \<and> fc_route_name (tk_ctx tk) = r) tks) \<le>
      route_retries_allowed r (system_threads tks)"
    and "primaries_marked (system_threads tks) \<le> length (filter (\<lambda>tk. is_marked (tk_mark tk)) tks)"
    and "route_primaries r (system_threads tks) \<le> length (filter (\<lambda>tk. fc_route_name (tk_ctx tk) = r) tks)"
proof -
  have kinds: "mark_thread (fc_route_name (tk_ctx tk)) (tk_mark tk)" "retry_thread (fc_route_name (tk_ctx tk)) (tk_retry tk)"
    if "tk \<in> set tks" for tk using assms [OF that] by (simp_all add: task_ok_def threads_ok_def)
  have "length (filter sent_twice tks) \<le> length (filter is_reserved (map tk_retry tks))"
    by (rule length_filter_mono) (simp add: sent_twice_paid assms)
  then show "length (filter sent_twice tks) \<le> retries_reserved (system_threads tks)"
    by (simp add: retries_reserved_def system_threads_def)
  have "length (filter (\<lambda>tk. sent_twice tk \<and> fc_route_name (tk_ctx tk) = r) tks) \<le>
      length (filter (\<lambda>t. t = RetryAllowed r) (map tk_retry tks))"
    by (rule length_filter_mono) (use sent_twice_paid assms in auto)
  then show "length (filter (\<lambda>tk. sent_twice tk \<and> fc_route_name (tk_ctx tk) = r) tks) \<le>
      route_retries_allowed r (system_threads tks)"
    by (simp add: route_retries_allowed_def system_threads_def)
  have "\<not> is_marked t \<and> t \<noteq> MarkDone r" if "retry_thread q t" for q t using that by (cases t) simp_all
  then have none: "filter is_marked (map tk_retry tks) = []" "filter (\<lambda>t. t = MarkDone r) (map tk_retry tks) = []"
    using kinds(2) by (auto simp: filter_empty_conv)
  show "primaries_marked (system_threads tks) \<le> length (filter (\<lambda>tk. is_marked (tk_mark tk)) tks)"
    unfolding primaries_marked_def system_threads_def filter_append none append_Nil2 by (rule length_filter_map_le)
  have "fc_route_name (tk_ctx tk) = r" if "tk \<in> set tks" "tk_mark tk = MarkDone r" for tk
    using kinds(1) [OF that(1)] that(2) by simp
  then show "route_primaries r (system_threads tks) \<le> length (filter (\<lambda>tk. fc_route_name (tk_ctx tk) = r) tks)"
    unfolding route_primaries_def system_threads_def filter_append none append_Nil2 by (rule length_filter_map_le)
qed

text \<open>
  C2. Retries and hedges together cannot amplify the load beyond the retry budget.  In every interleaving,
  the number of tasks whose request went out twice is at most the configured percentage of the tasks
  that started, plus one; and likewise for every route with its own percentage.
\<close>

theorem forward_amplification_bounded:
  assumes "(forward_step dbg)\<^sup>*\<^sup>* (shared_new en threshold open_time probes True ratio per_route, map task_new cs) (sh, tks)"
    and "length cs < 2 ^ 55"
  shows "length (filter sent_twice tks) \<le> length (filter (\<lambda>tk. is_marked (tk_mark tk)) tks) * unat ratio div 100 + 1 \<and>
     length (filter (\<lambda>tk. sent_twice tk \<and> fc_route_name (tk_ctx tk) = r) tks) \<le>
       length (filter (\<lambda>tk. fc_route_name (tk_ctx tk) = r) tks) *
         unat (case per_route r of Some q \<Rightarrow> q | None \<Rightarrow> ratio) div 100 + 1"
proof -
  let ?sh0 = "shared_new en threshold open_time probes True ratio per_route" and ?ts = "system_threads tks"
  have inv: "system_inv ?sh0 cs (sh, tks)" by (rule system_run_inv [OF assms refl])
  then have bok: "budget_ok (sh_budget sh, ?ts)" and same: "same_ratios (sh_budget ?sh0) (sh_budget sh)"
    and ok: "\<And>tk. tk \<in> set tks \<Longrightarrow> task_ok tk" by (auto simp: system_inv_def list_all_iff)
  have cfg: "rb_enabled (sh_budget sh)" "global_ratio_percent (sh_budget sh) = ratio" "per_route_ratio_percent (sh_budget sh) = per_route"
    using same by (simp_all add: same_ratios_def shared_new_def retry_budget_new_def)
  then have rr: "route_ratio (sh_budget sh) r = (case per_route r of Some q \<Rightarrow> q | None \<Rightarrow> ratio)"
    by (simp add: route_ratio_def split: option.splits)
  note counts = system_counts [where tks = tks, OF ok]
  have "length (filter sent_twice tks) \<le> percent_limit (primaries_marked ?ts) ratio"
    using counts(1) bok cfg by (auto simp: budget_ok_def)
  also have "\<dots> \<le> percent_limit (length (filter (\<lambda>tk. is_marked (tk_mark tk)) tks)) ratio"
    by (rule percent_limit_mono [OF counts(3)])
  finally have all: "length (filter sent_twice tks) \<le> \<dots>" .
  have "length (filter (\<lambda>tk. sent_twice tk \<and> fc_route_name (tk_ctx tk) = r) tks) \<le>
      percent_limit (route_primaries r ?ts) (route_ratio (sh_budget sh) r)"
    using counts(2) [of r] bok cfg(1) by (auto simp: budget_ok_def route_ok_def dest: spec [of _ r])
  also have "\<dots> \<le> percent_limit (length (filter (\<lambda>tk. fc_route_name (tk_ctx tk) = r) tks)) (route_ratio (sh_budget sh) r)"
    by (rule percent_limit_mono [OF counts(4) [of r]])
  finally show ?thesis using all by (simp add: percent_limit_def rr)
qed

theorem forward_amplification_bounded_witness:
  "\<exists>sh (tks :: (unit, unit, unit) forward_task list).
     (forward_step True)\<^sup>*\<^sup>* (demo_shared, map task_new [demo_ctx]) (sh, tks) \<and>
     length (filter sent_twice tks) = 1 \<and> length (filter sent_twice tks) \<le> 1 * 10 div 100 + 1"
proof -
  obtain sh and tk :: "(unit, unit, unit) forward_task"
    where run: "(forward_step True)\<^sup>*\<^sup>* (demo_shared, map task_new [demo_ctx]) (sh, [tk])"
      and tk: "tk_primary tk = Answered (Inl (TransportFailed ''reset''))"
        "tk_second tk = Some (Answered (Inr (UpstreamResponse 200 ())))" using demo_reachable by blast
  have twice: "sent_twice tk" using tk by (simp add: sent_twice_def)
  have "length (filter sent_twice [tk]) \<le> length (filter (\<lambda>tk. is_marked (tk_mark tk)) [tk]) * 10 div 100 + 1"
    using forward_amplification_bounded [OF run [unfolded demo_shared_def], of "''api''"] by simp
  moreover have "length (filter (\<lambda>tk. is_marked (tk_mark tk)) [tk]) \<le> 1" by simp
  ultimately have "length (filter sent_twice [tk]) \<le> 1 * 10 div 100 + 1" using twice by simp
  then show ?thesis using run twice by (intro exI [of _ sh] exI [of _ "[tk]"]) simp
qed

end
