(* ===== verification/Spec2Isabelle.thy ===== *)
theory Spec2Isabelle
  imports Token_Bucket Cid_Radix Routing_Scan Request_Validation Forward_System
begin

text \<open>
  A verification of impulse, a load-balancing reverse proxy for QUIC and HTTP/3 written in Rust
  (\<open>src/crates\<close>).

  \<^bold>\<open>The program.\<close>  A request that arrives on a connection is validated against the protocol policy,
  matched to an upstream by host, path and verb, admitted by the resilience layer, given a backend
  of the upstream by a load-balancing strategy, and forwarded; a failed or late forward may be sent
  once more to an alternate backend.  Outcomes flow back into the health of the backend, the circuit
  breaker and the admission limits.  The configuration is normalised once into policies from which
  the runtime objects are built.

  \<^bold>\<open>The theories\<close>, in the order of their imports:

  \<^item> \<open>Impulse_Prelude\<close>: durations, saturating arithmetic on words, vectors, binary search.
    \<open>Rust_Strings\<close>: the string operations of the standard library on byte strings.
    \<open>Membership_Index\<close>: a locale for a vector with a position table.
  \<^item> \<open>Lb_Backend\<close>, \<open>Lb_Pool\<close>, \<open>Lb_Pool_Inv\<close>, \<open>Lb_Pool_Trace\<close> (\<open>lb/src/backend.rs\<close>, \<open>backend_pool.rs\<close>): the
    health state machine of a backend and the pool with its membership vectors and epoch; the
    invariant of the pool under every history, ejection, probing and re-admission.
  \<^item> \<open>Lb_Picker\<close>, \<open>Lb_Round_Robin\<close>, \<open>Lb_Random\<close>, \<open>Lb_Consistent_Hash\<close>, \<open>Lb_Load_Aware\<close>
    (\<open>lb/src/algorithms\<close>, \<open>hash.rs\<close>): the strategies with their epoch-keyed caches, each an instance of the
    locale of a picker; fairness, proportionality, minimality and minimal disruption.
    \<open>Lb_Facade\<close>, \<open>Lb_Upstream\<close> (\<open>load_balancing.rs\<close>, \<open>upstream_pool.rs\<close>, \<open>alternate_backend.rs\<close>): dispatch to the
    configured strategy, picks with accounting, the choice of an alternate backend.
  \<^item> \<open>Permit_Ledger\<close>: a locale for limiters that hand out permits, with the instances
    \<open>Circuit_Breaker\<close> and \<open>Route_Queue\<close> (\<open>edge/src/resilience/circuit_breaker.rs\<close>, \<open>route_queue.rs\<close>).
    \<open>Adaptive_Admission\<close>, \<open>Retry_Budget\<close>, \<open>Brownout\<close> (same directory): the lock-free counters as interleaved
    atomic accesses, and the brownout switch.
  \<^item> \<open>Resilience_Config\<close>, \<open>Runtime_Resilience\<close> (\<open>config/src/config/resilience.rs\<close>, \<open>config/src/runtime/policies\<close>,
    \<open>edge/src/resilience/runtime.rs\<close>, \<open>connect.rs\<close>): the resilience section, its normalisation with every
    error, and the guards built from it.
  \<^item> \<open>Token_Bucket\<close> (\<open>edge/src/quic_listener/token_bucket.rs\<close>): connection rate limiting, in total and by source.
    \<open>Cid_Radix\<close> (\<open>edge/src/cid_radix.rs\<close>): the trie of connection ids, with the locale \<open>finite_index\<close>.
  \<^item> \<open>Routing_Host\<close>, \<open>Routing_Trie\<close>, \<open>Routing_Index\<close>, \<open>Routing_Scan\<close> (\<open>edge/src/routing\<close>): hosts and paths, the path
    trie behind the locale \<open>path_store\<close>, the route index with both lookups, and the reference scan.
  \<^item> \<open>Request_Validation\<close> (\<open>edge/src/quic_listener/validation.rs\<close>, \<open>bridge/src/websocket.rs\<close>): the checks on the
    headers of a request, with the verdict of each failed check.
  \<^item> \<open>Upstream_Errors\<close> (crate \<open>errors\<close>): errors, their classification, and the retry and hedge decisions.
    \<open>Forward_Dispatch\<close>, \<open>Forward_Safety\<close>, \<open>Forward_System\<close> (\<open>edge/src/quic_listener/forwarding/dispatch.rs\<close>): the
    upstream task as a state machine, the invariant of a task, and the properties of any number of
    tasks interleaved on the shared circuit breakers and retry budget.

  \<^bold>\<open>Conventions.\<close>  A struct is a \<open>record\<close> and an enum a \<open>datatype\<close>.  Counters are words of their width and
  wrap or saturate as the code does; positions in vectors are \<open>nat\<close>.  An \<open>Instant\<close> or \<open>Duration\<close> is a \<open>nat\<close> of
  nanoseconds, and operations that read the clock take the time as an argument.  A panic is \<open>None\<close>; a
  \<open>Result\<close> is a sum with the error on the left.  \<open>f64\<close> is modelled by the reals.  Strings are lists of
  bytes; trimming and case mapping are those of ASCII, also where the code uses the Unicode ones.  A \<open>HashMap\<close> that is only looked up is a map; one
  that is iterated is an association list in some order.  Debug and release builds are told apart by
  an argument \<open>dbg\<close> where they differ.  An operation that holds a lock for its whole body is one step;
  atomics and separate critical sections are separate steps of interleaved threads.  The brownout
  switch is an exception: its one load and its one store of a flag are a single step, so its results
  are about observations that follow each other.

  \<^bold>\<open>The two builds.\<close>  The pool updates its membership vectors inside \<open>debug_assert!\<close>.  With
  \<open>debug_assertions\<close> the vectors are exactly the healthy and the probing backends after every history;
  without them they keep their initial contents, so an ejected backend is still picked.  The state of
  each backend follows the same thresholds in both builds.  The invariants \<open>pool_inv dbg\<close> and
  \<open>up_inv dbg\<close> cover both; results on caches, picks and alternate backends hold for both and speak of
  the vectors, and add that the backend is healthy only under \<open>dbg\<close>.

  \<^bold>\<open>What the lemmas show.\<close>  Per component: a well-formedness invariant kept by every operation; the
  exact outcome of the operations on every branch, with the error each failed check gives; the
  equivalence of caches, tries and optimised lookups with their specification; bounds of every limiter
  under every interleaving.  Across components: a request is forwarded at most twice and only when it
  may be, to members of the healthy vector, within the retry budget; the circuit breakers' probe counts stay exact
  under concurrent forwards; and every forward ends.

  \<^bold>\<open>Bounds and fuel.\<close>  No definition uses fuel except \<open>run_thread\<close>, which replays the at most four
  accesses of one retry; loops are structural recursions or have a termination proof.  Counters that
  wrap are exact for histories shorter than their range: theorems with epochs or generations assume
  fewer than 2^64 events, those on the retry budget fewer than 2^56 requests (so that a product with a
  percentage fits in 64 bits), those on forwarding fewer than 2^55 tasks.  A pool has at most 2^15
  backends, which keeps the sums of 32-bit weights below 2^63.

  \<^bold>\<open>Parameters.\<close>  Code that is not in the repository is an argument: the random source of a pick, the
  parser of authorities of the \<open>http\<close> crate, the replies of the HTTP client, and the texts of its errors.

  \<^bold>\<open>Not modelled.\<close>  Input and output: the QUIC packet loop, HTTP/3 framing, TLS and certificates, the HTTP
  client pools, the relay of request and response bodies, Redis.  Rendering: metrics, logs, traces, the
  control API.  Process management: bootstrap, signals, the watchdog service, the activation of
  configuration generations.  Authentication (JWT, JWKS, external), which rests on cryptographic
  libraries.  The parsing and validation of configuration sections other than resilience, routes
  and load balancing.
\<close>

end
